(* ===== verification/Blyt_Prelude.thy ===== *)
theory Blyt_Prelude
  imports Main "HOL-Library.Word"
begin

text \<open>
  Shared vocabulary of the development: the machine integers of the C sources as words, byte
  arrays as lists, the two block operations the code performs on them (reading a range and
  overwriting a range, the effect of a \<^verbatim>\<open>memcpy\<close> or \<^verbatim>\<open>memset\<close> inside one array), and the
  little-endian reading of a byte range, which is what every \<^verbatim>\<open>memcpy\<close> between an integer and
  a byte array does on the console's targets.  The lemmas are generic; the ones that
  normalise are simplification rules, the rest are collected in \<open>byte_simps\<close> and
  \<open>word_arith\<close>.
\<close>

unbundle bit_operations_syntax

named_theorems byte_simps
named_theorems word_arith

section \<open>Types\<close>

type_synonym u8 = "8 word"
type_synonym u16 = "16 word"
type_synonym u32 = "32 word"
type_synonym u64 = "64 word"
type_synonym bytes = "u8 list"

section \<open>Ranges of byte arrays\<close>

definition slice :: "nat \<Rightarrow> nat \<Rightarrow> 'a list \<Rightarrow> 'a list" where
  "slice off n xs = take n (drop off xs)"

definition splice :: "nat \<Rightarrow> 'a list \<Rightarrow> 'a list \<Rightarrow> 'a list" where
  "splice off ys xs = take off xs @ ys @ drop (off + length ys) xs"

lemma length_slice [simp]: "off + n \<le> length xs \<Longrightarrow> length (slice off n xs) = n"
  by (simp add: slice_def)

lemma length_slice_le: "length (slice off n xs) \<le> n"
  by (simp add: slice_def)

lemma length_splice [simp]: "off + length ys \<le> length xs \<Longrightarrow> length (splice off ys xs) = length xs"
  by (simp add: splice_def)

lemma slice_0 [simp]: "slice off 0 xs = []"
  by (simp add: slice_def)

lemma slice_all [simp]: "slice 0 (length xs) xs = xs"
  by (simp add: slice_def)

lemma splice_Nil [simp]: "splice off [] xs = xs"
  by (simp add: splice_def)

lemma slice_splice_same [simp]:
  "off + length ys \<le> length xs \<Longrightarrow> n = length ys \<Longrightarrow> slice off n (splice off ys xs) = ys"
  by (simp add: slice_def splice_def)

lemma nth_slice: "off + n \<le> length xs \<Longrightarrow> i < n \<Longrightarrow> slice off n xs ! i = xs ! (off + i)"
  by (simp add: slice_def)

lemma nth_splice:
  "off + length ys \<le> length xs \<Longrightarrow> i < length xs \<Longrightarrow>
   splice off ys xs ! i = (if off \<le> i \<and> i < off + length ys then ys ! (i - off) else xs ! i)"
  by (auto simp: splice_def nth_append)

lemma slice_splice_disjoint [byte_simps]:
  assumes "off + length ys \<le> length xs" "o2 + n \<le> length xs"
    and "off + length ys \<le> o2 \<or> o2 + n \<le> off"
  shows "slice o2 n (splice off ys xs) = slice o2 n xs"
  using assms by (intro nth_equalityI) (auto simp: nth_slice nth_splice)

lemma splice_slice_id [simp]: "off + n \<le> length xs \<Longrightarrow> splice off (slice off n xs) xs = xs"
  by (intro nth_equalityI) (auto simp: nth_splice nth_slice)

lemma slice_replicate: "off + k \<le> n \<Longrightarrow> slice off k (replicate n x) = replicate k x"
  by (simp add: slice_def)

lemma set_splice: "set (splice off ys xs) \<subseteq> set xs \<union> set ys"
  unfolding splice_def using set_take_subset [of off xs] set_drop_subset [of "off + length ys" xs]
  by auto

section \<open>Little-endian integers\<close>

primrec le_bytes :: "nat \<Rightarrow> 'a::len word \<Rightarrow> bytes" where
  "le_bytes 0 v = []"
| "le_bytes (Suc n) v = ucast v # le_bytes n (drop_bit 8 v)"

primrec le_of :: "bytes \<Rightarrow> 'a::len word" where
  "le_of [] = 0"
| "le_of (b # bs) = ucast b OR push_bit 8 (le_of bs)"

lemma length_le_bytes [simp]: "length (le_bytes n v) = n"
  by (induction n arbitrary: v) auto

lemma bit_u8_out [simp]: "8 \<le> n \<Longrightarrow> \<not> bit (b :: u8) n"
  using bit_imp_le_length [of b n] by auto

lemma le_of_le_bytes [byte_simps]: "le_of (le_bytes n v) = (take_bit (8 * n) v :: 'a::len word)"
proof (induction n arbitrary: v)
  case 0
  then show ?case by simp
next
  case (Suc n)
  have "ucast (ucast v :: u8) OR push_bit 8 (take_bit (8 * n) (drop_bit 8 v)) = take_bit (8 * Suc n) v"
    by (rule bit_word_eqI) (auto simp: bit_simps not_less)
  then show ?case by (simp add: Suc.IH)
qed

lemma le_of_le_bytes_full [simp]:
  "LENGTH('a) \<le> 8 * n \<Longrightarrow> le_of (le_bytes n v) = (v :: 'a::len word)"
  by (simp add: le_of_le_bytes take_bit_word_eq_self)

lemma bit_le_of_bound: "bit (le_of bs :: 'a::len word) n \<Longrightarrow> n < 8 * length bs"
proof (induction bs arbitrary: n)
  case Nil
  then show ?case by simp
next
  case (Cons b bs)
  show ?case
  proof (cases "n < 8")
    case False
    with Cons.prems have "bit (le_of bs :: 'a word) (n - 8)" by (auto simp: bit_simps)
    from Cons.IH [OF this] show ?thesis by simp
  qed simp
qed

lemma le_bytes_le_of [byte_simps]:
  "length bs = n \<Longrightarrow> 8 * n \<le> LENGTH('a) \<Longrightarrow> le_bytes n (le_of bs :: 'a::len word) = bs"
proof (induction bs arbitrary: n)
  case Nil
  then show ?case by simp
next
  case (Cons b bs)
  have 1: "ucast (ucast b OR push_bit 8 (le_of bs) :: 'a word) = b"
    using Cons.prems by (auto intro!: bit_word_eqI simp: bit_simps)
  have 2: "drop_bit 8 (ucast b OR push_bit 8 (le_of bs) :: 'a word) = le_of bs"
  proof (rule bit_word_eqI)
    fix k assume "k < LENGTH('a)"
    have "bit (le_of bs :: 'a word) k \<Longrightarrow> 8 + k < LENGTH('a)"
      using Cons.prems bit_le_of_bound [of bs k] by fastforce
    then show "bit (drop_bit 8 (ucast b OR push_bit 8 (le_of bs) :: 'a word)) k = bit (le_of bs :: 'a word) k"
      by (auto simp: bit_simps)
  qed
  have "le_bytes (length bs) (le_of bs :: 'a word) = bs" using Cons.prems by (intro Cons.IH) auto
  moreover have "n = Suc (length bs)" using Cons.prems by simp
  ultimately show ?case by (simp only: le_bytes.simps le_of.simps 1 2)
qed

lemma ucast_and_255 [byte_simps]: "(ucast (x AND 255) :: u8) = ucast (x :: 'a::len word)"
proof -
  have m: "(255 :: 'a word) = mask 8" by (simp add: mask_eq_exp_minus_1)
  show ?thesis unfolding m
    by (intro bit_word_eqI) (auto simp: bit_simps dest: bit_imp_le_length)
qed

section \<open>Byte-addressed memory\<close>

text \<open>A memory region the code addresses by offset: reading and writing ranges of bytes.\<close>

type_synonym mem = "nat \<Rightarrow> u8"

definition mem_read :: "mem \<Rightarrow> nat \<Rightarrow> nat \<Rightarrow> bytes" where
  "mem_read m i n = map (\<lambda>k. m (i + k)) [0..<n]"

definition mem_write :: "mem \<Rightarrow> nat \<Rightarrow> bytes \<Rightarrow> mem" where
  "mem_write m i bs = (\<lambda>j. if i \<le> j \<and> j < i + length bs then bs ! (j - i) else m j)"

lemma length_mem_read [simp]: "length (mem_read m i n) = n"
  by (simp add: mem_read_def)

lemma mem_read_write_same [simp]: "n = length bs \<Longrightarrow> mem_read (mem_write m i bs) i n = bs"
  by (rule nth_equalityI) (auto simp: mem_read_def mem_write_def)

lemma mem_read_write_other [byte_simps]:
  "j + n \<le> i \<or> i + length bs \<le> j \<Longrightarrow> mem_read (mem_write m i bs) j n = mem_read m j n"
  by (auto simp: mem_read_def mem_write_def)

lemma mem_write_out: "j < i \<or> i + length bs \<le> j \<Longrightarrow> mem_write m i bs j = m j"
  by (auto simp: mem_write_def)

lemma slice_mem_read: "i + k \<le> n \<Longrightarrow> slice i k (mem_read m j n) = mem_read m (j + i) k"
  by (rule nth_equalityI) (auto simp: nth_slice mem_read_def add.assoc)

section \<open>Sums of words that do not wrap\<close>

lemma unat_add_small [word_arith]:
  "unat a + unat b < 2 ^ LENGTH('a) \<Longrightarrow> unat (a + b) = unat a + unat (b :: 'a::len word)"
  by (simp add: unat_word_ariths)

lemma unat_sub_small [word_arith]: "b \<le> a \<Longrightarrow> unat (a - b) = unat a - unat (b :: 'a::len word)"
  by (simp add: unat_sub)

lemma unat_eq_word: "unat a = unat b \<longleftrightarrow> a = (b :: 'a::len word)"
  by (simp add: word_unat_eq_iff)

lemma and_not_mask_unat: "unat (x AND NOT (mask k) :: 'a::len word) = unat x div 2 ^ k * 2 ^ k"
proof -
  have "x AND NOT (mask k) = push_bit k (drop_bit k x)"
    by (rule bit_word_eqI) (auto simp: bit_simps)
  moreover have "unat x div 2 ^ k * 2 ^ k < 2 ^ LENGTH('a)"
    by (rule order_le_less_trans [OF _ unsigned_less [of x]]) simp
  ultimately show ?thesis
    by (simp only: unsigned_push_bit_eq unsigned_drop_bit_eq)
      (simp add: take_bit_nat_eq_self push_bit_eq_mult drop_bit_eq_div)
qed

lemma unat_u32_lt: "unat (a :: u32) < 4294967296"
  by (rule order_less_le_trans [OF unsigned_less]) simp

lemma unat_u16_lt: "unat (a :: u16) < 65536"
  by (rule order_less_le_trans [OF unsigned_less]) simp

end
