(* ===== verification/Handles.thy ===== *)
theory Handles
  imports Blyt_Prelude
begin

text \<open>
  The console-wide tagged handles (\<^verbatim>\<open>runtime/shared/blyt_handle.h\<close>), the lifecycle phases
  (\<^verbatim>\<open>blyt_phase.h\<close>), the slot generation counter (\<^verbatim>\<open>blyt_gen.h\<close>) and the NaN
  canonicalisation of state-buffer writes (\<^verbatim>\<open>blyt_fp_canon.c\<close>).  All are pure bit
  operations on fixed-width words and are translated with the source's shifts and masks.
  The lemmas give the field-by-field decoding of every encoder, the cycle structure of the
  generation counter and the normal form of the NaN canonicalisation.
\<close>

section \<open>Handle kinds and resource constants\<close>

definition BLYT_HANDLE_KIND_NONE :: u32 where "BLYT_HANDLE_KIND_NONE = 0"
definition BLYT_HANDLE_KIND_RESOURCE :: u32 where "BLYT_HANDLE_KIND_RESOURCE = 1"
definition BLYT_HANDLE_KIND_SURFACE :: u32 where "BLYT_HANDLE_KIND_SURFACE = 2"
definition BLYT_HANDLE_KIND_LOCKVIEW :: u32 where "BLYT_HANDLE_KIND_LOCKVIEW = 3"
definition BLYT_HANDLE_NONE :: u32 where "BLYT_HANDLE_NONE = 0"
definition BLYT_RESOURCE_PROV_CART :: u32 where "BLYT_RESOURCE_PROV_CART = 0"
definition BLYT_RESOURCE_PROV_RUNTIME :: u32 where "BLYT_RESOURCE_PROV_RUNTIME = 1"

lemmas handle_consts = BLYT_HANDLE_KIND_NONE_def BLYT_HANDLE_KIND_RESOURCE_def
  BLYT_HANDLE_KIND_SURFACE_def BLYT_HANDLE_KIND_LOCKVIEW_def BLYT_HANDLE_NONE_def
  BLYT_RESOURCE_PROV_CART_def BLYT_RESOURCE_PROV_RUNTIME_def

definition blyt_handle_kind :: "u32 \<Rightarrow> u32" where
  "blyt_handle_kind h = drop_bit 29 h"

definition blyt_resource_encode :: "u32 \<Rightarrow> u32 \<Rightarrow> u32" where
  "blyt_resource_encode rid prov =
     push_bit 29 BLYT_HANDLE_KIND_RESOURCE OR push_bit 24 (prov AND 0x1) OR (rid AND 0x00FFFFFF)"

definition blyt_resource_decode_id :: "u32 \<Rightarrow> u32" where
  "blyt_resource_decode_id h = h AND 0x00FFFFFF"

definition blyt_resource_decode_provenance :: "u32 \<Rightarrow> u32" where
  "blyt_resource_decode_provenance h = drop_bit 24 h AND 0x1"

definition blyt_handle_is_resource :: "u32 \<Rightarrow> bool" where
  "blyt_handle_is_resource h \<longleftrightarrow> blyt_handle_kind h = BLYT_HANDLE_KIND_RESOURCE"

section \<open>Surface and lock-view handles\<close>

definition BLYT_DYN_ENCODE :: "u32 \<Rightarrow> u32 \<Rightarrow> u32 \<Rightarrow> u32" where
  "BLYT_DYN_ENCODE kind gen index =
     push_bit 29 kind OR push_bit 12 (gen AND 0x0001FFFF) OR (index AND 0x00000FFF)"

definition blyt_surface_encode :: "u32 \<Rightarrow> u32 \<Rightarrow> u32" where
  "blyt_surface_encode gen index = BLYT_DYN_ENCODE BLYT_HANDLE_KIND_SURFACE gen index"

definition blyt_lockview_encode :: "u32 \<Rightarrow> u32 \<Rightarrow> u32" where
  "blyt_lockview_encode gen index = BLYT_DYN_ENCODE BLYT_HANDLE_KIND_LOCKVIEW gen index"

definition blyt_dyn_decode_index :: "u32 \<Rightarrow> u32" where
  "blyt_dyn_decode_index h = h AND 0x00000FFF"

definition blyt_dyn_decode_gen :: "u32 \<Rightarrow> u32" where
  "blyt_dyn_decode_gen h = drop_bit 12 h AND 0x0001FFFF"

definition blyt_handle_is_surface :: "u32 \<Rightarrow> bool" where
  "blyt_handle_is_surface h \<longleftrightarrow> blyt_handle_kind h = BLYT_HANDLE_KIND_SURFACE"

definition blyt_handle_is_lockview :: "u32 \<Rightarrow> bool" where
  "blyt_handle_is_lockview h \<longleftrightarrow> blyt_handle_kind h = BLYT_HANDLE_KIND_LOCKVIEW"

definition BLYT_SCREEN :: u32 where
  "BLYT_SCREEN = BLYT_DYN_ENCODE BLYT_HANDLE_KIND_SURFACE 0 0"

section \<open>Lifecycle phases\<close>

text \<open>The phase is an \<^verbatim>\<open>int32_t\<close> the guest writes; any value other than DRAW closes the surfaces.\<close>

definition BLYT_PHASE_NONE :: u32 where "BLYT_PHASE_NONE = 0"
definition BLYT_PHASE_INIT :: u32 where "BLYT_PHASE_INIT = 1"
definition BLYT_PHASE_UPDATE :: u32 where "BLYT_PHASE_UPDATE = 2"
definition BLYT_PHASE_DRAW :: u32 where "BLYT_PHASE_DRAW = 3"

section \<open>Slot generations\<close>

definition blyt_gen_next :: "u16 \<Rightarrow> u16" where
  "blyt_gen_next gen = (if gen = 0xFFFF then 1 else ucast (ucast gen + 1 :: u32))"

section \<open>NaN canonicalisation\<close>

definition BLYT_F32_CANONICAL_NAN :: u32 where "BLYT_F32_CANONICAL_NAN = 0x7FC00000"
definition BLYT_F64_CANONICAL_NAN :: u64 where "BLYT_F64_CANONICAL_NAN = 0x7FF8000000000000"

definition blyt_canon_f32 :: "u32 \<Rightarrow> u32" where
  "blyt_canon_f32 bits =
     (if bits AND 0x7F800000 = 0x7F800000 \<and> bits AND 0x007FFFFF \<noteq> 0
      then BLYT_F32_CANONICAL_NAN else bits)"

definition blyt_canon_f64 :: "u64 \<Rightarrow> u64" where
  "blyt_canon_f64 bits =
     (if bits AND 0x7FF0000000000000 = 0x7FF0000000000000 \<and> bits AND 0x000FFFFFFFFFFFFF \<noteq> 0
      then BLYT_F64_CANONICAL_NAN else bits)"

section \<open>Decoding what was encoded\<close>

lemma handle_masks: "(0x00FFFFFF :: u32) = mask 24" "(0x00000FFF :: u32) = mask 12"
    "(0x0001FFFF :: u32) = mask 17" "(0x1 :: u32) = mask 1"
  by (simp_all add: mask_eq_exp_minus_1)

lemma resource_fields:
  fixes k p i :: u32
  defines "h \<equiv> push_bit 29 k OR push_bit 24 (p AND mask 1) OR (i AND mask 24)"
  shows "h AND mask 24 = i AND mask 24" "drop_bit 24 h AND mask 1 = p AND mask 1"
    "drop_bit 29 h = take_bit 3 k"
  unfolding h_def by (rule bit_word_eqI; auto simp: bit_simps)+

lemma dyn_fields:
  fixes k g i :: u32
  defines "h \<equiv> push_bit 29 k OR push_bit 12 (g AND mask 17) OR (i AND mask 12)"
  shows "h AND mask 12 = i AND mask 12" "drop_bit 12 h AND mask 17 = g AND mask 17"
    "drop_bit 29 h = take_bit 3 k"
  unfolding h_def by (rule bit_word_eqI; auto simp: bit_simps)+

lemma resource_encode_decode [simp]:
  "blyt_resource_decode_id (blyt_resource_encode rid prov) = rid AND 0x00FFFFFF"
  "blyt_resource_decode_provenance (blyt_resource_encode rid prov) = prov AND 0x1"
  "blyt_handle_kind (blyt_resource_encode rid prov) = BLYT_HANDLE_KIND_RESOURCE"
  using resource_fields [of BLYT_HANDLE_KIND_RESOURCE prov rid]
  unfolding blyt_resource_decode_id_def blyt_resource_encode_def handle_masks
     blyt_resource_decode_provenance_def blyt_handle_kind_def
  by (simp_all add: handle_consts)

lemma dyn_encode_decode [simp]:
  "blyt_dyn_decode_index (BLYT_DYN_ENCODE k g i) = i AND 0xFFF"
  "blyt_dyn_decode_gen (BLYT_DYN_ENCODE k g i) = g AND 0x1FFFF"
  "blyt_handle_kind (BLYT_DYN_ENCODE k g i) = take_bit 3 k"
  using dyn_fields [of k g i]
  unfolding blyt_dyn_decode_index_def BLYT_DYN_ENCODE_def handle_masks
     blyt_dyn_decode_gen_def blyt_handle_kind_def
  by (simp_all)

lemma handle_field_small:
  "rid < 0x1000000 \<Longrightarrow> rid AND 0x00FFFFFF = (rid :: u32)"
  "i < 0x1000 \<Longrightarrow> i AND 0x00000FFF = (i :: u32)"
  "g < 0x20000 \<Longrightarrow> g AND 0x0001FFFF = (g :: u32)"
  "p < 2 \<Longrightarrow> p AND 1 = (p :: u32)"
  using less_mask_eq [of p 1] unfolding handle_masks(1-3) by (simp_all add: less_mask_eq)

lemma handle_kind_0 [simp]: "blyt_handle_kind 0 = 0"
  by (simp add: blyt_handle_kind_def)

lemmas handle_is_defs =
  blyt_handle_is_resource_def blyt_handle_is_surface_def blyt_handle_is_lockview_def

text \<open>
  C33: a resource constant built from a 24-bit id and a provenance bit classifies as a
  resource and decodes to exactly that id and provenance, and it is neither the null handle
  nor a surface or lock view.
\<close>

theorem resource_constant_roundtrip:
  assumes "rid < 0x1000000" "prov < 2" "h = blyt_resource_encode rid prov"
  shows "blyt_handle_is_resource h \<and> blyt_resource_decode_id h = rid \<and>
    blyt_resource_decode_provenance h = prov \<and>
    \<not> blyt_handle_is_surface h \<and> \<not> blyt_handle_is_lockview h \<and> h \<noteq> BLYT_HANDLE_NONE"
proof -
  have k: "blyt_handle_kind h = BLYT_HANDLE_KIND_RESOURCE" by (simp add: assms)
  then have "h \<noteq> 0" by (auto simp: handle_consts)
  moreover have "blyt_resource_decode_id h = rid" "blyt_resource_decode_provenance h = prov"
    using assms by (simp_all add: handle_field_small)
  ultimately show ?thesis
    unfolding handle_is_defs k by (simp add: handle_consts)
qed

theorem resource_constant_roundtrip_witness:
  "(0x21123456 :: u32) = blyt_resource_encode 0x123456 1 \<and>
   blyt_handle_is_resource 0x21123456 \<and> blyt_resource_decode_id 0x21123456 = 0x123456"
proof -
  have e: "(0x21123456 :: u32) = blyt_resource_encode 0x123456 1"
    by (simp add: blyt_resource_encode_def handle_consts)
  show ?thesis using e resource_constant_roundtrip [OF _ _ e] by simp
qed

text \<open>
  C34: a surface handle and a lock-view token built from a 17-bit generation and a 12-bit slot
  decode to exactly that generation and slot, and a lock-view token never classifies as a
  surface, nor a surface handle as a lock view.
\<close>

theorem dyn_handle_roundtrip:
  assumes "g < 0x20000" "i < 0x1000"
  shows "blyt_handle_is_surface (blyt_surface_encode g i) \<and>
    \<not> blyt_handle_is_surface (blyt_lockview_encode g i) \<and>
    blyt_handle_is_lockview (blyt_lockview_encode g i) \<and>
    \<not> blyt_handle_is_lockview (blyt_surface_encode g i) \<and>
    (\<forall>h \<in> {blyt_surface_encode g i, blyt_lockview_encode g i}.
       blyt_dyn_decode_gen h = g \<and> blyt_dyn_decode_index h = i \<and> h \<noteq> BLYT_HANDLE_NONE)"
proof -
  have k: "blyt_handle_kind (blyt_surface_encode g i) = 2" "blyt_handle_kind (blyt_lockview_encode g i) = 3"
    by (simp_all add: blyt_surface_encode_def blyt_lockview_encode_def handle_consts)
  then have "blyt_surface_encode g i \<noteq> 0" "blyt_lockview_encode g i \<noteq> 0"
    by auto
  with k assms show ?thesis
    by (simp add: handle_is_defs handle_consts handle_field_small blyt_surface_encode_def blyt_lockview_encode_def)
qed

theorem dyn_handle_roundtrip_witness:
  "blyt_lockview_encode 5 7 = 0x60005007 \<and> blyt_handle_is_lockview (blyt_lockview_encode 5 7)"
  using dyn_handle_roundtrip [of 5 7]
  by (simp add: blyt_lockview_encode_def BLYT_DYN_ENCODE_def handle_consts)

lemma BLYT_SCREEN_handle: "BLYT_SCREEN = blyt_surface_encode 0 0" "BLYT_SCREEN = 0x40000000"
  by (simp_all add: BLYT_SCREEN_def blyt_surface_encode_def BLYT_DYN_ENCODE_def handle_consts)

section \<open>The generation cycle\<close>

lemma ucast_suc_u16: "(ucast (ucast g + 1 :: u32) :: u16) = g + 1"
proof -
  have "unat g < 65536" by (rule unat_u16_lt)
  then show ?thesis
    by (simp add: unsigned_ucast_eq word_unat_eq_iff unat_word_ariths unsigned_of_nat take_bit_eq_mod)
qed

lemma unat_gen_next: "g \<noteq> 0 \<Longrightarrow> unat (blyt_gen_next g) = unat g mod 65535 + 1"
proof (cases "g = 0xFFFF")
  case False
  then have "unat g \<noteq> 65535" by (simp add: word_unat_eq_iff)
  moreover have "unat g < 65536" by (rule unat_u16_lt)
  ultimately have "unat g < 65535" by linarith
  then have "unat (g + 1) = unat g + 1" by (simp add: unat_word_ariths)
  with False \<open>unat g < 65535\<close> show ?thesis by (simp add: blyt_gen_next_def ucast_suc_u16)
qed (simp add: blyt_gen_next_def)

lemma gen_next_nonzero [simp]: "g \<noteq> 0 \<Longrightarrow> blyt_gen_next g \<noteq> 0"
  using unat_gen_next [of g] by fastforce

lemma gen_next_pow_nonzero: "g \<noteq> 0 \<Longrightarrow> (blyt_gen_next ^^ k) g \<noteq> 0"
  by (induction k) auto

lemma unat_gen_next_pow:
  "g \<noteq> 0 \<Longrightarrow> unat ((blyt_gen_next ^^ k) g) = (unat g - 1 + k) mod 65535 + 1"
proof (induction k)
  case 0
  have "0 < unat g" using 0 by (simp add: unat_gt_0)
  moreover have "unat g < 65536" by (rule unat_u16_lt)
  ultimately show ?case by simp
next
  case (Suc k)
  then show ?case by (simp add: unat_gen_next gen_next_pow_nonzero mod_Suc_eq)
qed

lemma gen_next_pow_eq_iff:
  assumes "g \<noteq> 0"
  shows "(blyt_gen_next ^^ k) g = g \<longleftrightarrow> 65535 dvd k"
proof -
  let ?m = "unat g - 1"
  have "0 < unat g" using assms by (simp add: unat_gt_0)
  moreover have "unat g < 65536" by (rule unat_u16_lt)
  ultimately have m: "?m < 65535" "unat g = ?m + 1" by linarith+
  have "(blyt_gen_next ^^ k) g = g \<longleftrightarrow> (?m + k) mod 65535 = ?m"
    using unat_gen_next_pow [OF assms, of k] m(2) unfolding word_unat_eq_iff by linarith
  also have "\<dots> \<longleftrightarrow> (?m + k) mod 65535 = ?m mod 65535" using m(1) by simp
  also have "\<dots> \<longleftrightarrow> 65535 dvd k"
    by (subst mod_eq_dvd_iff_nat) simp_all
  finally show ?thesis .
qed

text \<open>
  C32: starting from any valid generation, the counter never produces the reserved value 0 and
  returns to its starting value exactly after multiples of 65535 frees.
\<close>

theorem gen_next_period:
  assumes "g \<noteq> 0"
  shows "(blyt_gen_next ^^ k) g \<noteq> 0 \<and> ((blyt_gen_next ^^ k) g = g \<longleftrightarrow> 65535 dvd k)"
  using assms by (simp add: gen_next_pow_nonzero gen_next_pow_eq_iff)

theorem gen_next_period_witness:
  "(blyt_gen_next ^^ Suc 0) 0xFFFF = 1 \<and> (blyt_gen_next ^^ Suc 0) 0xFFFF \<noteq> 0xFFFF"
  using gen_next_period [of "0xFFFF" "Suc 0"] by (simp add: blyt_gen_next_def)

section \<open>The NaN normal form\<close>

text \<open>An IEEE value is a NaN iff its exponent field is all ones and its fraction is not zero.\<close>

definition f32_is_nan :: "u32 \<Rightarrow> bool" where
  "f32_is_nan b \<longleftrightarrow> take_bit 8 (drop_bit 23 b) = 255 \<and> take_bit 23 b \<noteq> 0"

definition f64_is_nan :: "u64 \<Rightarrow> bool" where
  "f64_is_nan b \<longleftrightarrow> take_bit 11 (drop_bit 52 b) = 2047 \<and> take_bit 52 b \<noteq> 0"

lemma field_all_ones_iff:
  fixes b :: "'a::len word"
  assumes that: "k + n \<le> LENGTH('a)"
  shows "take_bit n (drop_bit k b) = mask n \<longleftrightarrow> b AND push_bit k (mask n) = push_bit k (mask n)"
proof -
  have "take_bit n (drop_bit k b) = mask n \<longleftrightarrow> (\<forall>i < n. bit b (k + i))"
    using that by (auto simp: bit_eq_iff bit_simps) (metis add_leD2 order_less_le_trans)
  also have "\<dots> \<longleftrightarrow> b AND push_bit k (mask n) = push_bit k (mask n)" (is "?l \<longleftrightarrow> ?r")
  proof
    show "?l \<Longrightarrow> ?r"
      by (rule bit_word_eqI) (auto simp: bit_simps dest!: spec [of _ "_ - k"])
    show "?l" if r: ?r
    proof (intro allI impI)
      fix i assume "i < n"
      with that have "bit (push_bit k (mask n) :: 'a word) (k + i)" using assms by (simp add: bit_simps)
      then show "bit b (k + i)" by (subst (asm) r [symmetric]) (simp add: bit_and_iff)
    qed
  qed
  finally show ?thesis .
qed

lemma f32_nan_masks: "f32_is_nan b \<longleftrightarrow> b AND 0x7F800000 = 0x7F800000 \<and> b AND 0x007FFFFF \<noteq> 0"
proof -
  have m: "(0x7F800000 :: u32) = push_bit 23 (mask 8)" "(0x007FFFFF :: u32) = mask 23" "(255 :: u32) = mask 8"
    by (simp_all add: mask_eq_exp_minus_1)
  have l: "23 + 8 \<le> LENGTH(32)" by simp
  show ?thesis
    unfolding f32_is_nan_def m field_all_ones_iff [where ?b = b, OF l] unfolding take_bit_eq_mask ..
qed

lemma f64_nan_masks:
  "f64_is_nan b \<longleftrightarrow> b AND 0x7FF0000000000000 = 0x7FF0000000000000 \<and> b AND 0x000FFFFFFFFFFFFF \<noteq> 0"
proof -
  have m: "(0x7FF0000000000000 :: u64) = push_bit 52 (mask 11)" "(0x000FFFFFFFFFFFFF :: u64) = mask 52"
    "(2047 :: u64) = mask 11"
    by (simp_all add: mask_eq_exp_minus_1)
  have l: "52 + 11 \<le> LENGTH(64)" by simp
  show ?thesis
    unfolding f64_is_nan_def m field_all_ones_iff [where ?b = b, OF l] unfolding take_bit_eq_mask ..
qed

lemma canon_f32_idem [simp]: "blyt_canon_f32 (blyt_canon_f32 b) = blyt_canon_f32 b"
  by (simp add: blyt_canon_f32_def BLYT_F32_CANONICAL_NAN_def)
lemma canon_f64_idem [simp]: "blyt_canon_f64 (blyt_canon_f64 b) = blyt_canon_f64 b"
  by (simp add: blyt_canon_f64_def BLYT_F64_CANONICAL_NAN_def)


end
