(* ===== verification/Mem_Budget.thy ===== *)
theory Mem_Budget
  imports Blyt_Prelude
begin

text \<open>
  The unified 16 MiB working-memory budget (\<^verbatim>\<open>runtime/shared/blyt_mem_budget.h\<close>): the shared
  accounting block and the three predicates every allocation site evaluates.  The sums are
  taken in 64 bits as in the source; the lemmas read them as natural numbers, so that the
  clients of the budget never reason about wrap-around again.
\<close>

definition BLYT_MEM_BUDGET_BYTES :: u32 where
  "BLYT_MEM_BUDGET_BYTES = 16 * 1024 * 1024"

record blyt_mem_accounting =
  guest_heap_used :: u32
  non_evictable_footprint :: u32
  resource_cache_used :: u32
  guest_heap_baseline :: u32

definition blyt_mem_cart_heap :: "blyt_mem_accounting \<Rightarrow> u32" where
  "blyt_mem_cart_heap a =
     (if guest_heap_used a > guest_heap_baseline a then guest_heap_used a - guest_heap_baseline a else 0)"

definition blyt_mem_alloc_fits :: "u32 \<Rightarrow> u32 \<Rightarrow> u32 \<Rightarrow> bool" where
  "blyt_mem_alloc_fits heap_used footprint incoming \<longleftrightarrow>
     (ucast heap_used :: u64) + ucast footprint + ucast incoming \<le> ucast BLYT_MEM_BUDGET_BYTES"

definition blyt_mem_cache_room :: "u32 \<Rightarrow> u32 \<Rightarrow> u32" where
  "blyt_mem_cache_room heap_used footprint =
     (let used = (ucast heap_used :: u64) + ucast footprint
      in if used \<ge> ucast BLYT_MEM_BUDGET_BYTES then 0
         else ucast (ucast BLYT_MEM_BUDGET_BYTES - used))"

abbreviation budget :: nat where "budget \<equiv> 16777216"

lemma unat_budget [simp]: "unat BLYT_MEM_BUDGET_BYTES = budget"
  by (simp add: BLYT_MEM_BUDGET_BYTES_def)

lemma unat_ucast_u64 [simp]: "unat (ucast (x :: u32) :: u64) = unat x"
  by (simp add: unsigned_ucast_eq take_bit_nat_eq_self unat_u32_lt [THEN order_less_le_trans])

lemma unat_u64_sum2 [word_arith]: "unat (ucast (a :: u32) + ucast (b :: u32) :: u64) = unat a + unat b"
  using unat_u32_lt [of a] unat_u32_lt [of b] by (subst unat_add_small) simp_all

lemma unat_u64_sum3 [word_arith]:
  "unat (ucast (a :: u32) + ucast (b :: u32) + ucast (c :: u32) :: u64) = unat a + unat b + unat c"
  using unat_u32_lt [of a] unat_u32_lt [of b] unat_u32_lt [of c]
  by (subst unat_add_small) (simp_all add: unat_u64_sum2)

lemma alloc_fits_nat: "blyt_mem_alloc_fits h f i \<longleftrightarrow> unat h + unat f + unat i \<le> budget"
  by (simp add: blyt_mem_alloc_fits_def word_le_nat_alt unat_u64_sum3)

lemma cart_heap_nat: "unat (blyt_mem_cart_heap a) = unat (guest_heap_used a) - unat (guest_heap_baseline a)"
  by (auto simp: blyt_mem_cart_heap_def unat_sub_small word_less_nat_alt word_le_nat_alt)

lemma cache_room_nat: "unat (blyt_mem_cache_room h f) = budget - (unat h + unat f)"
proof (cases "budget \<le> unat h + unat f")
  case True
  then show ?thesis by (simp add: blyt_mem_cache_room_def word_le_nat_alt unat_u64_sum2)
next
  case False
  let ?d = "ucast BLYT_MEM_BUDGET_BYTES - (ucast h + ucast f) :: u64"
  have "unat ?d = budget - (unat h + unat f)"
    using False by (subst unat_sub_small) (simp_all add: word_le_nat_alt unat_u64_sum2)
  moreover from this have "unat ?d < 4294967296" by linarith
  ultimately show ?thesis using False
    by (simp add: blyt_mem_cache_room_def Let_def word_le_nat_alt unat_u64_sum2 unsigned_ucast_eq
        take_bit_nat_eq_self)
qed


end
