(* ===== verification/Arena.thy ===== *)
theory Arena
  imports Mem_Budget
begin

text \<open>
  The cart-heap arena allocator (\<^verbatim>\<open>runtime/shared/blyt_arena.c\<close>, \<^verbatim>\<open>blyt_arena.h\<close>) and the guest
  \<^verbatim>\<open>malloc\<close> family over it (\<^verbatim>\<open>guest/src/libblytc/blytc_arena.c\<close>).

  The region is a byte memory addressed by offset from \<^verbatim>\<open>base\<close>; a block header is read from and
  written to its 16 bytes there, so that a header and user data that overlapped would be seen
  by the model.  Pointers are offsets from \<^verbatim>\<open>base\<close> (\<open>None\<close> is \<^verbatim>\<open>NULL\<close>), \<^verbatim>\<open>size_t\<close> is 32 bits wide
  as on the rv32 and wasm32 legs.  The free-list loops are partial functions: their result is
  \<open>None\<close> when they do not return.
\<close>

section \<open>State\<close>

record blk_hdr =
  bsize :: u32
  bfree :: u32
  bnext :: u32
  bpad :: u32

record blyt_arena =
  base :: bool
  asize :: u32
  bump :: u32
  free_head :: u32
  ready :: bool
  acct :: "blyt_mem_accounting option"
  amem :: mem

definition BLYT_ARENA_NONE :: u32 where "BLYT_ARENA_NONE = 0xffffffff"
definition BLYT_ARENA_ALIGN :: u32 where "BLYT_ARENA_ALIGN = 16"
definition HDR_SIZE :: u32 where "HDR_SIZE = 16"
definition BLK_NOACCT :: u32 where "BLK_NOACCT = 1"

definition hdr_at :: "mem \<Rightarrow> nat \<Rightarrow> blk_hdr" where
  "hdr_at m off =
     \<lparr>bsize = le_of (mem_read m off 4), bfree = le_of (mem_read m (off + 4) 4),
      bnext = le_of (mem_read m (off + 8) 4), bpad = le_of (mem_read m (off + 12) 4)\<rparr>"

definition hdr_put :: "nat \<Rightarrow> blk_hdr \<Rightarrow> mem \<Rightarrow> mem" where
  "hdr_put off h m =
     mem_write m off (le_bytes 4 (bsize h) @ le_bytes 4 (bfree h) @ le_bytes 4 (bnext h) @ le_bytes 4 (bpad h))"

definition hdr_upd :: "u32 \<Rightarrow> (blk_hdr \<Rightarrow> blk_hdr) \<Rightarrow> blyt_arena \<Rightarrow> blyt_arena" where
  "hdr_upd off f a = a\<lparr>amem := hdr_put (unat off) (f (hdr_at (amem a) (unat off))) (amem a)\<rparr>"

text \<open>The word a free-list link lives in: \<^verbatim>\<open>&a->free_head\<close> or \<^verbatim>\<open>&hdr->next\<close>.\<close>

datatype link = Head | Next u32

fun get_link :: "blyt_arena \<Rightarrow> link \<Rightarrow> u32" where
  "get_link a Head = free_head a"
| "get_link a (Next off) = bnext (hdr_at (amem a) (unat off))"

fun put_link :: "link \<Rightarrow> u32 \<Rightarrow> blyt_arena \<Rightarrow> blyt_arena" where
  "put_link Head v a = a\<lparr>free_head := v\<rparr>"
| "put_link (Next off) v a = hdr_upd off (bnext_update (\<lambda>_. v)) a"

section \<open>Operations\<close>

definition align_up :: "u32 \<Rightarrow> u32 \<Rightarrow> u32" where
  "align_up n al = (n + al - 1) AND NOT (al - 1)"

definition cap_allows :: "blyt_arena \<Rightarrow> u32 \<Rightarrow> bool" where
  "cap_allows a consumed = (case acct a of None \<Rightarrow> True
     | Some c \<Rightarrow> blyt_mem_alloc_fits (blyt_mem_cart_heap c) (non_evictable_footprint c) consumed)"

definition acct_add :: "blyt_arena \<Rightarrow> u32 \<Rightarrow> blyt_arena" where
  "acct_add a n = a\<lparr>acct := map_option (\<lambda>c. c\<lparr>guest_heap_used := guest_heap_used c + n\<rparr>) (acct a)\<rparr>"

definition acct_sub :: "blyt_arena \<Rightarrow> u32 \<Rightarrow> blyt_arena" where
  "acct_sub a n = a\<lparr>acct := map_option (\<lambda>c. c\<lparr>guest_heap_used := guest_heap_used c - n\<rparr>) (acct a)\<rparr>"

partial_function (option) fl_remove_from :: "blyt_arena \<Rightarrow> u32 \<Rightarrow> link \<Rightarrow> (blyt_arena \<times> bool) option" where
  "fl_remove_from a target prev =
     (if get_link a prev = BLYT_ARENA_NONE then Some (a, False)
      else if get_link a prev = target then
        (let a1 = put_link prev (bnext (hdr_at (amem a) (unat target))) a;
             a2 = hdr_upd target (bfree_update (\<lambda>_. 0)) a1;
             a3 = hdr_upd target (bnext_update (\<lambda>_. BLYT_ARENA_NONE)) a2
         in Some (a3, True))
      else fl_remove_from a target (Next (get_link a prev)))"

definition fl_remove :: "blyt_arena \<Rightarrow> u32 \<Rightarrow> (blyt_arena \<times> bool) option" where
  "fl_remove a target = fl_remove_from a target Head"

definition coalesce_forward :: "blyt_arena \<Rightarrow> u32 \<Rightarrow> blyt_arena option" where
  "coalesce_forward a h =
     (let next_off = h + bsize (hdr_at (amem a) (unat h))
      in if next_off \<ge> bump a then Some a
         else if bfree (hdr_at (amem a) (unat next_off)) = 0 then Some a
         else case fl_remove a next_off of
           None \<Rightarrow> None
         | Some (a1, _) \<Rightarrow>
             Some (hdr_upd h (\<lambda>b. b\<lparr>bsize := bsize b + bsize (hdr_at (amem a1) (unat next_off))\<rparr>) a1))"

definition ensure_ready :: "blyt_arena \<Rightarrow> blyt_arena" where
  "ensure_ready a = (if ready a then a
     else a\<lparr>bump := 0, free_head := BLYT_ARENA_NONE, ready := True\<rparr>)"

text \<open>The first-fit walk: the link whose target is the first free block of at least \<open>need\<close> bytes.\<close>

partial_function (option) first_fit :: "blyt_arena \<Rightarrow> u32 \<Rightarrow> link \<Rightarrow> link option option" where
  "first_fit a need prev =
     (if get_link a prev = BLYT_ARENA_NONE then Some None
      else if bsize (hdr_at (amem a) (unat (get_link a prev))) \<ge> need then Some (Some prev)
      else first_fit a need (Next (get_link a prev)))"

text \<open>The body of the loop once a block has been found at the target of \<open>prev\<close>.\<close>

definition take_free_block :: "blyt_arena \<Rightarrow> u32 \<Rightarrow> bool \<Rightarrow> link \<Rightarrow> blyt_arena \<times> u32 option" where
  "take_free_block a need noacct prev =
     (let coff = get_link a prev;
          h = hdr_at (amem a) (unat coff);
          rem = bsize h - need;
          split = (rem \<ge> HDR_SIZE + BLYT_ARENA_ALIGN);
          consumed = (if split then need else bsize h)
      in if \<not> noacct \<and> \<not> cap_allows a consumed then (a, None)
         else
           let a1 = (if split then
                       let t = hdr_upd (coff + need)
                                 (\<lambda>_. \<lparr>bsize = rem, bfree = 1, bnext = bnext h, bpad = 0\<rparr>) a;
                           t2 = put_link prev (coff + need) t
                       in hdr_upd coff (bsize_update (\<lambda>_. need)) t2
                     else put_link prev (bnext h) a);
               a2 = hdr_upd coff (\<lambda>b. b\<lparr>bfree := 0, bnext := BLYT_ARENA_NONE,
                                         bpad := (if noacct then BLK_NOACCT else 0)\<rparr>) a1;
               a3 = (if noacct then a2 else acct_add a2 (bsize (hdr_at (amem a2) (unat coff))))
           in (a3, Some (coff + HDR_SIZE)))"

definition bump_block :: "blyt_arena \<Rightarrow> u32 \<Rightarrow> bool \<Rightarrow> blyt_arena \<times> u32 option" where
  "bump_block a need noacct =
     (if (ucast (bump a) :: u64) + ucast need > ucast (asize a) then (a, None)
      else if \<not> noacct \<and> \<not> cap_allows a need then (a, None)
      else
        let h = bump a;
            a1 = hdr_upd h (\<lambda>_. \<lparr>bsize = need, bfree = 0, bnext = BLYT_ARENA_NONE,
                                 bpad = (if noacct then BLK_NOACCT else 0)\<rparr>) a;
            a2 = a1\<lparr>bump := bump a1 + need\<rparr>;
            a3 = (if noacct then a2 else acct_add a2 need)
        in (a3, Some (h + HDR_SIZE)))"

definition arena_malloc_core :: "blyt_arena \<Rightarrow> u32 \<Rightarrow> bool \<Rightarrow> (blyt_arena \<times> u32 option) option" where
  "arena_malloc_core a n0 noacct =
     (if \<not> base a \<or> asize a = 0 then Some (a, None)
      else
        let a = ensure_ready a;
            n = (if n0 = 0 then 1 else n0);
            need = align_up (n + HDR_SIZE) BLYT_ARENA_ALIGN
        in case first_fit a need Head of
             None \<Rightarrow> None
           | Some (Some prev) \<Rightarrow> Some (take_free_block a need noacct prev)
           | Some None \<Rightarrow> Some (bump_block a need noacct))"

definition blyt_arena_malloc :: "blyt_arena \<Rightarrow> u32 \<Rightarrow> (blyt_arena \<times> u32 option) option" where
  "blyt_arena_malloc a n = arena_malloc_core a n False"

definition blyt_arena_malloc_noacct :: "blyt_arena \<Rightarrow> u32 \<Rightarrow> (blyt_arena \<times> u32 option) option" where
  "blyt_arena_malloc_noacct a n = arena_malloc_core a n True"

definition blyt_arena_free :: "blyt_arena \<Rightarrow> u32 option \<Rightarrow> blyt_arena option" where
  "blyt_arena_free a p = (case p of None \<Rightarrow> Some a
     | Some q \<Rightarrow>
         let h = q - HDR_SIZE; b = hdr_at (amem a) (unat h)
         in if bfree b \<noteq> 0 then Some a
            else
              let a1 = (if bpad b \<noteq> BLK_NOACCT then acct_sub a (bsize b) else a);
                  a2 = hdr_upd h (\<lambda>b. b\<lparr>bfree := 1, bnext := free_head a1\<rparr>) a1;
                  a3 = a2\<lparr>free_head := h\<rparr>
              in coalesce_forward a3 h)"

definition arena_realloc_core ::
    "blyt_arena \<Rightarrow> u32 option \<Rightarrow> u32 \<Rightarrow> bool \<Rightarrow> (blyt_arena \<times> u32 option) option" where
  "arena_realloc_core a p n noacct = (case p of None \<Rightarrow> arena_malloc_core a n noacct
     | Some q \<Rightarrow>
         if n = 0 then map_option (\<lambda>a'. (a', None)) (blyt_arena_free a p)
         else
           let cap = bsize (hdr_at (amem a) (unat (q - HDR_SIZE))) - HDR_SIZE
           in if n \<le> cap then Some (a, p)
              else case arena_malloc_core a n noacct of
                None \<Rightarrow> None
              | Some (a1, None) \<Rightarrow> Some (a1, None)
              | Some (a1, Some r) \<Rightarrow>
                  let a2 = a1\<lparr>amem := mem_write (amem a1) (unat r) (mem_read (amem a1) (unat q) (unat cap))\<rparr>
                  in map_option (\<lambda>a3. (a3, Some r)) (blyt_arena_free a2 p))"

definition blyt_arena_realloc :: "blyt_arena \<Rightarrow> u32 option \<Rightarrow> u32 \<Rightarrow> (blyt_arena \<times> u32 option) option" where
  "blyt_arena_realloc a p n = arena_realloc_core a p n False"

definition blyt_arena_realloc_noacct ::
    "blyt_arena \<Rightarrow> u32 option \<Rightarrow> u32 \<Rightarrow> (blyt_arena \<times> u32 option) option" where
  "blyt_arena_realloc_noacct a p n = arena_realloc_core a p n True"

definition blyt_arena_calloc :: "blyt_arena \<Rightarrow> u32 \<Rightarrow> u32 \<Rightarrow> (blyt_arena \<times> u32 option) option" where
  "blyt_arena_calloc a nmemb sz =
     (if sz \<noteq> 0 \<and> nmemb > (- 1) div sz then Some (a, None)
      else
        let total = nmemb * sz
        in case blyt_arena_malloc a total of
             Some (a1, Some p) \<Rightarrow>
               Some (a1\<lparr>amem := mem_write (amem a1) (unat p) (replicate (unat total) 0)\<rparr>, Some p)
           | r \<Rightarrow> r)"

definition blyt_arena_reset :: "blyt_arena \<Rightarrow> blyt_arena" where
  "blyt_arena_reset a =
     a\<lparr>bump := 0, free_head := BLYT_ARENA_NONE, ready := False,
       acct := map_option (\<lambda>c. c\<lparr>guest_heap_used := 0\<rparr>) (acct a)\<rparr>"

declare fl_remove_from.simps [code] first_fit.simps [code]

lemmas arena_consts = BLYT_ARENA_NONE_def BLYT_ARENA_ALIGN_def HDR_SIZE_def BLK_NOACCT_def

section \<open>Headers in memory\<close>

lemma hdr_at_put_same [simp]: "hdr_at (hdr_put off h m) off = h"
proof -
  let ?bs = "le_bytes 4 (bsize h) @ le_bytes 4 (bfree h) @ le_bytes 4 (bnext h) @ le_bytes 4 (bpad h)"
  have "mem_read (mem_write m off ?bs) (off + i) 4 = slice i 4 ?bs" if "i + 4 \<le> 16" for i
    using slice_mem_read [of i 4 16 "mem_write m off ?bs" off] that by simp
  from this [of 0] this [of 4] this [of 8] this [of 12] show ?thesis
    by (simp add: hdr_at_def hdr_put_def slice_def)
qed

definition sep :: "nat \<Rightarrow> nat \<Rightarrow> bool" where
  "sep x y \<longleftrightarrow> x = y \<or> x + 16 \<le> y \<or> y + 16 \<le> x"

lemma hdr_at_write_other: "x + 16 \<le> i \<or> i + length bs \<le> x \<Longrightarrow> hdr_at (mem_write m i bs) x = hdr_at m x"
  by (auto simp: hdr_at_def mem_read_write_other)

lemma hdr_at_put: "sep off x \<Longrightarrow> hdr_at (hdr_put off h m) x = ((hdr_at m) (off := h)) x"
  by (cases "off = x") (auto simp: sep_def hdr_put_def [of off h m] hdr_at_write_other)

lemma hdr_put_out: "i < off \<or> off + 16 \<le> i \<Longrightarrow> hdr_put off h m i = m i"
  unfolding hdr_put_def by (rule mem_write_out) auto

lemma hdr_at_upd:
  "sep (unat off) x \<Longrightarrow>
   hdr_at (amem (hdr_upd off f a)) x = ((hdr_at (amem a)) (unat off := f (hdr_at (amem a) (unat off)))) x"
  unfolding hdr_upd_def by (simp add: hdr_at_put)

lemma hdr_upd_fields [simp]:
  "base (hdr_upd off f a) = base a" "asize (hdr_upd off f a) = asize a" "bump (hdr_upd off f a) = bump a"
  "free_head (hdr_upd off f a) = free_head a" "ready (hdr_upd off f a) = ready a"
  "acct (hdr_upd off f a) = acct a"
  by (simp_all add: hdr_upd_def)

lemma put_link_fields [simp]:
  "base (put_link l v a) = base a" "asize (put_link l v a) = asize a" "bump (put_link l v a) = bump a"
  "ready (put_link l v a) = ready a" "acct (put_link l v a) = acct a"
  by (cases l; simp)+

lemma acct_fields [simp]:
  "base (acct_add a n) = base a" "asize (acct_add a n) = asize a" "bump (acct_add a n) = bump a"
  "free_head (acct_add a n) = free_head a" "ready (acct_add a n) = ready a" "amem (acct_add a n) = amem a"
  "base (acct_sub a n) = base a" "asize (acct_sub a n) = asize a" "bump (acct_sub a n) = bump a"
  "free_head (acct_sub a n) = free_head a" "ready (acct_sub a n) = ready a" "amem (acct_sub a n) = amem a"
  by (simp_all add: acct_add_def acct_sub_def)

section \<open>Block sizes\<close>

abbreviation max_request :: u32 where "max_request \<equiv> 0xFFFFFFE0"

definition block_need :: "u32 \<Rightarrow> u32" where
  "block_need n = align_up ((if n = 0 then 1 else n) + HDR_SIZE) BLYT_ARENA_ALIGN"

lemma block_need_nat:
  assumes "n \<le> max_request"
  shows "unat (block_need n) = (max 1 (unat n) + 31) div 16 * 16"
proof -
  let ?n = "if n = 0 then 1 else n"
  have n: "unat ?n = max 1 (unat n)" using unat_gt_0 [of n] by (auto simp: max_def)
  have "unat n \<le> 4294967264" using assms by (simp add: word_le_nat_alt)
  then have "unat (?n + 31) = unat ?n + 31" using n by (subst unat_add_small) (auto simp: max_def)
  moreover have "?n + HDR_SIZE + BLYT_ARENA_ALIGN - 1 = ?n + 31" "BLYT_ARENA_ALIGN - 1 = mask 4"
    by (simp_all add: arena_consts mask_eq_exp_minus_1)
  ultimately show ?thesis unfolding block_need_def align_up_def by (simp only: and_not_mask_unat n) simp
qed

lemma block_need_bounds:
  assumes "n \<le> max_request"
  shows "32 \<le> unat (block_need n)" "16 dvd unat (block_need n)" "unat n + 16 \<le> unat (block_need n)"
    "unat (block_need n) \<le> max 1 (unat n) + 31"
  unfolding block_need_nat [OF assms] by (auto simp: max_def)

section \<open>The heap structure\<close>

text \<open>
  \<open>chain hs lo offs hi\<close>: the blocks at \<open>offs\<close> tile the region from \<open>lo\<close> to \<open>hi\<close>.
  \<open>flseg hs h xs t\<close>: following the \<^verbatim>\<open>next\<close> links from \<open>h\<close> visits \<open>xs\<close> and arrives at \<open>t\<close>.
\<close>

abbreviation bsz :: "(nat \<Rightarrow> blk_hdr) \<Rightarrow> nat \<Rightarrow> nat" where "bsz hs x \<equiv> unat (bsize (hs x))"

primrec chain :: "(nat \<Rightarrow> blk_hdr) \<Rightarrow> nat \<Rightarrow> nat list \<Rightarrow> nat \<Rightarrow> bool" where
  "chain hs lo [] hi \<longleftrightarrow> lo = hi"
| "chain hs lo (x # xs) hi \<longleftrightarrow> x = lo \<and> 32 \<le> bsz hs x \<and> 16 dvd bsz hs x \<and> chain hs (lo + bsz hs x) xs hi"

primrec flseg :: "(nat \<Rightarrow> blk_hdr) \<Rightarrow> u32 \<Rightarrow> u32 list \<Rightarrow> u32 \<Rightarrow> bool" where
  "flseg hs h [] t \<longleftrightarrow> h = t"
| "flseg hs h (x # xs) t \<longleftrightarrow> h = x \<and> flseg hs (bnext (hs (unat x))) xs t"

lemma chain_append: "chain hs lo (xs @ ys) hi \<longleftrightarrow> (\<exists>mid. chain hs lo xs mid \<and> chain hs mid ys hi)"
  by (induction xs arbitrary: lo) auto

lemma chain_le: "chain hs lo offs hi \<Longrightarrow> lo \<le> hi"
  by (induction offs arbitrary: lo) (auto intro: add_leD1)

lemma chain_bounds: "chain hs lo offs hi \<Longrightarrow> x \<in> set offs \<Longrightarrow> lo \<le> x \<and> 32 \<le> bsz hs x \<and> x + bsz hs x \<le> hi"
  by (induction offs arbitrary: lo) (auto dest: chain_le intro: add_leD1)

lemma chain_aligned: "chain hs lo offs hi \<Longrightarrow> 16 dvd lo \<Longrightarrow> x \<in> set offs \<Longrightarrow> 16 dvd x \<and> 16 dvd bsz hs x"
  by (induction offs arbitrary: lo) auto

lemma chain_aligned_hi: "chain hs lo offs hi \<Longrightarrow> 16 dvd lo \<Longrightarrow> 16 dvd hi"
  by (induction offs arbitrary: lo) auto

lemma chain_disjoint:
  "chain hs lo offs hi \<Longrightarrow> x \<in> set offs \<Longrightarrow> y \<in> set offs \<Longrightarrow> x \<noteq> y \<Longrightarrow>
   x + bsz hs x \<le> y \<or> y + bsz hs y \<le> x"
  by (induction offs arbitrary: lo) (auto dest: chain_bounds)

lemma chain_sep: "chain hs lo offs hi \<Longrightarrow> x \<in> set offs \<Longrightarrow> y \<in> set offs \<Longrightarrow> sep x y"
  using chain_disjoint [of hs lo offs hi x y] chain_bounds [of hs lo offs hi x]
    chain_bounds [of hs lo offs hi y] unfolding sep_def by fastforce

lemma chain_distinct: "chain hs lo offs hi \<Longrightarrow> distinct offs"
  by (induction offs arbitrary: lo) (auto dest: chain_bounds)

lemma chain_cong:
  "(\<And>x. x \<in> set offs \<Longrightarrow> bsize (hs' x) = bsize (hs x)) \<Longrightarrow> chain hs' lo offs hi = chain hs lo offs hi"
  by (induction offs arbitrary: lo) auto

lemma flseg_append: "flseg hs h (xs @ ys) t \<longleftrightarrow> (\<exists>v. flseg hs h xs v \<and> flseg hs v ys t)"
  by (induction xs arbitrary: h) auto

lemma flseg_cong:
  "(\<And>x. x \<in> set xs \<Longrightarrow> bnext (hs' (unat x)) = bnext (hs (unat x))) \<Longrightarrow> flseg hs' h xs t = flseg hs h xs t"
  by (induction xs arbitrary: h) auto

definition link_after :: "u32 list \<Rightarrow> link" where
  "link_after xs = (if xs = [] then Head else Next (last xs))"

definition relink :: "u32 list \<Rightarrow> u32 \<Rightarrow> (nat \<Rightarrow> blk_hdr) \<Rightarrow> nat \<Rightarrow> blk_hdr" where
  "relink xs v hs = (if xs = [] then hs else
     hs (unat (last xs) := (hs (unat (last xs)))\<lparr>bnext := v\<rparr>))"

lemma relink_other_fields [simp]:
  "bsize (relink xs v hs x) = bsize (hs x)" "bfree (relink xs v hs x) = bfree (hs x)"
  "bpad (relink xs v hs x) = bpad (hs x)"
  by (auto simp: relink_def)

lemma relink_next: "x \<noteq> unat (last xs) \<or> xs = [] \<Longrightarrow> relink xs v hs x = hs x"
  by (auto simp: relink_def)

lemma flseg_relink:
  assumes "flseg hs h xs u" "distinct xs"
  shows "flseg (relink xs v hs) (if xs = [] then v else h) xs v"
proof (cases xs rule: rev_cases)
  case (snoc ys l)
  have "flseg (relink xs v hs) h ys l"
    using assms snoc by (subst flseg_cong [of _ _ hs]) (auto simp: relink_def flseg_append unat_eq_word)
  then show ?thesis using snoc by (auto simp: flseg_append relink_def)
qed simp

lemma get_link_after: "flseg (hdr_at (amem a)) (free_head a) (xs @ ys) t \<Longrightarrow>
    \<exists>v. get_link a (link_after xs) = v \<and> flseg (hdr_at (amem a)) v ys t"
  by (cases xs rule: rev_cases) (auto simp: flseg_append link_after_def)

lemma put_link_after_head:
  "free_head (put_link (link_after xs) v a) = (if xs = [] then v else free_head a)"
  by (simp add: link_after_def)

lemma hdr_at_put_link:
  "(\<And>y. y \<in> set xs \<Longrightarrow> sep (unat y) x) \<Longrightarrow>
   hdr_at (amem (put_link (link_after xs) v a)) x = relink xs v (hdr_at (amem a)) x"
  by (auto simp: link_after_def relink_def hdr_at_upd)

definition heap_wf :: "(nat \<Rightarrow> blk_hdr) \<Rightarrow> u32 \<Rightarrow> nat \<Rightarrow> nat list \<Rightarrow> u32 list \<Rightarrow> bool" where
  "heap_wf hs fh hi offs fl \<longleftrightarrow>
     hi < 2 ^ 32 \<and> chain hs 0 offs hi \<and> flseg hs fh fl BLYT_ARENA_NONE \<and> distinct fl \<and>
     unat ` set fl = {x \<in> set offs. bfree (hs x) \<noteq> 0}"

lemma heap_wfD:
  assumes "heap_wf hs fh hi offs fl"
  shows "hi < 2 ^ 32" "chain hs 0 offs hi" "flseg hs fh fl BLYT_ARENA_NONE" "distinct fl" "distinct offs"
    "unat ` set fl = {x \<in> set offs. bfree (hs x) \<noteq> 0}"
  using assms chain_distinct by (auto simp: heap_wf_def)

lemma heap_wf_free_mem: "heap_wf hs fh hi offs fl \<Longrightarrow> c \<in> set fl \<Longrightarrow> unat c \<in> set offs \<and> bfree (hs (unat c)) \<noteq> 0"
  using heap_wfD(6) [of hs fh hi offs fl] by blast

lemma heap_wf_cong:
  assumes "heap_wf hs fh hi offs fl" "\<And>x. x \<in> set offs \<Longrightarrow> hs' x = hs x"
  shows "heap_wf hs' fh hi offs fl"
proof -
  have "chain hs' 0 offs hi" using assms by (subst chain_cong [of offs hs' hs]) (auto simp: heap_wf_def)
  moreover have "flseg hs' fh fl BLYT_ARENA_NONE"
    using assms by (subst flseg_cong [of fl hs' hs]) (auto simp: heap_wf_def dest: heap_wf_free_mem [OF assms(1)])
  ultimately show ?thesis using assms by (auto simp: heap_wf_def)
qed

lemma relink_notin: "c \<notin> set xs \<Longrightarrow> relink xs v hs (unat c) = hs (unat c)"
  by (auto simp: relink_def unat_eq_word)

lemma heap_wf_relink_rest:
  "heap_wf hs fh hi offs (xs @ ys) \<Longrightarrow> c \<in> set ys \<Longrightarrow> relink xs v hs' (unat c) = hs' (unat c)"
  by (rule relink_notin) (auto simp: heap_wf_def)

lemma chain_upd: "c \<notin> set offs \<Longrightarrow> chain (hs(c := h)) lo offs hi = chain hs lo offs hi"
  by (rule chain_cong) auto

text \<open>A block taken off the free list whole.\<close>

lemma heap_wf_unlink:
  assumes wf: "heap_wf hs fh hi offs (xs @ c # ys)"
    and h: "bsize h = bsize (hs (unat c))" "bfree h = 0"
  shows "heap_wf ((relink xs (bnext (hs (unat c))) hs)(unat c := h))
           (if xs = [] then bnext (hs (unat c)) else fh) hi offs (xs @ ys)" (is "heap_wf ?hs _ _ _ _")
proof -
  note d = heap_wfD [OF wf]
  have cn: "c \<notin> set xs" "c \<notin> set ys" using d(4) by auto
  have fl: "flseg hs fh xs c" "flseg hs (bnext (hs (unat c))) ys BLYT_ARENA_NONE"
    using d(3) by (auto simp: flseg_append)
  have "flseg ?hs (if xs = [] then bnext (hs (unat c)) else fh) xs (bnext (hs (unat c)))"
    using flseg_relink [OF fl(1)] d(4) cn
    by (subst flseg_cong [of xs _ "relink xs (bnext (hs (unat c))) hs"]) (auto simp: unat_eq_word)
  moreover have "bnext (?hs (unat x)) = bnext (hs (unat x))" if "x \<in> set ys" for x
    using that cn(2) heap_wf_relink_rest [OF wf, of x] by (auto simp: unat_eq_word)
  then have "flseg ?hs (bnext (hs (unat c))) ys BLYT_ARENA_NONE"
    using fl(2) by (subst flseg_cong [of ys _ hs]) auto
  moreover have "chain ?hs 0 offs hi" using d(2) h by (subst chain_cong [of offs _ hs]) auto
  moreover have "unat ` set (xs @ ys) = {x \<in> set offs. bfree (?hs x) \<noteq> 0}"
  proof -
    have "unat ` set (xs @ ys) = unat ` set (xs @ c # ys) - {unat c}"
      using cn by (auto simp: unat_eq_word)
    also have "\<dots> = {x \<in> set offs. x \<noteq> unat c \<and> bfree (hs x) \<noteq> 0}" unfolding d(6) by auto
    also have "\<dots> = {x \<in> set offs. bfree (?hs x) \<noteq> 0}" using h by (intro Collect_cong) simp
    finally show ?thesis .
  qed
  ultimately show ?thesis using d by (auto simp: heap_wf_def flseg_append)
qed

text \<open>A used block gives its tail back to the heap as a free block at the head of the list.\<close>

lemma heap_wf_split:
  assumes wf: "heap_wf hs fh hi (A @ unat c # B) (xs @ c # ys)"
    and need: "32 \<le> unat need" "16 dvd unat need" "unat need + 32 \<le> bsz hs (unat c)"
    and h: "bsize h = need" "bfree h = 0" and t: "t = c + need"
    and tb: "bsize tb = bsize (hs (unat c)) - need" "bfree tb \<noteq> 0" "bnext tb = bnext (hs (unat c))"
  shows "heap_wf ((relink xs t (hs(unat t := tb)))(unat c := h)) (if xs = [] then t else fh) hi
           (A @ unat c # unat t # B) (xs @ t # ys)" (is "heap_wf ?hs ?fh _ ?offs _")
    and "unat t = unat c + unat need" "unat t \<notin> set (A @ unat c # B)"
proof -
  note d = heap_wfD [OF wf]
  have cb: "unat c + bsz hs (unat c) \<le> hi" using chain_bounds [OF d(2), of "unat c"] by simp
  show ut: "unat t = unat c + unat need"
    unfolding t using cb need d(1) by (subst unat_add_small) auto
  have bt: "unat (bsize tb) = bsz hs (unat c) - unat need"
    using need tb by (simp add: unat_sub_small word_le_nat_alt)
  show tn: "unat t \<notin> set (A @ unat c # B)"
    using chain_disjoint [OF d(2), of "unat t" "unat c"] chain_bounds [OF d(2), of "unat t"] ut need by auto
  then have tfl: "t \<notin> set (xs @ c # ys)" using heap_wf_free_mem [OF wf, of t] by auto
  have cn: "c \<notin> set xs" "c \<notin> set ys" using d(4) by auto
  obtain m where m: "chain hs 0 A m" "chain hs m (unat c # B) hi" using d(2) by (auto simp: chain_append)
  have mc: "m = unat c" using m(2) by simp
  have cA: "unat c \<notin> set A" "unat c \<notin> set B" using d(5) by auto
  have "16 dvd unat (bsize tb)"
    using chain_aligned [OF d(2), of "unat c"] need(2) unfolding bt by (simp add: dvd_diff_nat)
  moreover have "chain ?hs 0 A (unat c)" "chain ?hs (unat c + bsz hs (unat c)) B hi"
    using m mc tn cA by (subst chain_cong [of _ _ hs]; auto)+
  ultimately have "chain ?hs 0 ?offs hi"
    using need bt h ut tn unfolding chain_append by (intro exI [of _ "unat c"]) auto
  moreover have fl: "flseg hs fh xs c" "flseg hs (bnext (hs (unat c))) ys BLYT_ARENA_NONE"
    using d(3) by (auto simp: flseg_append)
  have "flseg (hs(unat t := tb)) fh xs c" using fl(1) tfl
    by (subst flseg_cong [of xs _ hs]) (auto simp: unat_eq_word)
  then have "flseg ?hs ?fh xs t"
    using flseg_relink [of "hs(unat t := tb)" fh xs c t] d(4) cn
    by (subst flseg_cong [of xs _ "relink xs t (hs(unat t := tb))"]) (auto simp: unat_eq_word)
  moreover have "bnext (?hs (unat x)) = bnext (hs (unat x))" if "x \<in> set ys" for x
    using that cn(2) tfl heap_wf_relink_rest [OF wf, of x] by (auto simp: unat_eq_word)
  then have "flseg ?hs (bnext (hs (unat c))) ys BLYT_ARENA_NONE"
    using fl(2) by (subst flseg_cong [of ys _ hs]) auto
  moreover have "bnext (?hs (unat t)) = bnext (hs (unat c))"
    using tb tfl by (simp add: relink_notin unat_eq_word)
  moreover have "unat ` set (xs @ t # ys) = {x \<in> set ?offs. bfree (?hs x) \<noteq> 0}"
  proof -
    have "unat ` set (xs @ t # ys) = insert (unat t) (unat ` set (xs @ c # ys) - {unat c})"
      using cn by (auto simp: unat_eq_word)
    also have "\<dots> = insert (unat t) {x \<in> set (A @ unat c # B). x \<noteq> unat c \<and> bfree (hs x) \<noteq> 0}"
      unfolding d(6) by auto
    also have "\<dots> = {x \<in> set ?offs. bfree (?hs x) \<noteq> 0}"
    proof -
      have "bfree (?hs x) \<noteq> 0 \<longleftrightarrow> x \<noteq> unat c \<and> (x = unat t \<or> bfree (hs x) \<noteq> 0)" for x
        using h tb ut need by simp
      then show ?thesis using tn by (auto simp del: fun_upd_apply)
    qed
    finally show ?thesis .
  qed
  moreover have "distinct (xs @ t # ys)" using d(4) tfl by auto
  ultimately show "heap_wf ?hs ?fh hi ?offs (xs @ t # ys)"
    using d(1) by (auto simp: heap_wf_def flseg_append)
qed

text \<open>A fresh block at the end, a block given back, and a used block absorbed by its left neighbour.\<close>

lemma heap_wf_extend:
  assumes wf: "heap_wf hs fh hi offs fl"
    and "32 \<le> unat (bsize h)" "16 dvd unat (bsize h)" "bfree h = 0" "hi + unat (bsize h) < 2 ^ 32"
  shows "heap_wf (hs(hi := h)) fh (hi + unat (bsize h)) (offs @ [hi]) fl" "hi \<notin> set offs"
proof -
  note d = heap_wfD [OF wf]
  show hn: "hi \<notin> set offs" using chain_bounds [OF d(2), of hi] by auto
  have "chain (hs(hi := h)) 0 offs hi" using d(2) hn by (subst chain_cong [of offs _ hs]) auto
  moreover have "flseg (hs(hi := h)) fh fl BLYT_ARENA_NONE" using d(3) hn heap_wf_free_mem [OF wf]
    by (subst flseg_cong [of fl _ hs]) auto
  ultimately show "heap_wf (hs(hi := h)) fh (hi + unat (bsize h)) (offs @ [hi]) fl"
    using d assms hn by (auto simp: heap_wf_def chain_append)
qed

lemma heap_wf_push:
  assumes wf: "heap_wf hs fh hi offs fl" and "unat c \<in> set offs" "bfree (hs (unat c)) = 0"
    and "bsize h = bsize (hs (unat c))" "bfree h \<noteq> 0" "bnext h = fh"
  shows "heap_wf (hs(unat c := h)) c hi offs (c # fl)"
proof -
  note d = heap_wfD [OF wf]
  have cn: "c \<notin> set fl" using heap_wf_free_mem [OF wf, of c] assms by auto
  have "flseg (hs(unat c := h)) fh fl BLYT_ARENA_NONE" using d(3) cn
    by (subst flseg_cong [of fl _ hs]) (auto simp: unat_eq_word)
  moreover have "chain (hs(unat c := h)) 0 offs hi" using d(2) assms by (subst chain_cong [of offs _ hs]) auto
  ultimately show ?thesis using d assms cn by (auto simp: heap_wf_def)
qed

lemma heap_wf_absorb:
  assumes wf: "heap_wf hs fh hi (A @ c # n # B) fl" and "bfree (hs n) = 0"
    and h: "h = (hs c)\<lparr>bsize := bsize (hs c) + bsize (hs n)\<rparr>"
  shows "heap_wf (hs(c := h)) fh hi (A @ c # B) fl" "n = c + bsz hs c"
    "unat (bsize h) = bsz hs c + bsz hs n"
proof -
  note d = heap_wfD [OF wf]
  obtain m where m: "chain hs 0 A m" "chain hs m (c # n # B) hi" using d(2) by (auto simp: chain_append)
  have nb: "c + bsz hs c + bsz hs n \<le> hi" using m(2) chain_le by auto
  then show sz: "unat (bsize h) = bsz hs c + bsz hs n"
    using d(1) unfolding h by (simp add: unat_add_small)
  show "n = c + bsz hs c" using m(2) by simp
  have cA: "c \<notin> set A" "c \<notin> set B" using d(5) by auto
  have "chain (hs(c := h)) 0 A c" "chain (hs(c := h)) (c + bsz hs c + bsz hs n) B hi"
    using m cA by (auto simp: chain_upd)
  then have "chain (hs(c := h)) 0 (A @ c # B) hi"
    unfolding chain_append using m(2) sz by (intro exI [of _ c]) (auto simp: add.assoc)
  moreover have "flseg (hs(c := h)) fh fl BLYT_ARENA_NONE"
    using d(3) by (subst flseg_cong [of fl _ hs]) (auto simp: h)
  moreover have "unat ` set fl = {x \<in> set (A @ c # B). bfree ((hs(c := h)) x) \<noteq> 0}"
    using d(6) assms by (auto simp: h)
  ultimately show "heap_wf (hs(c := h)) fh hi (A @ c # B) fl" using d by (auto simp: heap_wf_def)
qed

section \<open>The free-list loops return\<close>

lemma first_fit_spec:
  assumes "flseg (hdr_at (amem a)) (free_head a) (xs @ ys) BLYT_ARENA_NONE" "BLYT_ARENA_NONE \<notin> set ys"
  shows "first_fit a need (link_after xs) = Some
    (if \<exists>c \<in> set ys. need \<le> bsize (hdr_at (amem a) (unat c))
     then Some (link_after (xs @ takeWhile (\<lambda>c. bsize (hdr_at (amem a) (unat c)) < need) ys)) else None)"
  using assms
proof (induction ys arbitrary: xs)
  case Nil
  then show ?case using get_link_after [of a xs "[]"] by (subst first_fit.simps) simp
next
  case (Cons c ys)
  have g: "get_link a (link_after xs) = c" using get_link_after [OF Cons.prems(1)] by simp
  have l: "Next c = link_after (xs @ [c])" by (simp add: link_after_def)
  have cn: "c \<noteq> BLYT_ARENA_NONE" using Cons.prems(2) by auto
  show ?case
  proof (cases "need \<le> bsize (hdr_at (amem a) (unat c))")
    case True
    then have "\<not> bsize (hdr_at (amem a) (unat c)) < need" by simp
    with True show ?thesis by (subst first_fit.simps) (simp add: g cn)
  next
    case False
    have "first_fit a need (link_after xs) = first_fit a need (link_after (xs @ [c]))"
      by (subst first_fit.simps) (simp add: g cn l False)
    moreover have "bsize (hdr_at (amem a) (unat c)) < need" using False by simp
    ultimately show ?thesis using Cons.prems Cons.IH [of "xs @ [c]"] False by simp
  qed
qed

lemma fl_remove_spec:
  assumes "flseg (hdr_at (amem a)) (free_head a) (xs @ zs @ c # ys) BLYT_ARENA_NONE"
    and "BLYT_ARENA_NONE \<notin> set (zs @ [c])" "c \<notin> set zs"
  shows "fl_remove_from a c (link_after xs) = Some
    (hdr_upd c (bnext_update (\<lambda>_. BLYT_ARENA_NONE)) (hdr_upd c (bfree_update (\<lambda>_. 0))
       (put_link (link_after (xs @ zs)) (bnext (hdr_at (amem a) (unat c))) a)), True)"
  using assms
proof (induction zs arbitrary: xs)
  case Nil
  then have "get_link a (link_after xs) = c" using get_link_after [of a xs "c # ys"] by simp
  then show ?case using Nil by (subst fl_remove_from.simps) simp
next
  case (Cons z zs)
  have "get_link a (link_after xs) = z" using get_link_after [of a xs "z # zs @ c # ys"] Cons.prems by simp
  moreover have "Next z = link_after (xs @ [z])" by (simp add: link_after_def)
  ultimately show ?case using Cons.prems Cons.IH [of "xs @ [z]"] by (subst fl_remove_from.simps) auto
qed

section \<open>The allocator invariant\<close>

definition live_sum :: "(nat \<Rightarrow> blk_hdr) \<Rightarrow> nat list \<Rightarrow> nat" where
  "live_sum hs offs =
     (\<Sum>x\<leftarrow>offs. if bfree (hs x) = 0 \<and> bpad (hs x) \<noteq> BLK_NOACCT then bsz hs x else 0)"

definition arena_wf :: "blyt_arena \<Rightarrow> nat list \<Rightarrow> u32 list \<Rightarrow> bool" where
  "arena_wf a offs fl \<longleftrightarrow>
     base a \<and> asize a \<noteq> 0 \<and> ready a \<and> bump a \<le> asize a \<and>
     heap_wf (hdr_at (amem a)) (free_head a) (unat (bump a)) offs fl \<and>
     (\<forall>c. acct a = Some c \<longrightarrow> unat (guest_heap_used c) = live_sum (hdr_at (amem a)) offs)"

definition arena_inv :: "blyt_arena \<Rightarrow> bool" where
  "arena_inv a \<longleftrightarrow> (\<exists>offs fl. arena_wf (ensure_ready a) offs fl)"

text \<open>The block walk and the user areas (start and capacity) of the blocks in use.\<close>

function block_offs :: "mem \<Rightarrow> nat \<Rightarrow> nat \<Rightarrow> nat list" where
  "block_offs m lo hi =
     (if lo < hi \<and> bsize (hdr_at m lo) \<noteq> 0 then lo # block_offs m (lo + unat (bsize (hdr_at m lo))) hi else [])"
  by auto
termination
proof (relation "measure (\<lambda>(m, lo, hi). hi - lo)")
  fix m lo hi
  assume "lo < hi \<and> bsize (hdr_at m lo) \<noteq> 0"
  moreover from this have "0 < bsz (hdr_at m) lo" by (simp add: unat_gt_0)
  ultimately show "((m, lo + bsz (hdr_at m) lo, hi), m, lo, hi) \<in> measure (\<lambda>(m, lo, hi). hi - lo)"
    unfolding in_measure prod.case by linarith
qed simp
declare block_offs.simps [simp del]

definition live_of :: "(nat \<Rightarrow> blk_hdr) \<Rightarrow> nat list \<Rightarrow> (nat \<times> nat) set" where
  "live_of hs offs = (\<lambda>x. (x + 16, bsz hs x - 16)) ` {x \<in> set offs. bfree (hs x) = 0}"

definition arena_live :: "blyt_arena \<Rightarrow> (nat \<times> nat) set" where
  "arena_live a = (if ready a
     then live_of (hdr_at (amem a)) (block_offs (amem a) 0 (unat (bump a))) else {})"

definition arena_accounted :: "blyt_arena \<Rightarrow> nat" where
  "arena_accounted a = (if ready a
     then live_sum (hdr_at (amem a)) (block_offs (amem a) 0 (unat (bump a))) else 0)"

lemma block_offs_empty: "block_offs m lo lo = []"
  by (subst block_offs.simps) simp

lemma block_offs_chain: "chain (hdr_at m) lo offs hi \<Longrightarrow> block_offs m lo hi = offs"
proof (induction offs arbitrary: lo)
  case Nil
  then show ?case by (subst block_offs.simps) simp
next
  case (Cons x xs)
  moreover have "x < hi" using Cons.prems chain_bounds [OF Cons.prems, of x] by auto
  ultimately show ?case by (subst block_offs.simps) (auto simp: unat_gt_0 [symmetric])
qed

lemma arena_live_wf: "arena_wf a offs fl \<Longrightarrow> arena_live a = live_of (hdr_at (amem a)) offs"
  by (auto simp: arena_live_def arena_wf_def heap_wf_def block_offs_chain)

lemma arena_accounted_wf: "arena_wf a offs fl \<Longrightarrow> arena_accounted a = live_sum (hdr_at (amem a)) offs"
  by (auto simp: arena_accounted_def arena_wf_def heap_wf_def block_offs_chain)

lemma live_ensure_ready [simp]: "arena_live (ensure_ready a) = arena_live a"
  "arena_accounted (ensure_ready a) = arena_accounted a" "ensure_ready (ensure_ready a) = ensure_ready a"
  by (auto simp: arena_live_def arena_accounted_def ensure_ready_def live_of_def live_sum_def block_offs_empty)

lemma ensure_ready_fields [simp]:
  "ready (ensure_ready a)" "amem (ensure_ready a) = amem a" "acct (ensure_ready a) = acct a"
  "base (ensure_ready a) = base a" "asize (ensure_ready a) = asize a"
  by (simp_all add: ensure_ready_def)

lemma ensure_ready_id: "ready a \<Longrightarrow> ensure_ready a = a"
  by (simp add: ensure_ready_def)

lemma arena_wfI_inv: "arena_wf a offs fl \<Longrightarrow> arena_inv a"
  by (auto simp: arena_inv_def arena_wf_def ensure_ready_id)

lemma live_of_cong:
  "(\<And>x. x \<in> set offs \<Longrightarrow> bsize (hs' x) = bsize (hs x) \<and> bfree (hs' x) = bfree (hs x)) \<Longrightarrow>
   live_of hs' offs = live_of hs offs"
  by (auto simp: live_of_def)

lemma live_of_append [simp]: "live_of hs (xs @ ys) = live_of hs xs \<union> live_of hs ys"
  "live_of hs (x # xs) = (if bfree (hs x) = 0 then {(x + 16, bsz hs x - 16)} else {}) \<union> live_of hs xs"
  by (auto simp: live_of_def)

lemma live_sum_cong:
  "(\<And>x. x \<in> set offs \<Longrightarrow> bsize (hs' x) = bsize (hs x) \<and> bfree (hs' x) = bfree (hs x) \<and> bpad (hs' x) = bpad (hs x)) \<Longrightarrow>
   live_sum hs' offs = live_sum hs offs"
  unfolding live_sum_def by (intro arg_cong [where f = sum_list] map_cong) auto

lemma live_sum_append [simp]: "live_sum hs (xs @ ys) = live_sum hs xs + live_sum hs ys"
  "live_sum hs (x # xs) = (if bfree (hs x) = 0 \<and> bpad (hs x) \<noteq> BLK_NOACCT then bsz hs x else 0) + live_sum hs xs"
  by (simp_all add: live_sum_def)

lemma live_sum_le: "chain hs lo offs hi \<Longrightarrow> lo + live_sum hs offs \<le> hi"
proof (induction offs arbitrary: lo)
  case (Cons x xs)
  then have "lo + bsz hs x + live_sum hs xs \<le> hi" by auto
  then show ?case by simp
qed (simp add: live_sum_def)

section \<open>Allocation\<close>

lemma arena_wfD:
  assumes "arena_wf a offs fl"
  shows "heap_wf (hdr_at (amem a)) (free_head a) (unat (bump a)) offs fl"
    "chain (hdr_at (amem a)) 0 offs (unat (bump a))" "base a" "asize a \<noteq> 0" "ready a"
    "unat (bump a) \<le> unat (asize a)" "unat (bump a) < 2 ^ 32"
    "\<And>c. acct a = Some c \<Longrightarrow> unat (guest_heap_used c) = live_sum (hdr_at (amem a)) offs"
  using assms by (auto simp: arena_wf_def heap_wf_def word_le_nat_alt)

lemma fl_not_none: "arena_wf a offs fl \<Longrightarrow> BLYT_ARENA_NONE \<notin> set fl"
proof
  assume wf: "arena_wf a offs fl" and "BLYT_ARENA_NONE \<in> set fl"
  then have "unat BLYT_ARENA_NONE \<in> set offs" using heap_wf_free_mem [OF arena_wfD(1)] by blast
  from chain_bounds [OF arena_wfD(2) [OF wf] this] arena_wfD(7) [OF wf] show False
    by (simp add: BLYT_ARENA_NONE_def)
qed

lemma arena_wf_alloc:
  assumes wf: "arena_wf a offs fl"
    and new: "heap_wf hs' (free_head a') (unat (bump a')) offs' fl'"
    and agree: "\<And>x. x \<in> set offs' \<Longrightarrow> hdr_at (amem a') x = hs' x"
    and fields: "base a' = base a" "asize a' = asize a" "ready a'" "bump a' \<le> asize a"
    and sum: "live_sum hs' offs' = live_sum (hdr_at (amem a)) offs + (if noacct then 0 else unat sz)"
    and acct: "acct a' = (if noacct then acct a else acct (acct_add a sz))"
  shows "arena_wf a' offs' fl'"
proof -
  have "heap_wf (hdr_at (amem a')) (free_head a') (unat (bump a')) offs' fl'"
    using heap_wf_cong [OF new agree] .
  moreover have s: "live_sum (hdr_at (amem a')) offs' = live_sum hs' offs'"
    by (rule live_sum_cong) (simp add: agree)
  have "live_sum hs' offs' < 2 ^ 32" using live_sum_le [OF heap_wfD(2) [OF new]] heap_wfD(1) [OF new] by simp
  then have "unat (guest_heap_used c) = live_sum hs' offs'" if "acct a' = Some c" for c
    using that sum acct arena_wfD(8) [OF wf] by (auto simp: acct_add_def unat_add_small split: if_splits)
  ultimately show ?thesis using fields arena_wfD [OF wf] s by (auto simp: arena_wf_def)
qed

text \<open>The bytes of the regions in \<open>R\<close> are the same in both states.\<close>

definition user_same :: "blyt_arena \<Rightarrow> blyt_arena \<Rightarrow> (nat \<times> nat) set \<Rightarrow> bool" where
  "user_same a a' R \<longleftrightarrow> (\<forall>(p, k) \<in> R. mem_read (amem a') p k = mem_read (amem a) p k)"

lemma mem_read_eqI: "(\<And>i. p \<le> i \<Longrightarrow> i < p + k \<Longrightarrow> m' i = m i) \<Longrightarrow> mem_read m' p k = mem_read m p k"
  by (simp add: mem_read_def)

lemma user_same_refl [simp]: "user_same a a R"
  by (simp add: user_same_def)

lemma user_same_trans: "user_same a b R \<Longrightarrow> user_same b c R \<Longrightarrow> user_same a c R"
  by (fastforce simp: user_same_def)

lemma user_same_mono: "user_same a b R \<Longrightarrow> S \<subseteq> R \<Longrightarrow> user_same a b S"
  by (auto simp: user_same_def)

lemma user_same_amem: "amem a' = amem a \<Longrightarrow> user_same a a' R"
  by (simp add: user_same_def)

lemma user_same_hdr_upd:
  "(\<And>p k. (p, k) \<in> R \<Longrightarrow> p + k \<le> unat off \<or> unat off + 16 \<le> p) \<Longrightarrow> user_same a (hdr_upd off f a) R"
  unfolding user_same_def hdr_upd_def by (auto intro!: mem_read_eqI hdr_put_out) force+

lemma user_same_put_link:
  "(\<And>p k y. (p, k) \<in> R \<Longrightarrow> y \<in> set xs \<Longrightarrow> p + k \<le> unat y \<or> unat y + 16 \<le> p) \<Longrightarrow>
   user_same a (put_link (link_after xs) v a) R"
  by (cases xs rule: rev_cases) (auto simp: link_after_def user_same_amem intro!: user_same_hdr_upd)

lemma live_hdr_disjoint:
  assumes "chain hs lo offs hi" "(p, k) \<in> live_of hs offs" "y \<in> set offs"
  shows "p + k \<le> y \<or> y + 16 \<le> p"
proof -
  obtain x where x: "x \<in> set offs" "p = x + 16" "k = bsz hs x - 16" using assms(2) by (auto simp: live_of_def)
  show ?thesis
    using chain_disjoint [OF assms(1) x(1) assms(3)] chain_bounds [OF assms(1) x(1)]
      chain_bounds [OF assms(1) assms(3)] x by (cases "x = y") auto
qed

lemma live_block_disjoint:
  assumes "chain hs lo offs hi" "(p, k) \<in> live_of hs offs" "y \<in> set offs" "bfree (hs y) \<noteq> 0"
  shows "p + k \<le> y \<or> y + bsz hs y \<le> p"
proof -
  obtain x where x: "x \<in> set offs" "p = x + 16" "k = bsz hs x - 16" "bfree (hs x) = 0"
    using assms(2) by (auto simp: live_of_def)
  then have "x \<noteq> y" using assms(4) by auto
  with chain_disjoint [OF assms(1) x(1) assms(3)] chain_bounds [OF assms(1) x(1)] x show ?thesis by auto
qed

text \<open>What a successful allocation of a block of \<open>sz\<close> bytes with user pointer \<open>p\<close> does.\<close>

definition alloc_effect :: "blyt_arena \<Rightarrow> blyt_arena \<Rightarrow> u32 \<Rightarrow> u32 \<Rightarrow> bool \<Rightarrow> bool" where
  "alloc_effect a a' p sz noacct \<longleftrightarrow>
     arena_inv a' \<and> 32 \<le> unat sz \<and>
     arena_live a' = insert (unat p, unat sz - 16) (arena_live a) \<and>
     unat p \<notin> fst ` arena_live a \<and> user_same a a' (arena_live a) \<and>
     acct a' = (if noacct then acct a else acct (acct_add a sz)) \<and>
     base a' = base a \<and> asize a' = asize a \<and>
     arena_accounted a' = arena_accounted a + (if noacct then 0 else unat sz)"

lemma accounted_alloc:
  assumes "arena_wf a offs fl" "arena_wf a' offs' fl'" "\<And>x. x \<in> set offs' \<Longrightarrow> hdr_at (amem a') x = hs' x"
    and "live_sum hs' offs' = live_sum (hdr_at (amem a)) offs + k"
  shows "arena_accounted a' = arena_accounted a + k"
  using live_sum_cong [of offs' "hdr_at (amem a')" hs'] assms(3,4)
  by (simp add: arena_accounted_wf [OF assms(1)] arena_accounted_wf [OF assms(2)])

lemma fst_live_of: "fst ` live_of hs offs = (\<lambda>x. x + 16) ` {x \<in> set offs. bfree (hs x) = 0}"
  by (force simp: live_of_def)

lemma bump_block_effect:
  assumes wf: "arena_wf a offs fl" and need: "32 \<le> unat need" "16 dvd unat need"
    and r: "bump_block a need noacct = (a', Some p)"
  shows "alloc_effect a a' p need noacct \<and> (noacct \<or> cap_allows a need)"
proof -
  let ?h = "\<lparr>bsize = need, bfree = 0, bnext = BLYT_ARENA_NONE, bpad = (if noacct then BLK_NOACCT else 0)\<rparr>"
  let ?hi = "unat (bump a)" and ?hs = "hdr_at (amem a)"
  note d = arena_wfD [OF wf]
  have c: "\<not> (ucast (bump a) :: u64) + ucast need > ucast (asize a)" and cap: "noacct \<or> cap_allows a need"
    using r by (auto simp: bump_block_def split: if_splits)
  then have le: "?hi + unat need \<le> unat (asize a)" by (simp add: word_less_nat_alt unat_u64_sum2)
  define a1 where "a1 = hdr_upd (bump a) (\<lambda>_. ?h) a"
  have a': "a' = (if noacct then a1\<lparr>bump := bump a + need\<rparr> else acct_add (a1\<lparr>bump := bump a + need\<rparr>) need)"
    and p: "p = bump a + 16"
    using r c cap by (auto simp: bump_block_def Let_def a1_def HDR_SIZE_def split: if_splits)
  have b': "bump a' = bump a + need" and m': "amem a' = amem a1" and fh: "free_head a' = free_head a"
    unfolding a' by (auto simp: a1_def)
  have ub: "unat (bump a + need) = ?hi + unat need" using le unat_u32_lt [of "asize a"]
    by (simp add: unat_add_small)
  have hi: "?hi + unat need < 2 ^ 32" using le unat_u32_lt [of "asize a"] by simp
  note ext = heap_wf_extend [OF d(1), of ?h, simplified, OF need hi [simplified]]
  have agree: "hdr_at (amem a') x = (?hs(?hi := ?h)) x" if "x \<in> set (offs @ [?hi])" for x
    unfolding m' a1_def by (rule hdr_at_upd)
      (use that chain_sep [OF heap_wfD(2) [OF ext(1)]] in auto)
  have "live_sum (?hs(?hi := ?h)) offs = live_sum ?hs offs" using ext(2) by (intro live_sum_cong) auto
  then have sum: "live_sum (?hs(?hi := ?h)) (offs @ [?hi]) = live_sum ?hs offs + (if noacct then 0 else unat need)"
    by (simp add: live_sum_def BLK_NOACCT_def)
  have wf': "arena_wf a' (offs @ [?hi]) fl"
  proof (rule arena_wf_alloc [OF wf, of _ _ _ _ noacct need])
    show "heap_wf (?hs(?hi := ?h)) (free_head a') (unat (bump a')) (offs @ [?hi]) fl"
      unfolding fh b' ub by (rule ext(1))
    show "live_sum (?hs(?hi := ?h)) (offs @ [?hi]) = live_sum ?hs offs + (if noacct then 0 else unat need)"
      by (rule sum)
  qed (use agree le d ub in \<open>auto simp: a' a1_def acct_add_def word_le_nat_alt\<close>)
  have lo: "live_of (?hs(?hi := ?h)) offs = live_of ?hs offs" using ext(2) by (intro live_of_cong) auto
  have "arena_live a' = live_of (?hs(?hi := ?h)) (offs @ [?hi])"
    unfolding arena_live_wf [OF wf'] by (rule live_of_cong) (simp add: agree)
  also have "\<dots> = insert (?hi + 16, unat need - 16) (live_of ?hs offs)" by (simp add: lo) (simp add: live_of_def)
  finally have live: "arena_live a' = insert (?hi + 16, unat need - 16) (arena_live a)"
    by (simp add: arena_live_wf [OF wf])
  have up: "unat p = ?hi + 16" unfolding p using need hi by (simp add: unat_add_small)
  have "unat p \<notin> fst ` arena_live a"
    using ext(2) unfolding arena_live_wf [OF wf] fst_live_of up by auto
  moreover have "user_same a a' (arena_live a)"
  proof -
    have "p + k \<le> ?hi" if "(p, k) \<in> live_of ?hs offs" for p k
      using that chain_bounds [OF d(2)] by (fastforce simp: live_of_def)
    then have "user_same a a1 (arena_live a)"
      unfolding a1_def arena_live_wf [OF wf] by (intro user_same_hdr_upd) auto
    then show ?thesis by (rule user_same_trans) (rule user_same_amem, fact m')
  qed
  ultimately show ?thesis
    using cap need live up arena_wfI_inv [OF wf'] accounted_alloc [OF wf wf' agree sum]
    by (auto simp: alloc_effect_def a' a1_def acct_add_def)
qed

lemma unlink_agree:
  assumes wf: "heap_wf (hdr_at (amem a)) fh hi offs (xs @ c # ys)" and x: "x \<in> set offs"
  shows "hdr_at (amem (hdr_upd c f (put_link (link_after xs) v a))) x =
    ((relink xs v (hdr_at (amem a)))(unat c := f (hdr_at (amem a) (unat c)))) x"
proof -
  have mem: "unat y \<in> set offs" if "y \<in> set xs \<or> y = c" for y
    using heap_wf_free_mem [OF wf, of y] that by auto
  note s = chain_sep [OF heap_wfD(2) [OF wf]]
  have pl: "hdr_at (amem (put_link (link_after xs) v a)) z = relink xs v (hdr_at (amem a)) z"
    if "z = x \<or> z = unat c" for z
    using that mem s x by (intro hdr_at_put_link) auto
  moreover have "relink xs v (hdr_at (amem a)) (unat c) = hdr_at (amem a) (unat c)"
    using heap_wfD(4) [OF wf] by (intro relink_notin) auto
  ultimately show ?thesis using s [OF mem x] by (subst hdr_at_upd) auto
qed

lemma take_whole_effect:
  assumes wf: "arena_wf a offs (xs @ c # ys)"
    and h: "h = (hdr_at (amem a) (unat c))\<lparr>bfree := 0, bnext := BLYT_ARENA_NONE, bpad := (if noacct then BLK_NOACCT else 0)\<rparr>"
    and a2: "a2 = hdr_upd c (\<lambda>b. b\<lparr>bfree := 0, bnext := BLYT_ARENA_NONE, bpad := (if noacct then BLK_NOACCT else 0)\<rparr>)
                    (put_link (link_after xs) (bnext (hdr_at (amem a) (unat c))) a)"
    and a': "a' = (if noacct then a2 else acct_add a2 (bsize (hdr_at (amem a) (unat c))))"
  shows "alloc_effect a a' (c + HDR_SIZE) (bsize (hdr_at (amem a) (unat c))) noacct"
    "bsize (hdr_at (amem a2) (unat c)) = bsize (hdr_at (amem a) (unat c))"
proof -
  let ?hs = "hdr_at (amem a)" let ?hs' = "(relink xs (bnext (?hs (unat c))) ?hs)(unat c := h)"
  note d = arena_wfD [OF wf]
  have c: "unat c \<in> set offs" "bfree (?hs (unat c)) \<noteq> 0" using heap_wf_free_mem [OF d(1), of c] by auto
  have xs: "unat y \<in> set offs" if "y \<in> set xs" for y using heap_wf_free_mem [OF d(1), of y] that by auto
  have agree: "hdr_at (amem a2) x = ?hs' x" if "x \<in> set offs" for x
    unfolding a2 h by (rule unlink_agree [OF d(1) that])
  show "bsize (hdr_at (amem a2) (unat c)) = bsize (?hs (unat c))" using agree [OF c(1)] h by simp
  have m': "amem a' = amem a2" unfolding a' by simp
  obtain A B where AB: "offs = A @ unat c # B" using c(1) by (meson split_list)
  then have cAB: "unat c \<notin> set A" "unat c \<notin> set B" using heap_wfD(5) [OF d(1)] by auto
  have other: "bsize (?hs' x) = bsize (?hs x) \<and> bfree (?hs' x) = bfree (?hs x) \<and> bpad (?hs' x) = bpad (?hs x)"
    if "x \<noteq> unat c" for x using that by simp
  have "live_sum ?hs' A = live_sum ?hs A" "live_sum ?hs' B = live_sum ?hs B"
    by (rule live_sum_cong; use cAB other in auto)+
  then have sum: "live_sum ?hs' offs = live_sum ?hs offs + (if noacct then 0 else bsz ?hs (unat c))"
    using c(2) by (simp add: AB h BLK_NOACCT_def)
  have wf': "arena_wf a' offs (xs @ ys)"
  proof (rule arena_wf_alloc [OF wf, of ?hs' _ _ _ noacct "bsize (?hs (unat c))"])
    have "heap_wf ?hs' (if xs = [] then bnext (?hs (unat c)) else free_head a) (unat (bump a)) offs (xs @ ys)"
      by (rule heap_wf_unlink [OF d(1)]) (simp_all add: h)
    then show "heap_wf ?hs' (free_head a') (unat (bump a')) offs (xs @ ys)"
      by (simp add: a' a2 put_link_after_head)
    show "live_sum ?hs' offs = live_sum ?hs offs + (if noacct then 0 else bsz ?hs (unat c))" by (rule sum)
  qed (use agree d in \<open>auto simp: m' a' a2 acct_add_def word_le_nat_alt\<close>)
  have "arena_live a' = live_of ?hs' offs"
    unfolding arena_live_wf [OF wf'] by (rule live_of_cong) (simp add: agree m')
  moreover have "live_of ?hs' A = live_of ?hs A" "live_of ?hs' B = live_of ?hs B"
    by (rule live_of_cong; use cAB other in auto)+
  ultimately have live: "arena_live a' = insert (unat c + 16, bsz ?hs (unat c) - 16) (arena_live a)"
    using c(2) unfolding arena_live_wf [OF wf] by (simp add: AB h)
  have cb: "32 \<le> bsz ?hs (unat c)" "unat c + bsz ?hs (unat c) \<le> unat (bump a)"
    using chain_bounds [OF d(2) c(1)] by auto
  have up: "unat (c + HDR_SIZE) = unat c + 16" using cb d(7) by (simp add: unat_add_small HDR_SIZE_def)
  have "unat (c + HDR_SIZE) \<notin> fst ` arena_live a"
    using c unfolding arena_live_wf [OF wf] fst_live_of up by auto
  moreover have "user_same a a2 (arena_live a)"
    unfolding arena_live_wf [OF wf] a2
    by (rule user_same_trans [OF user_same_put_link user_same_hdr_upd])
      (use live_hdr_disjoint [OF d(2)] xs c in auto)
  then have "user_same a a' (arena_live a)"
    by (rule user_same_trans) (rule user_same_amem, fact m')
  ultimately show "alloc_effect a a' (c + HDR_SIZE) (bsize (?hs (unat c))) noacct"
    using live up cb arena_wfI_inv [OF wf'] accounted_alloc [OF wf wf' _ sum] agree
    by (auto simp: alloc_effect_def a' a2 acct_add_def)
qed

lemma take_split_effect:
  assumes wf: "arena_wf a offs (xs @ c # ys)"
    and need: "32 \<le> unat need" "16 dvd unat need" "unat need + 32 \<le> bsz (hdr_at (amem a)) (unat c)"
    and tb: "tb = \<lparr>bsize = bsize (hdr_at (amem a) (unat c)) - need, bfree = 1,
                   bnext = bnext (hdr_at (amem a) (unat c)), bpad = 0\<rparr>"
    and f: "f = (\<lambda>b. b\<lparr>bfree := 0, bnext := BLYT_ARENA_NONE, bpad := (if noacct then BLK_NOACCT else 0)\<rparr>)"
    and a2: "a2 = hdr_upd c f (hdr_upd c (bsize_update (\<lambda>_. need))
                    (put_link (link_after xs) (c + need) (hdr_upd (c + need) (\<lambda>_. tb) a)))"
    and a': "a' = (if noacct then a2 else acct_add a2 need)"
  shows "alloc_effect a a' (c + HDR_SIZE) need noacct" "bsize (hdr_at (amem a2) (unat c)) = need"
proof -
  define t where "t = c + need"
  let ?hs = "hdr_at (amem a)"
  define h where "h = f ((?hs (unat c))\<lparr>bsize := need\<rparr>)"
  let ?hs' = "(relink xs t (?hs(unat t := tb)))(unat c := h)"
  note d = arena_wfD [OF wf]
  have c: "unat c \<in> set offs" "bfree (?hs (unat c)) \<noteq> 0" using heap_wf_free_mem [OF d(1), of c] by auto
  obtain A B where AB: "offs = A @ unat c # B" using c(1) by (meson split_list)
  let ?offs = "A @ unat c # unat t # B"
  have hw: "heap_wf ?hs' (if xs = [] then t else free_head a) (unat (bump a)) ?offs (xs @ t # ys)"
    and ut: "unat t = unat c + unat need" and tn: "unat t \<notin> set offs"
    using heap_wf_split [OF d(1) [unfolded AB] need, of h t tb] by (simp_all add: h_def f t_def tb AB)
  have xs: "unat y \<in> set offs" if "y \<in> set xs" for y using heap_wf_free_mem [OF d(1), of y] that by auto
  have cx: "c \<notin> set xs" and tc: "unat t \<noteq> unat c" using heap_wfD(4) [OF d(1)] ut need by auto
  have agree: "hdr_at (amem a2) x = ?hs' x" if x: "x \<in> set ?offs" for x
  proof -
    have s: "sep (unat y) z" if "y \<in> set xs \<or> y = c \<or> y = t" "z = x \<or> z = unat c" for y z
      using that x xs by (intro chain_sep [OF heap_wfD(2) [OF hw]]) (auto simp: AB)
    have "hdr_at (amem (put_link (link_after xs) t (hdr_upd t (\<lambda>_. tb) a))) z = relink xs t (?hs(unat t := tb)) z"
      if z: "z = x \<or> z = unat c" for z
    proof (subst hdr_at_put_link)
      have "hdr_at (amem (hdr_upd t (\<lambda>_. tb) a)) v = (?hs(unat t := tb)) v" if "v = z \<or> v \<in> unat ` set xs" for v
        using that s z xs chain_sep [OF heap_wfD(2) [OF hw], of "unat t" v]
        by (intro hdr_at_upd) (auto simp: AB)
      then show "relink xs t (hdr_at (amem (hdr_upd t (\<lambda>_. tb) a))) z = relink xs t (?hs(unat t := tb)) z"
        by (cases "xs = []") (simp_all add: relink_def)
    qed (use s z in auto)
    moreover have "relink xs t (?hs(unat t := tb)) (unat c) = ?hs (unat c)"
      using relink_notin [OF cx, of t "?hs(unat t := tb)"] tc by simp
    ultimately show ?thesis unfolding a2 t_def [symmetric] using s
      by (subst hdr_at_upd; auto simp: h_def hdr_at_upd)
  qed
  show "bsize (hdr_at (amem a2) (unat c)) = need" using agree [of "unat c"] by (simp add: h_def f)
  have m': "amem a' = amem a2" unfolding a' by simp
  have cAB: "unat c \<notin> set A" "unat c \<notin> set B" "unat t \<notin> set A" "unat t \<notin> set B"
    using heap_wfD(5) [OF d(1)] tn AB by auto
  have other: "bsize (?hs' x) = bsize (?hs x) \<and> bfree (?hs' x) = bfree (?hs x) \<and> bpad (?hs' x) = bpad (?hs x)"
    if "x \<noteq> unat c" "x \<noteq> unat t" for x using that by simp
  have "live_sum ?hs' A = live_sum ?hs A" "live_sum ?hs' B = live_sum ?hs B"
    by (rule live_sum_cong; use cAB other in auto)+
  then have sum: "live_sum ?hs' ?offs = live_sum ?hs offs + (if noacct then 0 else unat need)"
    using c(2) tc by (simp add: AB h_def f tb BLK_NOACCT_def)
  have agree': "hdr_at (amem a') x = ?hs' x" if "x \<in> set ?offs" for x unfolding m' by (rule agree [OF that])
  have fh: "free_head a' = (if xs = [] then t else free_head a)" "bump a' = bump a"
    by (simp_all add: a' a2 put_link_after_head t_def)
  have wf': "arena_wf a' ?offs (xs @ t # ys)"
  proof (rule arena_wf_alloc [OF wf, of ?hs' _ _ _ noacct need])
    show "heap_wf ?hs' (free_head a') (unat (bump a')) ?offs (xs @ t # ys)"
      using hw by (simp only: fh)
    show "live_sum ?hs' ?offs = live_sum ?hs offs + (if noacct then 0 else unat need)" by (rule sum)
    show "hdr_at (amem a') x = ?hs' x" if "x \<in> set ?offs" for x by (rule agree' [OF that])
    show "bump a' \<le> asize a" using d(6) by (simp add: fh word_le_nat_alt)
  qed (use d(5) in \<open>simp_all add: a' a2 acct_add_def\<close>)
  have "arena_live a' = live_of ?hs' ?offs"
    unfolding arena_live_wf [OF wf'] by (rule live_of_cong) (simp add: agree m')
  moreover have "live_of ?hs' A = live_of ?hs A" "live_of ?hs' B = live_of ?hs B"
    by (rule live_of_cong; use cAB other in auto)+
  ultimately have live: "arena_live a' = insert (unat c + 16, unat need - 16) (arena_live a)"
    using c(2) tc unfolding arena_live_wf [OF wf] by (simp add: AB h_def f tb)
  have cb: "unat c + bsz ?hs (unat c) \<le> unat (bump a)" using chain_bounds [OF d(2) c(1)] by auto
  have up: "unat (c + HDR_SIZE) = unat c + 16" using cb need d(7) by (simp add: unat_add_small HDR_SIZE_def)
  have "unat (c + HDR_SIZE) \<notin> fst ` arena_live a"
    using c unfolding arena_live_wf [OF wf] fst_live_of up by auto
  moreover have "user_same a a2 (arena_live a)"
  proof -
    have "p + k \<le> unat y \<or> unat y + 16 \<le> p" if "(p, k) \<in> live_of ?hs offs" "y \<in> set xs \<or> y = c \<or> y = t" for p k y
      using that live_hdr_disjoint [OF d(2), of p k] live_block_disjoint [OF d(2), of p k "unat c"] xs c ut need
      by fastforce
    then show ?thesis unfolding a2 t_def [symmetric] arena_live_wf [OF wf]
      by (intro user_same_trans [OF user_same_trans [OF user_same_trans
            [OF user_same_hdr_upd user_same_put_link] user_same_hdr_upd] user_same_hdr_upd]) auto
  qed
  then have "user_same a a' (arena_live a)"
    by (rule user_same_trans) (rule user_same_amem, fact m')
  ultimately show "alloc_effect a a' (c + HDR_SIZE) need noacct"
    using live up need arena_wfI_inv [OF wf'] accounted_alloc [OF wf wf' agree' sum]
    by (auto simp: alloc_effect_def a' a2 acct_add_def)
qed

lemma take_free_block_effect:
  assumes wf: "arena_wf a offs (xs @ c # ys)"
    and need: "32 \<le> unat need" "16 dvd unat need" "need \<le> bsize (hdr_at (amem a) (unat c))"
    and r: "take_free_block a need noacct (link_after xs) = (a', Some p)"
  shows "\<exists>sz. alloc_effect a a' p sz noacct \<and> need \<le> sz \<and> (noacct \<or> cap_allows a sz)"
proof -
  let ?h = "hdr_at (amem a) (unat c)" and ?rem = "bsize (hdr_at (amem a) (unat c)) - need"
  let ?f = "\<lambda>b. b\<lparr>bfree := 0, bnext := BLYT_ARENA_NONE, bpad := (if noacct then BLK_NOACCT else 0)\<rparr>"
  have g: "get_link a (link_after xs) = c"
    using get_link_after [OF heap_wfD(3) [OF arena_wfD(1) [OF wf]]] by simp
  have rem: "unat ?rem = bsz (hdr_at (amem a)) (unat c) - unat need"
    using need by (simp add: unat_sub_small)
  show ?thesis
  proof (cases "?rem \<ge> 32")
    case True
    then have big: "unat need + 32 \<le> bsz (hdr_at (amem a)) (unat c)" using rem need by (simp add: word_le_nat_alt)
    define a2 where "a2 = hdr_upd c ?f (hdr_upd c (bsize_update (\<lambda>_. need))
      (put_link (link_after xs) (c + need) (hdr_upd (c + need)
         (\<lambda>_. \<lparr>bsize = ?rem, bfree = 1, bnext = bnext ?h, bpad = 0\<rparr>) a)))"
    note eff = take_split_effect [OF wf need(1,2) big refl refl a2_def refl]
    have "noacct \<or> cap_allows a need" "p = c + HDR_SIZE"
      "a' = (if noacct then a2 else acct_add a2 (bsize (hdr_at (amem a2) (unat c))))"
      using r True by (auto simp: take_free_block_def g Let_def arena_consts a2_def split: if_splits)
    then show ?thesis using eff by (intro exI [of _ need]) auto
  next
    case False
    define a2 where "a2 = hdr_upd c ?f (put_link (link_after xs) (bnext ?h) a)"
    note eff = take_whole_effect [OF wf refl a2_def refl]
    have "noacct \<or> cap_allows a (bsize ?h)" "p = c + HDR_SIZE"
      "a' = (if noacct then a2 else acct_add a2 (bsize (hdr_at (amem a2) (unat c))))"
      using r False by (auto simp: take_free_block_def g Let_def arena_consts a2_def split: if_splits)
    then show ?thesis using eff need by (intro exI [of _ "bsize ?h"]) auto
  qed
qed

lemma take_free_block_refused:
  assumes "take_free_block a need noacct prev = (a', None)"
    and need: "need \<le> bsize (hdr_at (amem a) (unat (get_link a prev)))"
  shows "a' = a \<and> \<not> noacct \<and> (\<exists>sz. need \<le> sz \<and> \<not> cap_allows a sz)"
proof -
  let ?sz = "if bsize (hdr_at (amem a) (unat (get_link a prev))) - need \<ge> HDR_SIZE + BLYT_ARENA_ALIGN
             then need else bsize (hdr_at (amem a) (unat (get_link a prev)))"
  have "\<not> noacct \<and> \<not> cap_allows a ?sz \<and> a' = a"
    using assms(1) by (simp add: take_free_block_def Let_def split: if_splits)
  moreover have "need \<le> ?sz" using need by simp
  ultimately show ?thesis by blast
qed

text \<open>
  Allocation, completely: it always returns; on success the new block is one more live region,
  disjoint from the others whose bytes are untouched, and on failure nothing has changed but
  the lazy initialisation.
\<close>

lemma malloc_core_cases:
  assumes inv: "arena_inv a" and n: "n \<le> max_request"
  obtains (ok) a' p sz where "arena_malloc_core a n noacct = Some (a', Some p)"
      "alloc_effect (ensure_ready a) a' p sz noacct" "block_need n \<le> sz" "noacct \<or> cap_allows a sz"
    | (refused) sz where "arena_malloc_core a n noacct = Some (ensure_ready a, None)"
      "block_need n \<le> sz" "\<not> noacct" "\<not> cap_allows a sz"
    | (full) offs fl where "arena_malloc_core a n noacct = Some (ensure_ready a, None)"
      "arena_wf (ensure_ready a) offs fl" "unat (asize a) < unat (bump (ensure_ready a)) + unat (block_need n)"
      "\<forall>c \<in> set fl. bsz (hdr_at (amem a)) (unat c) < unat (block_need n)"
proof -
  let ?a = "ensure_ready a" and ?need = "block_need n"
  obtain offs fl where wf: "arena_wf ?a offs fl" using inv by (auto simp: arena_inv_def)
  note d = arena_wfD [OF wf] and nb = block_need_bounds [OF n]
  have ba: "base a" "asize a \<noteq> 0" using d by simp_all
  have capeq: "cap_allows ?a x = cap_allows a x" for x by (simp add: cap_allows_def)
  let ?small = "\<lambda>c. bsize (hdr_at (amem a) (unat c)) < ?need"
  have ff: "first_fit ?a ?need Head = Some (if \<exists>c \<in> set fl. ?need \<le> bsize (hdr_at (amem a) (unat c))
      then Some (link_after (takeWhile ?small fl)) else None)"
    using first_fit_spec [of ?a "[]" fl ?need] heap_wfD(3) [OF d(1)] fl_not_none [OF wf]
    by (simp add: link_after_def)
  have core: "arena_malloc_core a n noacct = (case first_fit ?a ?need Head of None \<Rightarrow> None
      | Some (Some prev) \<Rightarrow> Some (take_free_block ?a ?need noacct prev)
      | Some None \<Rightarrow> Some (bump_block ?a ?need noacct))"
    unfolding arena_malloc_core_def block_need_def Let_def by (rule if_not_P) (use ba in simp)
  show thesis
  proof (cases "\<exists>c \<in> set fl. ?need \<le> bsize (hdr_at (amem a) (unat c))")
    case True
    define xs where "xs = takeWhile ?small fl"
    obtain c ys where cy: "dropWhile ?small fl = c # ys"
      using True by (cases "dropWhile ?small fl") (auto simp: dropWhile_eq_Nil_conv linorder_not_less [symmetric])
    then have s: "?need \<le> bsize (hdr_at (amem a) (unat c))"
      by (metis dropWhile_eq_Cons_conv linorder_not_less)
    have "fl = xs @ c # ys" unfolding xs_def cy [symmetric] by simp
    with wf have wf': "arena_wf ?a offs (xs @ c # ys)" by simp
    then have g: "get_link ?a (link_after xs) = c"
      using get_link_after [OF heap_wfD(3) [OF arena_wfD(1)]] by force
    obtain a' r where t: "take_free_block ?a ?need noacct (link_after xs) = (a', r)" by force
    with core ff True have core': "arena_malloc_core a n noacct = Some (a', r)" by (simp add: xs_def)
    show thesis
    proof (cases r)
      case None
      then show thesis using take_free_block_refused [OF t [unfolded None]] core' s
        by (auto simp: capeq g intro: refused)
    next
      case (Some p)
      then show thesis using take_free_block_effect [OF wf' nb(1,2) _ t [unfolded Some]] core' s
        by (auto simp: capeq intro: ok)
    qed
  next
    case False
    obtain a' r where t: "bump_block ?a ?need noacct = (a', r)" by force
    show thesis
    proof (cases r)
      case None
      then show thesis using t core ff False wf
        by (auto simp: bump_block_def Let_def capeq word_less_nat_alt unat_u64_sum2 linorder_not_le
            split: if_splits intro: refused full)
    next
      case (Some p)
      then show thesis using bump_block_effect [OF wf nb(1,2) t [unfolded Some]] core ff False t
        by (intro ok) (auto simp: capeq)
    qed
  qed
qed

section \<open>Release\<close>

lemma hdr_upd_upd: "hdr_upd c f (hdr_upd c g a) = hdr_upd c (\<lambda>b. f (g b)) a"
proof -
  have "hdr_put x h1 (hdr_put x h2 m) = hdr_put x h1 m" for x h1 h2 m
    by (auto simp: hdr_put_def mem_write_def)
  then show ?thesis by (simp add: hdr_upd_def)
qed

lemma heap_succ:
  assumes "chain hs 0 (A @ x # B) hi" "x + bsz hs x < hi"
  obtains C where "B = (x + bsz hs x) # C"
  using assms by (cases B) (auto simp: chain_append)

lemma coalesce_effect:
  assumes wf: "arena_wf a offs fl" and h: "unat h \<in> set offs" "bfree (hdr_at (amem a) (unat h)) \<noteq> 0"
  obtains a' offs' fl' where "coalesce_forward a h = Some a'" "arena_wf a' offs' fl'"
    "arena_live a' = arena_live a" "user_same a a' (arena_live a)"
    "acct a' = acct a" "asize a' = asize a" "base a' = base a" "bfree (hdr_at (amem a') (unat h)) \<noteq> 0"
proof -
  let ?hs = "hdr_at (amem a)"
  note d = arena_wfD [OF wf]
  let ?n = "h + bsize (?hs (unat h))"
  have un: "unat ?n = unat h + bsz ?hs (unat h)"
    using chain_bounds [OF d(2) h(1)] d(7) by (simp add: unat_add_small)
  consider "?n \<ge> bump a \<or> bfree (?hs (unat ?n)) = 0" | "?n < bump a" "bfree (?hs (unat ?n)) \<noteq> 0" by force
  then show thesis
  proof cases
    case 1
    then have "coalesce_forward a h = Some a" by (auto simp: coalesce_forward_def Let_def)
    with wf h(2) show thesis by (intro that) auto
  next
    case 2
    obtain A B where AB: "offs = A @ unat h # B" using h(1) by (meson split_list)
    obtain C where C: "B = unat ?n # C"
      using heap_succ [of ?hs A "unat h" B "unat (bump a)"] d(2) 2(1) un unfolding AB by (auto simp: word_less_nat_alt)
    have "unat ?n \<in> unat ` set fl" using heap_wfD(6) [OF d(1)] 2(2) by (simp add: AB C)
    then have "?n \<in> set fl" by (auto simp: unat_eq_word)
    then obtain xs ys where fl: "fl = xs @ ?n # ys" by (meson split_list)
    define n where "n = ?n"
    define hb where "hb = (?hs (unat n))\<lparr>bfree := 0, bnext := BLYT_ARENA_NONE\<rparr>"
    define hs1 where "hs1 = (relink xs (bnext (?hs (unat n))) ?hs)(unat n := hb)"
    define a1 where "a1 = hdr_upd n (\<lambda>b. b\<lparr>bfree := 0, bnext := BLYT_ARENA_NONE\<rparr>)
                            (put_link (link_after xs) (bnext (?hs (unat n))) a)"
    define a2 where "a2 = hdr_upd h (\<lambda>b. b\<lparr>bsize := bsize b + bsize (hdr_at (amem a1) (unat n))\<rparr>) a1"
    have wf1: "heap_wf ?hs (free_head a) (unat (bump a)) (A @ unat h # unat n # C) (xs @ n # ys)"
      using d(1) unfolding AB C fl n_def .
    have dist: "distinct (A @ unat h # unat n # C)" "distinct (xs @ n # ys)"
      using heap_wfD [OF wf1] by auto
    have "fl_remove_from a n (link_after []) = Some (a1, True)"
      using fl_remove_spec [of a "[]" xs n ys] heap_wfD(3) [OF wf1] fl_not_none [OF wf] dist(2)
      by (simp add: fl n_def [symmetric] a1_def hdr_upd_upd)
    then have res: "coalesce_forward a h = Some a2"
      using 2 unfolding coalesce_forward_def Let_def fl_remove_def n_def [symmetric]
      by (simp add: link_after_def a2_def)
    have ag1: "hdr_at (amem a1) x = hs1 x" if "x \<in> set (A @ unat h # unat n # C)" for x
      unfolding a1_def hs1_def hb_def by (rule unlink_agree [OF wf1 that])
    have wf2: "heap_wf hs1 (free_head a1) (unat (bump a1)) (A @ unat h # unat n # C) (xs @ ys)"
      using heap_wf_unlink [OF wf1, of hb] by (simp add: hs1_def hb_def a1_def put_link_after_head)
    define hh where "hh = (hs1 (unat h))\<lparr>bsize := bsize (hs1 (unat h)) + bsize (hs1 (unat n))\<rparr>"
    let ?hs2 = "hs1(unat h := hh)"
    have wf3: "heap_wf ?hs2 (free_head a1) (unat (bump a1)) (A @ unat h # C) (xs @ ys)"
      by (rule heap_wf_absorb(1) [OF wf2 _ hh_def]) (simp add: hs1_def hb_def)
    have ag2: "hdr_at (amem a2) x = ?hs2 x" if x: "x \<in> set (A @ unat h # C)" for x
      unfolding a2_def using chain_sep [OF heap_wfD(2) [OF wf3], of "unat h" x] x
      by (subst hdr_at_upd) (auto simp: ag1 hh_def)
    have same: "bsize (?hs2 x) = bsize (?hs x) \<and> bfree (?hs2 x) = bfree (?hs x) \<and> bpad (?hs2 x) = bpad (?hs x)"
      if "x \<in> set A \<or> x \<in> set C" for x using that dist(1) by (auto simp: hs1_def)
    have hf: "bfree hh \<noteq> 0" using h(2) dist(1) by (auto simp: hh_def hs1_def)
    have nf: "bfree (?hs (unat n)) \<noteq> 0" using 2(2) by (simp add: n_def)
    have "live_sum ?hs2 A = live_sum ?hs A" "live_sum ?hs2 C = live_sum ?hs C"
      by (rule live_sum_cong; use same in auto)+
    then have sum: "live_sum ?hs2 (A @ unat h # C) = live_sum ?hs offs"
      using hf h(2) nf by (simp add: AB C n_def [symmetric])
    have wf4: "arena_wf a2 (A @ unat h # C) (xs @ ys)"
    proof (rule arena_wf_alloc [OF wf, of ?hs2 _ _ _ True 0])
      show "heap_wf ?hs2 (free_head a2) (unat (bump a2)) (A @ unat h # C) (xs @ ys)"
        using wf3 by (simp add: a2_def)
      show "bump a2 \<le> asize a" using d(6) by (simp add: a2_def a1_def word_le_nat_alt)
    qed (use ag2 sum d(5) in \<open>simp_all add: a2_def a1_def\<close>)
    have "live_of ?hs2 A = live_of ?hs A" "live_of ?hs2 C = live_of ?hs C"
      by (rule live_of_cong; use same in auto)+
    then have "live_of ?hs2 (A @ unat h # C) = live_of ?hs offs"
      using hf h(2) nf by (simp add: AB C n_def [symmetric])
    moreover have "live_of (hdr_at (amem a2)) (A @ unat h # C) = live_of ?hs2 (A @ unat h # C)"
      by (rule live_of_cong) (simp only: ag2 simp_thms)
    ultimately have live: "arena_live a2 = arena_live a"
      unfolding arena_live_wf [OF wf4] arena_live_wf [OF wf] by simp
    have "p + k \<le> unat y \<or> unat y + 16 \<le> p" if "(p, k) \<in> live_of ?hs offs" "y \<in> set xs \<or> y = n \<or> y = h" for p k y
      using that live_hdr_disjoint [OF d(2), of p k "unat y"] heap_wf_free_mem [OF wf1, of y] h(1)
      by (auto simp: AB C n_def)
    then have us: "user_same a a2 (arena_live a)"
      unfolding a2_def a1_def arena_live_wf [OF wf]
      by (intro user_same_trans [OF user_same_trans [OF user_same_put_link user_same_hdr_upd] user_same_hdr_upd]) auto
    have "bfree (hdr_at (amem a2) (unat h)) \<noteq> 0" using ag2 [of "unat h"] hf by simp
    then show thesis by (intro that [OF res wf4 live us]) (simp_all add: a2_def a1_def)
  qed
qed

definition release_effect :: "blyt_arena \<Rightarrow> blyt_arena \<Rightarrow> u32 \<Rightarrow> nat \<Rightarrow> bool" where
  "release_effect a a' p k \<longleftrightarrow>
     arena_inv a' \<and> arena_live a' = arena_live a - {(unat p, k)} \<and>
     user_same a a' (arena_live a - {(unat p, k)}) \<and>
     (acct a' = acct a \<or> acct a' = acct (acct_sub a (of_nat (k + 16)))) \<and>
     base a' = base a \<and> asize a' = asize a"

lemma live_ready: "(p, k) \<in> arena_live a \<Longrightarrow> ready a"
  by (auto simp: arena_live_def split: if_splits)

lemma arena_inv_ready: "arena_inv a \<Longrightarrow> ready a \<Longrightarrow> \<exists>offs fl. arena_wf a offs fl"
  by (simp add: arena_inv_def ensure_ready_id)

lemma live_block:
  assumes "arena_wf a offs fl" "(unat p, k) \<in> arena_live a"
  shows "unat (p - HDR_SIZE) = unat p - 16" "16 \<le> unat p" "unat p - 16 \<in> set offs"
    "bfree (hdr_at (amem a) (unat p - 16)) = 0" "k = bsz (hdr_at (amem a)) (unat p - 16) - 16"
    "unat p + k \<le> unat (bump a)" "16 \<le> k" "k + 16 = bsz (hdr_at (amem a)) (unat p - 16)"
proof -
  obtain x where x: "x \<in> set offs" "unat p = x + 16" "k = bsz (hdr_at (amem a)) x - 16" "bfree (hdr_at (amem a) x) = 0"
    using assms unfolding arena_live_wf [OF assms(1)] by (auto simp: live_of_def)
  then show "unat (p - HDR_SIZE) = unat p - 16" "16 \<le> unat p" "unat p - 16 \<in> set offs"
    "bfree (hdr_at (amem a) (unat p - 16)) = 0" "k = bsz (hdr_at (amem a)) (unat p - 16) - 16"
    "unat p + k \<le> unat (bump a)" "16 \<le> k" "k + 16 = bsz (hdr_at (amem a)) (unat p - 16)"
    using chain_bounds [OF arena_wfD(2) [OF assms(1)] x(1)]
    by (auto simp: unat_sub_small word_le_nat_alt HDR_SIZE_def)
qed

lemma push_effect:
  assumes wf: "arena_wf a offs fl" and live: "(unat p, k) \<in> arena_live a"
    and h: "h = p - HDR_SIZE" and b: "b = hdr_at (amem a) (unat h)"
    and a1: "a1 = (if bpad b \<noteq> BLK_NOACCT then acct_sub a (bsize b) else a)"
    and a3: "a3 = (hdr_upd h (\<lambda>b. b\<lparr>bfree := 1, bnext := free_head a1\<rparr>) a1)\<lparr>free_head := h\<rparr>"
  shows "arena_wf a3 offs (h # fl) \<and> arena_live a3 = arena_live a - {(unat p, k)} \<and>
    user_same a a3 (arena_live a - {(unat p, k)})"
proof -
  let ?hs = "hdr_at (amem a)" let ?nb = "b\<lparr>bfree := 1, bnext := free_head a\<rparr>"
  note d = arena_wfD [OF wf] and lb = live_block [OF wf live]
  have hu: "unat h = unat p - 16" using lb(1) h by simp
  have hm: "unat h \<in> set offs" "bfree b = 0" using lb(3,4) b by (simp_all add: hu)
  obtain A B where AB: "offs = A @ unat h # B" using hm(1) by (meson split_list)
  have hAB: "unat h \<notin> set A" "unat h \<notin> set B" using heap_wfD(5) [OF d(1)] AB by auto
  have m1: "amem a1 = amem a" "free_head a1 = free_head a" by (simp_all add: a1)
  have ag: "hdr_at (amem a3) x = (?hs(unat h := ?nb)) x" if "x \<in> set offs" for x
    unfolding a3 using chain_sep [OF d(2) hm(1) that] by (simp add: hdr_at_upd m1 b)
  have hw: "heap_wf (?hs(unat h := ?nb)) h (unat (bump a)) offs (h # fl)"
    by (rule heap_wf_push [OF d(1) hm(1)]) (use hm in \<open>simp_all add: b\<close>)
  have AB_same: "live_sum (?hs(unat h := ?nb)) A = live_sum ?hs A" "live_sum (?hs(unat h := ?nb)) B = live_sum ?hs B"
    "live_of (?hs(unat h := ?nb)) A = live_of ?hs A" "live_of (?hs(unat h := ?nb)) B = live_of ?hs B"
    by (rule live_sum_cong live_of_cong; use hAB in auto)+
  have ls: "live_sum (hdr_at (amem a3)) offs = live_sum ?hs A + live_sum ?hs B"
    using live_sum_cong [of offs "hdr_at (amem a3)" "?hs(unat h := ?nb)"] ag AB_same by (simp add: AB)
  have "unat (guest_heap_used c) = live_sum (hdr_at (amem a3)) offs" if acct3: "acct a3 = Some c" for c
  proof (cases "bpad b = BLK_NOACCT")
    case True
    then have "acct a = Some c" using that by (simp add: a3 a1)
    from d(8) [OF this] show ?thesis unfolding ls using True b by (simp add: AB)
  next
    case False
    then obtain c0 where c0: "acct a = Some c0" "guest_heap_used c = guest_heap_used c0 - bsize b"
      using acct3 by (auto simp: a3 a1 acct_sub_def)
    have "unat (guest_heap_used c0) = live_sum ?hs A + live_sum ?hs B + unat (bsize b)"
      using d(8) [OF c0(1)] hm b False by (simp add: AB)
    then show ?thesis unfolding c0(2) ls by (subst unat_sub_small) (simp_all add: word_le_nat_alt)
  qed
  then have wf3: "arena_wf a3 offs (h # fl)"
    using heap_wf_cong [OF hw ag] d by (auto simp: arena_wf_def a3 a1 word_le_nat_alt)
  have "arena_live a3 = live_of (?hs(unat h := ?nb)) offs"
    unfolding arena_live_wf [OF wf3] by (rule live_of_cong) (simp add: ag)
  also have "\<dots> = live_of ?hs A \<union> live_of ?hs B" using AB_same by (simp add: AB)
  also have "\<dots> = live_of ?hs offs - {(unat p, k)}"
    using hAB hm lb hu b by (auto simp: AB) (auto simp: live_of_def)
  finally have "arena_live a3 = arena_live a - {(unat p, k)}" unfolding arena_live_wf [OF wf] .
  moreover have "user_same a a3 (arena_live a - {(unat p, k)})"
  proof -
    have "user_same a1 (hdr_upd h f a1) (live_of ?hs offs)" for f
      by (rule user_same_hdr_upd) (use live_hdr_disjoint [OF d(2)] hm(1) in auto)
    then show ?thesis unfolding arena_live_wf [OF wf] by (auto simp: user_same_def a3 m1)
  qed
  ultimately show ?thesis using wf3 by blast
qed

lemma free_effect:
  assumes inv: "arena_inv a" and live: "(unat p, k) \<in> arena_live a"
  obtains a' where "blyt_arena_free a (Some p) = Some a'" "release_effect a a' p k"
    "bfree (hdr_at (amem a') (unat (p - HDR_SIZE))) \<noteq> 0"
proof -
  obtain offs fl where wf: "arena_wf a offs fl" using arena_inv_ready [OF inv live_ready [OF live]] by blast
  define h where "h = p - HDR_SIZE"
  define b where "b = hdr_at (amem a) (unat h)"
  define a1 where "a1 = (if bpad b \<noteq> BLK_NOACCT then acct_sub a (bsize b) else a)"
  define a3 where "a3 = (hdr_upd h (\<lambda>b. b\<lparr>bfree := 1, bnext := free_head a1\<rparr>) a1)\<lparr>free_head := h\<rparr>"
  note pe = push_effect [OF wf live h_def b_def a1_def a3_def] and lb = live_block [OF wf live]
  have bf: "bfree b = 0" and bk: "bsize b = of_nat (k + 16)"
    using lb by (simp_all only: b_def h_def) simp
  have res: "blyt_arena_free a (Some p) = coalesce_forward a3 h"
    using bf by (simp add: blyt_arena_free_def Let_def h_def [symmetric] b_def [symmetric] a1_def a3_def)
  have "unat h \<in> set offs" using lb by (simp add: h_def)
  moreover have "h \<in> set (h # fl)" by simp
  then have "bfree (hdr_at (amem a3) (unat h)) \<noteq> 0" using heap_wf_free_mem [OF arena_wfD(1)] pe by blast
  ultimately obtain a' offs' fl' where a': "coalesce_forward a3 h = Some a'" "arena_wf a' offs' fl'"
    "arena_live a' = arena_live a3" "user_same a3 a' (arena_live a3)" "acct a' = acct a3"
    "asize a' = asize a3" "base a' = base a3" "bfree (hdr_at (amem a') (unat h)) \<noteq> 0"
    using coalesce_effect [of a3 offs "h # fl" h] pe by blast
  have "user_same a a' (arena_live a - {(unat p, k)})"
    using pe a' user_same_trans by metis
  moreover have "acct a3 = acct a \<or> acct a3 = acct (acct_sub a (of_nat (k + 16)))"
    "base a3 = base a" "asize a3 = asize a"
    by (simp_all add: a3_def a1_def bk)
  ultimately have "release_effect a a' p k"
    using pe a' arena_wfI_inv [OF a'(2)] unfolding release_effect_def by simp
  with res a' show thesis by (intro that) (auto simp: h_def)
qed

section \<open>Live regions\<close>

lemma arena_inv_ensure_ready [simp]: "arena_inv (ensure_ready a) \<longleftrightarrow> arena_inv a"
  by (simp add: arena_inv_def)

lemma user_same_ensure_ready [simp]: "user_same (ensure_ready a) a' R \<longleftrightarrow> user_same a a' R"
  "user_same a (ensure_ready a') R \<longleftrightarrow> user_same a a' R"
  by (simp_all add: user_same_def)

lemma live_region_facts:
  assumes inv: "arena_inv a" and p: "(p, k) \<in> arena_live a"
  shows "16 dvd p" "16 \<le> p" "16 \<le> k" "p + k \<le> unat (asize a)"
proof -
  obtain offs fl where wf: "arena_wf a offs fl" using arena_inv_ready [OF inv live_ready [OF p]] by blast
  note d = arena_wfD [OF wf]
  obtain x where x: "x \<in> set offs" "p = x + 16" "k = bsz (hdr_at (amem a)) x - 16"
    using p unfolding arena_live_wf [OF wf] by (auto simp: live_of_def)
  with chain_bounds [OF d(2) x(1)] chain_aligned [OF d(2) _ x(1)] d(6)
  show "16 dvd p" "16 \<le> p" "16 \<le> k" "p + k \<le> unat (asize a)" by auto
qed

lemma live_regions_disjoint:
  assumes inv: "arena_inv a" and p: "(p, k) \<in> arena_live a" and q: "(q, l) \<in> arena_live a" and "p \<noteq> q"
  shows "p + k \<le> q \<or> q + l \<le> p"
proof -
  obtain offs fl where wf: "arena_wf a offs fl" using arena_inv_ready [OF inv live_ready [OF p]] by blast
  note d = arena_wfD [OF wf]
  obtain x where x: "x \<in> set offs" "p = x + 16" "k = bsz (hdr_at (amem a)) x - 16"
    using p unfolding arena_live_wf [OF wf] by (auto simp: live_of_def)
  obtain y where y: "y \<in> set offs" "q = y + 16" "l = bsz (hdr_at (amem a)) y - 16"
    using q unfolding arena_live_wf [OF wf] by (auto simp: live_of_def)
  from chain_disjoint [OF d(2) x(1) y(1)] chain_bounds [OF d(2) x(1)] chain_bounds [OF d(2) y(1)] x y assms(4)
  show ?thesis by auto
qed

lemma live_functional:
  assumes "arena_inv a" "(p, k) \<in> arena_live a" "(p, l) \<in> arena_live a"
  shows "k = l"
proof -
  obtain offs fl where "arena_wf a offs fl" using arena_inv_ready live_ready assms by blast
  then show ?thesis using assms(2,3) by (auto simp: arena_live_wf live_of_def)
qed

text \<open>A write of the cart that stays inside one live region.\<close>

definition cart_store :: "blyt_arena \<Rightarrow> nat \<Rightarrow> bytes \<Rightarrow> blyt_arena" where
  "cart_store a i bs = a\<lparr>amem := mem_write (amem a) i bs\<rparr>"

lemma cart_store_effect:
  assumes inv: "arena_inv a" and p: "(p, k) \<in> arena_live a" and i: "p \<le> i" "i + length bs \<le> p + k"
  shows "arena_inv (cart_store a i bs)" "arena_live (cart_store a i bs) = arena_live a"
    "user_same a (cart_store a i bs) (arena_live a - {(p, k)})" "acct (cart_store a i bs) = acct a"
proof -
  obtain offs fl where wf: "arena_wf a offs fl" using arena_inv_ready [OF inv live_ready [OF p]] by blast
  note d = arena_wfD [OF wf]
  have ag: "hdr_at (amem (cart_store a i bs)) x = hdr_at (amem a) x" if "x \<in> set offs" for x
    using live_hdr_disjoint [OF d(2) _ that, of p k] p i unfolding arena_live_wf [OF wf] cart_store_def
    by (auto intro!: hdr_at_write_other)
  have ls: "live_sum (hdr_at (amem (cart_store a i bs))) offs = live_sum (hdr_at (amem a)) offs"
    by (rule live_sum_cong) (simp add: ag)
  have wf': "arena_wf (cart_store a i bs) offs fl"
    using heap_wf_cong [OF d(1) ag] d ls by (auto simp: arena_wf_def cart_store_def word_le_nat_alt)
  then show "arena_inv (cart_store a i bs)" by (rule arena_wfI_inv)
  show "arena_live (cart_store a i bs) = arena_live a"
    unfolding arena_live_wf [OF wf'] arena_live_wf [OF wf] by (rule live_of_cong) (simp add: ag)
  show "acct (cart_store a i bs) = acct a" by (simp add: cart_store_def)
  have "mem_read (amem (cart_store a i bs)) q l = mem_read (amem a) q l"
    if q: "(q, l) \<in> arena_live a" "(q, l) \<noteq> (p, k)" for q l
  proof -
    have "q \<noteq> p" using live_functional [OF inv p] q by auto
    with live_regions_disjoint [OF inv q(1) p] i show ?thesis
      unfolding cart_store_def by (auto intro!: mem_read_write_other)
  qed
  then show "user_same a (cart_store a i bs) (arena_live a - {(p, k)})" by (auto simp: user_same_def)
qed

lemma unat_need_cap: "n \<le> max_request \<Longrightarrow> block_need n \<le> sz \<Longrightarrow> unat n \<le> unat sz - 16"
  using block_need_bounds(3) [of n] by (simp add: word_le_nat_alt)

text \<open>The contract of \<^verbatim>\<open>malloc\<close>, for both accounting modes.\<close>

definition malloc_post :: "blyt_arena \<Rightarrow> nat \<Rightarrow> bool \<Rightarrow> blyt_arena \<Rightarrow> u32 option \<Rightarrow> bool" where
  "malloc_post a n noacct a' r \<longleftrightarrow>
     arena_inv a' \<and> user_same a a' (arena_live a) \<and> asize a' = asize a \<and> base a' = base a \<and>
     (case r of
        None \<Rightarrow> arena_live a' = arena_live a \<and> acct a' = acct a \<and> arena_accounted a' = arena_accounted a
      | Some p \<Rightarrow> \<exists>k. n \<le> k \<and> arena_live a' = insert (unat p, k) (arena_live a) \<and>
          (\<forall>(q, l) \<in> arena_live a. q + l \<le> unat p \<or> unat p + k \<le> q) \<and>
          acct a' = (if noacct then acct a else acct (acct_add a (of_nat (k + 16)))) \<and>
          arena_accounted a' = arena_accounted a + (if noacct then 0 else k + 16) \<and>
          (noacct \<or> cap_allows a (of_nat (k + 16))))"

lemma malloc_core_post:
  assumes inv: "arena_inv a" and n: "n \<le> max_request"
  obtains a' r where "arena_malloc_core a n noacct = Some (a', r)" "malloc_post a (unat n) noacct a' r"
  using inv n
proof (cases rule: malloc_core_cases [where noacct = noacct])
  case (ok a' p sz)
  let ?k = "unat sz - 16"
  from ok(2) have e: "arena_inv a'" "32 \<le> unat sz" "arena_live a' = insert (unat p, ?k) (arena_live a)"
    "unat p \<notin> fst ` arena_live a" "user_same a a' (arena_live a)" "asize a' = asize a" "base a' = base a"
    "acct a' = (if noacct then acct a else acct (acct_add a sz))"
    "arena_accounted a' = arena_accounted a + (if noacct then 0 else unat sz)"
    by (auto simp: alloc_effect_def acct_add_def)
  have "q + l \<le> unat p \<or> unat p + ?k \<le> q" if "(q, l) \<in> arena_live a" for q l
    using that e(4) live_regions_disjoint [OF e(1), of q l "unat p" ?k] by (force simp: e(3))
  moreover have "of_nat (?k + 16) = sz" using e(2) by simp
  ultimately have "malloc_post a (unat n) noacct a' (Some p)"
    using e ok(4) unat_need_cap [OF n ok(3)]
    unfolding malloc_post_def option.case by (intro conjI exI [of _ ?k]) auto
  with ok(1) show ?thesis by (rule that)
qed (use inv in \<open>auto intro!: that simp: malloc_post_def\<close>)

lemma malloc_core_postD:
  assumes "arena_inv a" "n \<le> max_request" "arena_malloc_core a n noacct = Some (a', r)"
  shows "malloc_post a (unat n) noacct a' r"
proof (rule malloc_core_post [OF assms(1,2), of noacct])
  fix b s assume "arena_malloc_core a n noacct = Some (b, s)" "malloc_post a (unat n) noacct b s"
  with assms(3) show ?thesis by simp
qed

lemma malloc_post_cap:
  "malloc_post a n noacct a' (Some p) \<Longrightarrow> \<exists>k. (unat p, k) \<in> arena_live a' \<and> n \<le> k"
  by (auto simp: malloc_post_def)

section \<open>Reallocation, zeroed allocation and reset\<close>

lemma take_mem_read: "k \<le> n \<Longrightarrow> take k (mem_read m p n) = mem_read m p k"
  by (simp add: mem_read_def take_map)

lemma malloc_post_fresh:
  assumes "malloc_post a n noacct a' (Some r)" "(q, k) \<in> arena_live a" "arena_inv a"
  shows "unat r \<noteq> q"
proof -
  obtain l where "(unat r, l) \<in> arena_live a'" and inv: "arena_inv a'"
    and "q + k \<le> unat r \<or> unat r + l \<le> q" using assms(1,2) by (fastforce simp: malloc_post_def)
  then show ?thesis using live_region_facts(3) [OF assms(3,2)] live_region_facts(3) [OF inv] by fastforce
qed

lemma realloc_grow:
  assumes inv: "arena_inv a" and q: "(unat q, k) \<in> arena_live a" and n: "k < unat n"
    and m: "arena_malloc_core a n noacct = Some (a1, Some r)" "malloc_post a (unat n) noacct a1 (Some r)"
  obtains a' k' where "arena_realloc_core a (Some q) n noacct = Some (a', Some r)" "unat n \<le> k'"
    "arena_inv a'" "arena_live a' = insert (unat r, k') (arena_live a - {(unat q, k)})"
    "mem_read (amem a') (unat r) k = mem_read (amem a) (unat q) k"
    "user_same a a' (arena_live a - {(unat q, k)})" "unat r \<noteq> unat q"
proof -
  obtain offs fl where wf: "arena_wf a offs fl" using arena_inv_ready [OF inv live_ready [OF q]] by blast
  note lb = live_block [OF wf q]
  let ?cap = "bsize (hdr_at (amem a) (unat (q - HDR_SIZE))) - HDR_SIZE"
  have cap: "unat ?cap = k" using lb by (simp add: unat_sub_small word_le_nat_alt HDR_SIZE_def)
  obtain k' where k': "unat n \<le> k'" "arena_live a1 = insert (unat r, k') (arena_live a)" "arena_inv a1"
    "user_same a a1 (arena_live a)" using m(2) by (auto simp: malloc_post_def)
  have rq: "unat r \<noteq> unat q" by (rule malloc_post_fresh [OF m(2) q inv])
  define bs where "bs = mem_read (amem a1) (unat q) k"
  define a2 where "a2 = cart_store a1 (unat r) bs"
  have bs: "length bs = k" "bs = mem_read (amem a) (unat q) k"
    using k'(4) q by (auto simp: bs_def user_same_def)
  have "(unat r, k') \<in> arena_live a1" using k' by simp
  note st = cart_store_effect [OF k'(3) this order_refl, of bs, folded a2_def]
  have st': "arena_inv a2" "arena_live a2 = arena_live a1" "user_same a1 a2 (arena_live a1 - {(unat r, k')})"
    using st bs n k'(1) by auto
  obtain a' where a': "blyt_arena_free a2 (Some q) = Some a'" "release_effect a2 a' q k"
    using free_effect [OF st'(1), of q k] q k'(2) st'(2) by blast
  have re: "arena_inv a'" "arena_live a' = arena_live a2 - {(unat q, k)}"
    "user_same a2 a' (arena_live a2 - {(unat q, k)})" using a'(2) by (auto simp: release_effect_def)
  have "n \<noteq> 0" "\<not> n \<le> ?cap" using n cap by (auto simp: word_le_nat_alt)
  then have res: "arena_realloc_core a (Some q) n noacct = Some (a', Some r)"
    using m(1) a'(1) by (simp add: arena_realloc_core_def Let_def cap bs_def a2_def cart_store_def)
  have live: "arena_live a' = insert (unat r, k') (arena_live a - {(unat q, k)})"
    using re(2) st'(2) k'(2) rq by auto
  have "mem_read (amem a') (unat r) k' = mem_read (amem a2) (unat r) k'"
    using re(3) st'(2) k'(2) rq by (auto simp: user_same_def)
  then have "mem_read (amem a') (unat r) k = mem_read (amem a2) (unat r) k"
    using n k'(1) take_mem_read [of k k'] by (metis less_imp_le order_trans)
  then have copy: "mem_read (amem a') (unat r) k = mem_read (amem a) (unat q) k"
    using bs by (simp add: a2_def cart_store_def)
  have "(unat r, k') \<notin> arena_live a"
    using malloc_post_fresh [OF m(2) _ inv] by auto
  then have "user_same a1 a2 (arena_live a)" using st'(3) k'(2) by (auto simp: user_same_def)
  then have "user_same a a2 (arena_live a)" using k'(4) user_same_trans by blast
  moreover have "user_same a2 a' (arena_live a - {(unat q, k)})"
    using re(3) st'(2) k'(2) by (auto simp: user_same_def)
  ultimately have "user_same a a' (arena_live a - {(unat q, k)})"
    using user_same_mono [of a a2 "arena_live a"] user_same_trans by blast
  then show thesis using that [OF res k'(1) re(1) live copy] rq by blast
qed

lemma realloc_core_cases:
  assumes inv: "arena_inv a" and q: "(unat q, k) \<in> arena_live a" and n: "n \<le> max_request"
  obtains (released) a' where "n = 0" "arena_realloc_core a (Some q) n noacct = Some (a', None)" "release_effect a a' q k"
    | (in_place) "n \<noteq> 0" "unat n \<le> k" "arena_realloc_core a (Some q) n noacct = Some (a, Some q)"
    | (failed) "k < unat n" "arena_realloc_core a (Some q) n noacct = Some (a, None)"
    | (moved) a' r k' where "k < unat n" "arena_realloc_core a (Some q) n noacct = Some (a', Some r)" "unat n \<le> k'"
      "arena_inv a'" "arena_live a' = insert (unat r, k') (arena_live a - {(unat q, k)})"
      "mem_read (amem a') (unat r) k = mem_read (amem a) (unat q) k"
      "user_same a a' (arena_live a - {(unat q, k)})"
proof -
  obtain offs fl where wf: "arena_wf a offs fl" using arena_inv_ready [OF inv live_ready [OF q]] by blast
  let ?cap = "bsize (hdr_at (amem a) (unat (q - HDR_SIZE))) - HDR_SIZE"
  have cap: "unat ?cap = k"
    using live_block [OF wf q] by (simp add: unat_sub_small word_le_nat_alt HDR_SIZE_def)
  consider "n = 0" | "n \<noteq> 0" "unat n \<le> k" | "k < unat n" by force
  then show thesis
  proof cases
    case 1
    obtain a' where "blyt_arena_free a (Some q) = Some a'" "release_effect a a' q k" using free_effect [OF inv q] .
    with 1 show thesis by (intro released) (simp_all add: arena_realloc_core_def)
  next
    case 2
    then have "n \<le> ?cap" by (simp add: word_le_nat_alt cap)
    with 2 show thesis by (intro in_place) (simp_all add: arena_realloc_core_def Let_def)
  next
    case 3
    obtain a1 r where m: "arena_malloc_core a n noacct = Some (a1, r)" "malloc_post a (unat n) noacct a1 r"
      using malloc_core_post [OF inv n] .
    show thesis
    proof (cases r)
      case None
      have "ensure_ready a = a" using live_ready [OF q] by (simp add: ensure_ready_id)
      with inv n have "a1 = a"
        by (cases rule: malloc_core_cases [where noacct = noacct]) (use m(1) None in auto)
      moreover have "n \<noteq> 0" "\<not> n \<le> ?cap" using 3 cap by (auto simp: word_le_nat_alt)
      ultimately have "arena_realloc_core a (Some q) n noacct = Some (a, None)"
        using m(1) None by (simp add: arena_realloc_core_def Let_def)
      with 3 show thesis by (rule failed)
    next
      case (Some r')
      then show thesis using realloc_grow [OF inv q 3 m [unfolded Some]] moved [OF 3] by metis
    qed
  qed
qed

lemma calloc_total:
  assumes "\<not> (sz \<noteq> 0 \<and> nmemb > (- 1) div sz)"
  shows "unat (nmemb * sz) = unat nmemb * unat (sz :: u32)"
proof -
  have "unat nmemb * unat sz < 2 ^ 32"
  proof (cases "sz = 0")
    case False
    then have "unat nmemb \<le> unat ((- 1) div sz :: u32)" using assms by (simp add: word_le_nat_alt linorder_not_less)
    also have "\<dots> = (2 ^ 32 - 1) div unat sz" by (simp add: unat_div unsigned_minus_1_eq_mask mask_eq_exp_minus_1)
    finally have "unat nmemb * unat sz \<le> (2 ^ 32 - 1) div unat sz * unat sz" by (rule mult_le_mono1)
    also have "\<dots> \<le> 2 ^ 32 - 1" by (rule div_times_less_eq_dividend)
    finally show ?thesis by simp
  qed simp
  then show ?thesis by (simp add: unat_word_ariths)
qed

lemma reset_effect:
  assumes "base a" "asize a \<noteq> 0"
  shows "arena_inv (blyt_arena_reset a)" "arena_live (blyt_arena_reset a) = {}"
proof -
  have "arena_wf (ensure_ready (blyt_arena_reset a)) [] []"
    using assms by (auto simp: arena_wf_def blyt_arena_reset_def ensure_ready_def heap_wf_def live_sum_def)
  then show "arena_inv (blyt_arena_reset a)" by (auto simp: arena_inv_def)
  show "arena_live (blyt_arena_reset a) = {}" by (simp add: arena_live_def blyt_arena_reset_def)
qed

lemma accounted_used:
  assumes "arena_inv a" "acct a = Some c"
  shows "unat (guest_heap_used c) = arena_accounted a"
proof -
  obtain offs fl where wf: "arena_wf (ensure_ready a) offs fl" using assms by (auto simp: arena_inv_def)
  have "arena_accounted (ensure_ready a) = live_sum (hdr_at (amem a)) offs"
    using arena_accounted_wf [OF wf] by simp
  then show ?thesis using arena_wfD(8) [OF wf] assms(2) by simp
qed

end
