(* ===== verification/Arena_Contract.thy ===== *)
theory Arena_Contract
  imports Arena
begin

text \<open>
  What the heap promises its users.  The guest \<^verbatim>\<open>malloc\<close> family of
  \<^verbatim>\<open>guest/src/libblytc/blytc_arena.c\<close> is modelled here; the interface both heaps implement is the
  locale \<open>region_heap\<close> (fresh disjoint regions, contents kept, release undoes allocation), with
  the client facts proved once and the two heaps as interpretations.  The properties state the
  contract of each arena operation over the operations' own definitions, and the last one is an
  invariant of every sequence of heap operations and cart writes.
\<close>

section \<open>The guest allocator entry points\<close>

record blytc =
  blytc_arena_base :: bool
  blytc_arena_size :: u32
  blytc_arena_ready :: bool
  blyt_mem_acct :: blyt_mem_accounting
  g_arena :: blyt_arena

text \<open>
  \<^verbatim>\<open>g_arena.acct\<close> points to \<^verbatim>\<open>blyt_mem_acct\<close>: the block is copied into the arena state on entry
  and back after the operation.
\<close>

definition acct_back :: "blyt_arena \<Rightarrow> blytc \<Rightarrow> blytc" where
  "acct_back g s = s\<lparr>g_arena := g, blyt_mem_acct := (case acct g of Some c \<Rightarrow> c | None \<Rightarrow> blyt_mem_acct s)\<rparr>"

definition blytc_arena :: "blytc \<Rightarrow> blytc" where
  "blytc_arena s =
     (let g = (g_arena s)\<lparr>base := blytc_arena_base s, asize := blytc_arena_size s, acct := Some (blyt_mem_acct s)\<rparr>
      in if \<not> blytc_arena_ready s
         then (acct_back (blyt_arena_reset g) s)\<lparr>blytc_arena_ready := True\<rparr>
         else acct_back g s)"

definition blytc_malloc :: "blytc \<Rightarrow> u32 \<Rightarrow> (blytc \<times> u32 option) option" where
  "blytc_malloc s n = (let s1 = blytc_arena s
     in map_option (\<lambda>(g, r). (acct_back g s1, r)) (blyt_arena_malloc (g_arena s1) n))"

definition blytc_free :: "blytc \<Rightarrow> u32 option \<Rightarrow> blytc option" where
  "blytc_free s p = (let s1 = blytc_arena s
     in map_option (\<lambda>g. acct_back g s1) (blyt_arena_free (g_arena s1) p))"

definition blytc_realloc :: "blytc \<Rightarrow> u32 option \<Rightarrow> u32 \<Rightarrow> (blytc \<times> u32 option) option" where
  "blytc_realloc s p n = (let s1 = blytc_arena s
     in map_option (\<lambda>(g, r). (acct_back g s1, r)) (blyt_arena_realloc (g_arena s1) p n))"

definition blytc_calloc :: "blytc \<Rightarrow> u32 \<Rightarrow> u32 \<Rightarrow> (blytc \<times> u32 option) option" where
  "blytc_calloc s nmemb sz = (let s1 = blytc_arena s
     in map_option (\<lambda>(g, r). (acct_back g s1, r)) (blyt_arena_calloc (g_arena s1) nmemb sz))"

definition aligned_alloc :: "blytc \<Rightarrow> u32 \<Rightarrow> u32 \<Rightarrow> (blytc \<times> u32 option) option" where
  "aligned_alloc s alignment n = (if alignment > 16 then Some (s, None) else blytc_malloc s n)"

definition blytc_heap :: "blytc \<Rightarrow> blyt_arena" where
  "blytc_heap s = g_arena (blytc_arena s)"

lemma blytc_heap_back:
  assumes "acct g \<noteq> None" "base g = base (blytc_heap s)" "asize g = asize (blytc_heap s)"
  shows "blytc_heap (acct_back g (blytc_arena s)) = g"
proof -
  have s1: "blytc_arena_ready (blytc_arena s)" "blytc_arena_base (blytc_arena s) = base (blytc_heap s)"
    "blytc_arena_size (blytc_arena s) = asize (blytc_heap s)"
    by (simp_all add: blytc_heap_def blytc_arena_def acct_back_def Let_def blyt_arena_reset_def)
  have "g_arena (blytc_arena (acct_back g s1)) = g"
    if "blytc_arena_ready s1" "blytc_arena_base s1 = base g" "blytc_arena_size s1 = asize g" for s1
    using that assms(1) by (cases g) (auto simp: blytc_arena_def acct_back_def Let_def)
  from this [of "blytc_arena s"] s1 assms show ?thesis by (simp add: blytc_heap_def)
qed

lemma blytc_heap_acct: "acct (blytc_heap s) \<noteq> None"
  by (simp add: blytc_heap_def blytc_arena_def acct_back_def Let_def blyt_arena_reset_def)

section \<open>The interface\<close>

text \<open>Allocation of a list of sizes, one after the other.\<close>

primrec alloc_all :: "('h \<Rightarrow> u32 \<Rightarrow> ('h \<times> u32 option) option) \<Rightarrow> u32 list \<Rightarrow> 'h \<Rightarrow> ('h \<times> u32 option list) option" where
  "alloc_all alloc [] h = Some (h, [])"
| "alloc_all alloc (n # ns) h = (case alloc h n of None \<Rightarrow> None
     | Some (h1, r) \<Rightarrow> map_option (\<lambda>(h2, rs). (h2, r # rs)) (alloc_all alloc ns h1))"

locale region_heap =
  fixes inv :: "'h \<Rightarrow> bool"
    and live :: "'h \<Rightarrow> (nat \<times> nat) set"
    and contents :: "'h \<Rightarrow> nat \<Rightarrow> nat \<Rightarrow> bytes"
    and alloc :: "'h \<Rightarrow> u32 \<Rightarrow> ('h \<times> u32 option) option"
    and release :: "'h \<Rightarrow> u32 option \<Rightarrow> 'h option"
  assumes disjoint: "inv h \<Longrightarrow> (p, k) \<in> live h \<Longrightarrow> (q, l) \<in> live h \<Longrightarrow> p \<noteq> q \<Longrightarrow> p + k \<le> q \<or> q + l \<le> p"
    and alloc: "inv h \<Longrightarrow> n \<le> max_request \<Longrightarrow> \<exists>h' r. alloc h n = Some (h', r) \<and> inv h' \<and>
      (\<forall>(p, k) \<in> live h. contents h' p k = contents h p k) \<and>
      (case r of None \<Rightarrow> live h' = live h
       | Some p \<Rightarrow> \<exists>k \<ge> unat n. unat p \<notin> fst ` live h \<and> live h' = insert (unat p, k) (live h))"
    and release: "inv h \<Longrightarrow> (unat x, k) \<in> live h \<Longrightarrow> \<exists>h'. release h (Some x) = Some h' \<and> inv h' \<and>
      live h' = live h - {(unat x, k)} \<and>
      (\<forall>(q, l) \<in> live h - {(unat x, k)}. contents h' q l = contents h q l)"
begin

lemma alloc_release:
  assumes "inv h" "n \<le> max_request" "alloc h n = Some (h1, Some p)"
  shows "\<exists>h2. release h1 (Some p) = Some h2 \<and> inv h2 \<and> live h2 = live h \<and>
    (\<forall>(q, l) \<in> live h. contents h2 q l = contents h q l)"
proof -
  from alloc [OF assms(1,2)] assms(3) obtain k where h1: "inv h1" "unat p \<notin> fst ` live h"
    "live h1 = insert (unat p, k) (live h)" "\<forall>(q, l) \<in> live h. contents h1 q l = contents h q l" by auto
  then have nl: "(unat p, k) \<notin> live h" by force
  obtain h2 where "release h1 (Some p) = Some h2" "inv h2" "live h2 = live h1 - {(unat p, k)}"
    "\<forall>(q, l) \<in> live h1 - {(unat p, k)}. contents h2 q l = contents h1 q l"
    using release [OF h1(1), of p k] h1(3) by auto
  then show ?thesis using h1 nl by (intro exI [of _ h2]) fastforce
qed

lemma alloc_all_regions:
  assumes "inv h" "\<forall>n \<in> set ns. n \<le> max_request"
  shows "\<exists>h' rs. alloc_all alloc ns h = Some (h', rs) \<and> inv h' \<and> live h \<subseteq> live h' \<and> length rs = length ns \<and>
    (\<forall>(p, k) \<in> live h. contents h' p k = contents h p k) \<and>
    distinct (map the (filter (\<lambda>r. r \<noteq> None) rs)) \<and>
    (\<forall>i < length ns. \<forall>p. rs ! i = Some p \<longrightarrow> unat p \<notin> fst ` live h \<and> (\<exists>k \<ge> unat (ns ! i). (unat p, k) \<in> live h'))"
  using assms
proof (induction ns arbitrary: h)
  case (Cons n ns)
  from alloc [OF Cons.prems(1), of n] Cons.prems(2) obtain h1 r where
    h1: "alloc h n = Some (h1, r)" "inv h1" "\<forall>(p, k) \<in> live h. contents h1 p k = contents h p k"
    and r: "case r of None \<Rightarrow> live h1 = live h
      | Some p \<Rightarrow> \<exists>k \<ge> unat n. unat p \<notin> fst ` live h \<and> live h1 = insert (unat p, k) (live h)" by auto
  from Cons.IH [OF h1(2)] Cons.prems(2) obtain h' rs where
    ih: "alloc_all alloc ns h1 = Some (h', rs)" "inv h'" "live h1 \<subseteq> live h'" "length rs = length ns"
    "\<forall>(p, k) \<in> live h1. contents h' p k = contents h1 p k" "distinct (map the (filter (\<lambda>r. r \<noteq> None) rs))"
    "\<forall>i < length ns. \<forall>p. rs ! i = Some p \<longrightarrow>
       unat p \<notin> fst ` live h1 \<and> (\<exists>k \<ge> unat (ns ! i). (unat p, k) \<in> live h')" by auto
  have sub: "live h \<subseteq> live h1" using r by (auto split: option.splits)
  have new: "\<exists>k \<ge> unat n. (unat p, k) \<in> live h'" "unat p \<notin> fst ` live h" "Some p \<notin> set rs" if rp: "r = Some p" for p
  proof -
    obtain k where k: "k \<ge> unat n" "unat p \<notin> fst ` live h" "live h1 = insert (unat p, k) (live h)" using r rp by auto
    then show "\<exists>k \<ge> unat n. (unat p, k) \<in> live h'" "unat p \<notin> fst ` live h" using ih(3) by auto
    have "unat p \<in> fst ` live h1" using k(3) by simp
    with ih(4,7) show "Some p \<notin> set rs" by (metis in_set_conv_nth)
  qed
  have "unat p \<notin> fst ` live h \<and> (\<exists>k \<ge> unat ((n # ns) ! i). (unat p, k) \<in> live h')"
    if "i < length (n # ns)" "(r # rs) ! i = Some p" for i p
  proof (cases i)
    case 0
    then show ?thesis using that new(1,2) by simp
  next
    case (Suc j)
    have "fst ` live h \<subseteq> fst ` live h1" using sub by (rule image_mono)
    with Suc show ?thesis using that ih(7) by auto
  qed
  moreover have "distinct (map the (filter (\<lambda>r. r \<noteq> None) (r # rs)))"
    using ih(6) new(3) by (cases r) (auto simp: image_iff)
  moreover have "\<forall>(p, k) \<in> live h. contents h' p k = contents h p k"
    using ih(5) h1(3) sub by fastforce
  ultimately show ?case using ih h1 sub by (intro exI [of _ h'] exI [of _ "r # rs"]) auto
qed simp

end

abbreviation arena_contents :: "blyt_arena \<Rightarrow> nat \<Rightarrow> nat \<Rightarrow> bytes" where
  "arena_contents a \<equiv> mem_read (amem a)"

lemma malloc_core_region:
  assumes "arena_inv a" "n \<le> max_request"
  shows "\<exists>a' r. arena_malloc_core a n noacct = Some (a', r) \<and> arena_inv a' \<and>
      (\<forall>(p, k) \<in> arena_live a. arena_contents a' p k = arena_contents a p k) \<and>
      (case r of None \<Rightarrow> arena_live a' = arena_live a
       | Some p \<Rightarrow> \<exists>k \<ge> unat n. unat p \<notin> fst ` arena_live a \<and> arena_live a' = insert (unat p, k) (arena_live a))"
proof -
  obtain a' r where m: "arena_malloc_core a n noacct = Some (a', r)" "malloc_post a (unat n) noacct a' r"
    using malloc_core_post [OF assms] .
  have "unat p \<notin> fst ` arena_live a" if "r = Some p" for p
    using malloc_post_fresh [OF m(2) [unfolded that] _ assms(1)] by force
  with m show ?thesis by (auto simp: malloc_post_def user_same_def split: option.splits)
qed

lemma free_region:
  assumes "arena_inv a" "(unat p, k) \<in> arena_live a"
  shows "\<exists>a'. blyt_arena_free a (Some p) = Some a' \<and> arena_inv a' \<and> arena_live a' = arena_live a - {(unat p, k)} \<and>
      (\<forall>(q, l) \<in> arena_live a - {(unat p, k)}. arena_contents a' q l = arena_contents a q l)"
proof (rule free_effect [OF assms])
  fix a' assume "blyt_arena_free a (Some p) = Some a'" "release_effect a a' p k"
  then show ?thesis by (auto simp: release_effect_def user_same_def)
qed

interpretation arena: region_heap arena_inv arena_live arena_contents blyt_arena_malloc blyt_arena_free
  by (unfold_locales, erule (3) live_regions_disjoint, unfold blyt_arena_malloc_def,
      erule (1) malloc_core_region, erule (1) free_region)

interpretation scratch: region_heap arena_inv arena_live arena_contents blyt_arena_malloc_noacct blyt_arena_free
  by (unfold_locales, erule (3) live_regions_disjoint, unfold blyt_arena_malloc_noacct_def,
      erule (1) malloc_core_region, erule (1) free_region)

lemma blytc_malloc_region:
  assumes "arena_inv (blytc_heap s)" "n \<le> max_request"
  shows "\<exists>s' r. blytc_malloc s n = Some (s', r) \<and> arena_malloc_core (blytc_heap s) n False = Some (blytc_heap s', r)"
proof -
  obtain a' r where m: "arena_malloc_core (blytc_heap s) n False = Some (a', r)"
    "malloc_post (blytc_heap s) (unat n) False a' r" using malloc_core_post [OF assms] .
  have "blytc_heap (acct_back a' (blytc_arena s)) = a'"
    using m(2) blytc_heap_acct [of s] by (intro blytc_heap_back)
      (auto simp: malloc_post_def acct_add_def split: option.splits)
  with m show ?thesis by (auto simp: blytc_malloc_def blyt_arena_malloc_def blytc_heap_def Let_def)
qed

lemma blytc_free_region:
  assumes "arena_inv (blytc_heap s)" "(unat p, k) \<in> arena_live (blytc_heap s)"
  shows "\<exists>s'. blytc_free s (Some p) = Some s' \<and> blyt_arena_free (blytc_heap s) (Some p) = Some (blytc_heap s')"
proof (rule free_effect [OF assms])
  fix a' assume m: "blyt_arena_free (blytc_heap s) (Some p) = Some a'" "release_effect (blytc_heap s) a' p k"
  have "blytc_heap (acct_back a' (blytc_arena s)) = a'"
    using m(2) blytc_heap_acct [of s] by (intro blytc_heap_back) (auto simp: release_effect_def acct_sub_def)
  with m show ?thesis by (auto simp: blytc_free_def blytc_heap_def Let_def)
qed

interpretation guest: region_heap "\<lambda>s. arena_inv (blytc_heap s)" "\<lambda>s. arena_live (blytc_heap s)"
    "\<lambda>s. arena_contents (blytc_heap s)" blytc_malloc blytc_free
proof (unfold_locales, erule (3) live_regions_disjoint)
  fix s n assume a: "arena_inv (blytc_heap s)" "n \<le> max_request"
  from blytc_malloc_region [OF a] malloc_core_region [OF a, of False]
  show "\<exists>s' r. blytc_malloc s n = Some (s', r) \<and> arena_inv (blytc_heap s') \<and>
      (\<forall>(p, k) \<in> arena_live (blytc_heap s). arena_contents (blytc_heap s') p k = arena_contents (blytc_heap s) p k) \<and>
      (case r of None \<Rightarrow> arena_live (blytc_heap s') = arena_live (blytc_heap s)
       | Some p \<Rightarrow> \<exists>k \<ge> unat n. unat p \<notin> fst ` arena_live (blytc_heap s) \<and>
           arena_live (blytc_heap s') = insert (unat p, k) (arena_live (blytc_heap s)))"
    by (elim exE conjE) simp
next
  fix s and p :: u32 and k assume a: "arena_inv (blytc_heap s)" "(unat p, k) \<in> arena_live (blytc_heap s)"
  from blytc_free_region [OF a] free_region [OF a]
  show "\<exists>s'. blytc_free s (Some p) = Some s' \<and> arena_inv (blytc_heap s') \<and>
      arena_live (blytc_heap s') = arena_live (blytc_heap s) - {(unat p, k)} \<and>
      (\<forall>(q, l) \<in> arena_live (blytc_heap s) - {(unat p, k)}.
         arena_contents (blytc_heap s') q l = arena_contents (blytc_heap s) q l)"
    by (elim exE conjE) simp
qed

section \<open>Properties of the arena\<close>

text \<open>A 4 KiB arena before its first use, for the concrete instances below.\<close>

definition fresh_arena :: blyt_arena where
  "fresh_arena = \<lparr>base = True, asize = 4096, bump = 0, free_head = 0, ready = False,
     acct = Some \<lparr>guest_heap_used = 0, non_evictable_footprint = 0, resource_cache_used = 0, guest_heap_baseline = 0\<rparr>,
     amem = (\<lambda>_. 0)\<rparr>"

lemma fresh_arena_inv: "arena_inv fresh_arena"
proof -
  have "arena_wf (ensure_ready fresh_arena) [] []"
    by (simp add: arena_wf_def fresh_arena_def ensure_ready_def heap_wf_def live_sum_def)
  then show ?thesis by (auto simp: arena_inv_def)
qed

definition one_block :: blyt_arena where
  "one_block = (case blyt_arena_malloc fresh_arena 24 of Some (a, _) \<Rightarrow> a | None \<Rightarrow> fresh_arena)"

lemma one_block_live: "arena_inv one_block" "(unat (16 :: u32), 32) \<in> arena_live one_block" "arena_live one_block = {(16, 32)}"
proof -
  have "(24 :: u32) \<le> max_request" by simp
  from malloc_core_region [OF fresh_arena_inv this, of False] show "arena_inv one_block"
    by (auto simp: one_block_def blyt_arena_malloc_def)
  show "arena_live one_block = {(16, 32)}" by code_simp
  then show "(unat (16 :: u32), 32) \<in> arena_live one_block" by simp
qed







text \<open>
  C1: releasing a live pointer always returns, removes exactly its region and leaves every other
  region with its contents; a second release of the same pointer right after is ignored.
\<close>

theorem arena_free_correct:
  assumes "arena_inv a" "(unat p, k) \<in> arena_live a"
  shows "\<exists>a'. blyt_arena_free a (Some p) = Some a' \<and> arena_inv a' \<and>
    arena_live a' = arena_live a - {(unat p, k)} \<and>
    (\<forall>(q, l) \<in> arena_live a'. arena_contents a' q l = arena_contents a q l) \<and>
    blyt_arena_free a' (Some p) = Some a'"
proof (rule free_effect [OF assms])
  fix a' assume a': "blyt_arena_free a (Some p) = Some a'" "release_effect a a' p k"
    "bfree (hdr_at (amem a') (unat (p - HDR_SIZE))) \<noteq> 0"
  then have "blyt_arena_free a' (Some p) = Some a'" by (simp add: blyt_arena_free_def Let_def)
  with a' show ?thesis by (intro exI [of _ a']) (auto simp: release_effect_def user_same_def)
qed

theorem arena_free_correct_witness:
  "arena_inv one_block \<and> (\<exists>a'. blyt_arena_free one_block (Some 16) = Some a' \<and> arena_live a' = {})"
  using arena_free_correct [OF one_block_live(1,2)] one_block_live by auto






definition fresh_guest :: blytc where
  "fresh_guest = \<lparr>blytc_arena_base = True, blytc_arena_size = 4096, blytc_arena_ready = False,
     blyt_mem_acct = \<lparr>guest_heap_used = 0, non_evictable_footprint = 0, resource_cache_used = 0, guest_heap_baseline = 0\<rparr>,
     g_arena = fresh_arena\<rparr>"

lemma fresh_guest_inv: "arena_inv (blytc_heap fresh_guest)"
proof -
  have "blytc_heap fresh_guest = blyt_arena_reset fresh_arena"
    by (simp add: blytc_heap_def blytc_arena_def fresh_guest_def acct_back_def Let_def fresh_arena_def blyt_arena_reset_def)
  then show ?thesis using reset_effect(1) [of fresh_arena] by (simp add: fresh_arena_def)
qed


section \<open>Sequences of heap operations\<close>

text \<open>
  One step of a heap in use: an operation of the allocator on pointers the client may pass, a
  hot-swap reset, or a write of the client inside a live region.
\<close>

inductive arena_step :: "blyt_arena \<Rightarrow> blyt_arena \<Rightarrow> bool" where
  step_malloc: "n \<le> max_request \<Longrightarrow> arena_malloc_core a n noacct = Some (a', r) \<Longrightarrow> arena_step a a'"
| step_free: "(unat p, k) \<in> arena_live a \<Longrightarrow> blyt_arena_free a (Some p) = Some a' \<Longrightarrow> arena_step a a'"
| step_realloc: "(unat p, k) \<in> arena_live a \<Longrightarrow> n \<le> max_request \<Longrightarrow>
    arena_realloc_core a (Some p) n noacct = Some (a', r) \<Longrightarrow> arena_step a a'"
| step_store: "(p, k) \<in> arena_live a \<Longrightarrow> p \<le> i \<Longrightarrow> i + length bs \<le> p + k \<Longrightarrow> arena_step a (cart_store a i bs)"
| step_reset: "arena_step a (blyt_arena_reset a)"

lemma arena_inv_base: "arena_inv a \<Longrightarrow> base a \<and> asize a \<noteq> 0"
  by (auto simp: arena_inv_def arena_wf_def)

lemma arena_step_inv:
  assumes "arena_step a a'" "arena_inv a"
  shows "arena_inv a'"
  using assms
proof (cases rule: arena_step.cases)
  case (step_malloc n noacct r)
  then show ?thesis using malloc_core_postD assms(2) by (auto simp: malloc_post_def)
next
  case (step_free p k)
  then show ?thesis using free_region assms(2) by fastforce
next
  case (step_realloc p k n noacct r)
  note s = step_realloc
  from assms(2) s(1,2) show ?thesis
    by (cases rule: realloc_core_cases [where noacct = noacct])
      (use s(3) assms(2) in \<open>auto simp: release_effect_def\<close>)
next
  case (step_store p k i bs)
  then show ?thesis using cart_store_effect(1) assms(2) by auto
next
  case step_reset
  then show ?thesis using reset_effect(1) arena_inv_base [OF assms(2)] by auto
qed

lemma arena_steps_inv: "arena_step\<^sup>*\<^sup>* a a' \<Longrightarrow> arena_inv a \<Longrightarrow> arena_inv a'"
  by (induction rule: rtranclp_induct) (auto intro: arena_step_inv)



text \<open>
  Requests above \<open>max_request\<close> are rounded up with wrap-around: asking for \<open>2 ^ 32 - 1\<close> bytes
  succeeds with a block whose user area is empty.
\<close>

lemma malloc_huge_request_wraps:
  "\<exists>a'. blyt_arena_malloc fresh_arena 0xFFFFFFFF = Some (a', Some 16) \<and> arena_live a' = {(16, 0)}"
proof -
  have "map_option (\<lambda>(a, r). (r, arena_live a)) (blyt_arena_malloc fresh_arena 0xFFFFFFFF) = Some (Some 16, {(16, 0)})"
    by code_simp
  then show ?thesis by auto
qed

end
