(* ===== verification/Blys.thy ===== *)
theory Blys
  imports Blyt_Prelude
begin

text \<open>
  The BLYS save format (\<^verbatim>\<open>runtime/shared/blyt_blys.c\<close>, \<^verbatim>\<open>blyt_blys.h\<close>).  The byte sink and source
  callbacks are arguments, as in the C code: a sink takes a chunk and returns a status and its new
  state, a source is asked for \<open>n\<close> bytes and returns a status, the bytes it stored into the
  caller's array (all \<open>n\<close> of them on success, possibly some on failure) and its new state.
  The locale \<open>byte_source\<close> holds the documented contract of a source; the reader is total and
  inverts the writer on every implementation of it.
\<close>

section \<open>Scalars\<close>

definition put_u16 :: "u16 \<Rightarrow> bytes" where
  "put_u16 v = [ucast (v AND 0xff), ucast (drop_bit 8 v AND 0xff)]"

definition put_u32 :: "u32 \<Rightarrow> bytes" where
  "put_u32 v = [ucast (v AND 0xff), ucast (drop_bit 8 v AND 0xff),
                ucast (drop_bit 16 v AND 0xff), ucast (drop_bit 24 v AND 0xff)]"

primrec put_u64_loop :: "nat \<Rightarrow> u64 \<Rightarrow> bytes" where
  "put_u64_loop 0 v = []"
| "put_u64_loop (Suc i) v = ucast (v AND 0xff) # put_u64_loop i (drop_bit 8 v)"

definition put_u64 :: "u64 \<Rightarrow> bytes" where
  "put_u64 v = put_u64_loop 8 v"

definition get_u16 :: "bytes \<Rightarrow> u16" where
  "get_u16 p = ucast (p ! 0) OR push_bit 8 (ucast (p ! 1))"

definition get_u32 :: "bytes \<Rightarrow> u32" where
  "get_u32 p = ucast (p ! 0) OR push_bit 8 (ucast (p ! 1)) OR push_bit 16 (ucast (p ! 2)) OR push_bit 24 (ucast (p ! 3))"

definition get_u64 :: "bytes \<Rightarrow> u64" where
  "get_u64 p = fold (\<lambda>i v. push_bit 8 v OR ucast (p ! i)) [7, 6, 5, 4, 3, 2, 1, 0] 0"

section \<open>The format\<close>

definition BLYS_MAGIC :: bytes where "BLYS_MAGIC = [0x42, 0x4C, 0x59, 0x53]"
definition BLYS_SECT_CART :: bytes where "BLYS_SECT_CART = [0x43, 0x41, 0x52, 0x54]"
definition BLYS_FORMAT_VERSION_MAJOR :: u16 where "BLYS_FORMAT_VERSION_MAJOR = 1"
definition BLYS_FORMAT_VERSION_MINOR :: u16 where "BLYS_FORMAT_VERSION_MINOR = 1"
definition BLYS_SLOT_BITSET_BYTES :: nat where "BLYS_SLOT_BITSET_BYTES = 16"
definition BLYS_SLOT_GENS_BYTES :: nat where "BLYS_SLOT_GENS_BYTES = 256"
definition BLYS_OK :: int where "BLYS_OK = 0"
definition BLYS_ERR_IO :: int where "BLYS_ERR_IO = - 1"
definition BLYS_ERR_SCHEMA :: int where "BLYS_ERR_SCHEMA = - 2"

record blys_header =
  h_schema_hash :: u64
  h_save_version :: u32

record blys_buffer =
  bname :: bytes
  name_len :: u32
  field_types :: "u8 list"
  bcount :: u32
  field_data :: "bytes list"
  slot_bitset :: bytes
  slot_gens :: bytes

definition blys_field_width :: "u8 \<Rightarrow> u32" where
  "blys_field_width t =
     (if t = 0 \<or> t = 1 \<or> t = 7 then 1 else if t = 2 \<or> t = 3 then 2 else if t = 8 then 8 else 4)"

definition blys_buffer_payload_size :: "blys_buffer \<Rightarrow> u32" where
  "blys_buffer_payload_size b =
     fold (\<lambda>t payload. payload + bcount b * blys_field_width t) (field_types b) (4 + name_len b)
       + of_nat BLYS_SLOT_BITSET_BYTES + of_nat BLYS_SLOT_GENS_BYTES"

section \<open>Writing\<close>

type_synonym 'c blys_write_fn = "'c \<Rightarrow> bytes \<Rightarrow> int \<times> 'c"
type_synonym 'c blys_read_fn = "'c \<Rightarrow> nat \<Rightarrow> int \<times> bytes \<times> 'c"

text \<open>The chunks handed to the sink for the header and for one buffer, in order.\<close>

definition header_chunk :: "blys_header \<Rightarrow> bytes" where
  "header_chunk hdr = BLYS_MAGIC @ put_u16 BLYS_FORMAT_VERSION_MAJOR @ put_u16 BLYS_FORMAT_VERSION_MINOR
     @ put_u64 (h_schema_hash hdr) @ put_u32 (h_save_version hdr)"

definition field_chunks :: "u32 \<Rightarrow> (u8 \<times> bytes) list \<Rightarrow> bytes list" where
  "field_chunks cnt fs =
     [take (unat (cnt * blys_field_width t)) d. (t, d) \<leftarrow> fs, cnt * blys_field_width t \<noteq> 0]"

definition buffer_chunks :: "blys_buffer \<Rightarrow> bytes list" where
  "buffer_chunks b =
     [BLYS_SECT_CART @ put_u32 (blys_buffer_payload_size b), put_u32 (name_len b)]
     @ (if name_len b \<noteq> 0 then [take (unat (name_len b)) (bname b)] else [])
     @ field_chunks (bcount b) (zip (field_types b) (field_data b))
     @ [take BLYS_SLOT_BITSET_BYTES (slot_bitset b), take BLYS_SLOT_GENS_BYTES (slot_gens b)]"

primrec sink_all :: "'c blys_write_fn \<Rightarrow> 'c \<Rightarrow> bytes list \<Rightarrow> int \<times> 'c" where
  "sink_all sink c [] = (BLYS_OK, c)"
| "sink_all sink c (x # xs) =
     (let (r, c1) = sink c x in if r < 0 then (BLYS_ERR_IO, c1) else sink_all sink c1 xs)"

definition blys_write :: "blys_header \<Rightarrow> blys_buffer list \<Rightarrow> 'c blys_write_fn \<Rightarrow> 'c \<Rightarrow> int \<times> 'c" where
  "blys_write hdr bufs sink c = sink_all sink c (header_chunk hdr # concat (map buffer_chunks bufs))"

section \<open>Reading\<close>

function skip_bytes :: "'c blys_read_fn \<Rightarrow> 'c \<Rightarrow> u32 \<Rightarrow> int \<times> 'c" where
  "skip_bytes source c n =
     (if n > 0 then
        let chunk = (if n > 256 then 256 else n); (r, _, c1) = source c (unat chunk)
        in if r \<noteq> 0 then (BLYS_ERR_IO, c1) else skip_bytes source c1 (n - chunk)
      else (BLYS_OK, c))"
  by auto
termination
proof (relation "measure (\<lambda>(source, c, n). unat n)")
  fix source :: "'c blys_read_fn" and c c1 :: 'c and n chunk :: u32
  assume "0 < n" "chunk = (if 256 < n then 256 else n)"
  then have "0 < unat chunk" "chunk \<le> n" by (auto simp: word_less_nat_alt word_le_nat_alt)
  then have "unat (n - chunk) < unat n" by (simp add: unat_sub_small word_le_nat_alt)
  then show "((source, c1, n - chunk), source, c, n) \<in> measure (\<lambda>(source, c, n). unat n)" by simp
qed simp
declare skip_bytes.simps [simp del]

definition name_eq :: "blys_buffer \<Rightarrow> bytes \<Rightarrow> u32 \<Rightarrow> bool" where
  "name_eq b name nlen \<longleftrightarrow> name_len b = nlen \<and> take (unat nlen) (bname b) = take (unat nlen) name"

text \<open>The loop over the fields: the arrays in order, each overwritten from its start.\<close>

fun read_fields :: "'c blys_read_fn \<Rightarrow> 'c \<Rightarrow> u32 \<Rightarrow> u8 list \<Rightarrow> bytes list \<Rightarrow> int \<times> bytes list \<times> 'c" where
  "read_fields source c cnt (t # ts) (d # ds) =
     (let n = cnt * blys_field_width t
      in if n = 0 then
           let (r, ds', c') = read_fields source c cnt ts ds in (r, d # ds', c')
         else
           let (r, got, c1) = source c (unat n)
           in if r \<noteq> 0 then (BLYS_ERR_IO, splice 0 got d # ds, c1)
              else let (r, ds', c') = read_fields source c1 cnt ts ds in (r, splice 0 got d # ds', c'))"
| "read_fields source c cnt ts ds = (BLYS_OK, ds, c)"

definition read_buffer :: "'c blys_read_fn \<Rightarrow> 'c \<Rightarrow> blys_buffer \<Rightarrow> int \<times> blys_buffer \<times> 'c" where
  "read_buffer source c b =
     (let (r, ds, c1) = read_fields source c (bcount b) (field_types b) (field_data b);
          b1 = b\<lparr>field_data := ds\<rparr>
      in if r \<noteq> 0 then (BLYS_ERR_IO, b1, c1)
         else
           let (r2, bits, c2) = source c1 BLYS_SLOT_BITSET_BYTES;
               b2 = b1\<lparr>slot_bitset := splice 0 bits (slot_bitset b1)\<rparr>
           in if r2 \<noteq> 0 then (BLYS_ERR_IO, b2, c2)
              else
                let (r3, gens, c3) = source c2 BLYS_SLOT_GENS_BYTES;
                    b3 = b2\<lparr>slot_gens := splice 0 gens (slot_gens b2)\<rparr>
                in if r3 \<noteq> 0 then (BLYS_ERR_IO, b3, c3) else (BLYS_OK, b3, c3))"

fun match_buffer :: "blys_buffer list \<Rightarrow> bytes \<Rightarrow> u32 \<Rightarrow> nat option" where
  "match_buffer [] name nlen = None"
| "match_buffer (b # bs) name nlen = (if name_eq b name nlen then Some 0 else map_option Suc (match_buffer bs name nlen))"

text \<open>The body of a CART section, after its tag and size have been read.\<close>

definition read_cart :: "'c blys_read_fn \<Rightarrow> 'c \<Rightarrow> blys_buffer list \<Rightarrow> u32 \<Rightarrow> int \<times> blys_buffer list \<times> 'c" where
  "read_cart source c bufs payload =
     (let (r, nl, c1) = source c 4
      in if r \<noteq> 0 then (BLYS_ERR_IO, bufs, c1)
         else
           let nlen = get_u32 nl
           in if nlen \<ge> 256 then (BLYS_ERR_IO, bufs, c1)
              else
                let (r2, name, c2) = (if nlen \<noteq> 0 then source c1 (unat nlen) else (0, [], c1))
                in if r2 \<noteq> 0 then (BLYS_ERR_IO, bufs, c2)
                   else case match_buffer bufs name nlen of
                     None \<Rightarrow>
                       let (r3, c3) = skip_bytes source c2 (payload - 4 - nlen)
                       in if r3 \<noteq> 0 then (BLYS_ERR_IO, bufs, c3) else (BLYS_OK, bufs, c3)
                   | Some i \<Rightarrow>
                       let (r3, b, c3) = read_buffer source c2 (bufs ! i) in (r3, bufs[i := b], c3))"

partial_function (option) read_sections ::
    "'c blys_read_fn \<Rightarrow> 'c \<Rightarrow> blys_buffer list \<Rightarrow> (int \<times> blys_buffer list \<times> 'c) option" where
  "read_sections source c bufs =
     (let (r, sect, c1) = source c 8
      in if r = 1 then Some (BLYS_OK, bufs, c1)
         else if r \<noteq> 0 then Some (BLYS_ERR_IO, bufs, c1)
         else
           let payload = get_u32 (drop 4 sect)
           in if take 4 sect \<noteq> BLYS_SECT_CART then
                let (r2, c2) = skip_bytes source c1 payload
                in if r2 \<noteq> 0 then Some (BLYS_ERR_IO, bufs, c2) else read_sections source c2 bufs
              else
                let (r2, bufs2, c2) = read_cart source c1 bufs payload
                in if r2 \<noteq> 0 then Some (BLYS_ERR_IO, bufs2, c2) else read_sections source c2 bufs2)"
declare read_sections.simps [code]

text \<open>Result: the status, \<^verbatim>\<open>*out_save_version\<close>, the buffers and the source.\<close>

definition blys_read ::
    "u64 \<Rightarrow> blys_buffer list \<Rightarrow> 'c blys_read_fn \<Rightarrow> 'c \<Rightarrow> (int \<times> u32 \<times> blys_buffer list \<times> 'c) option" where
  "blys_read expect_schema_hash bufs source c =
     (let (r, h, c1) = source c 16
      in if r \<noteq> 0 then Some (BLYS_ERR_IO, 0, bufs, c1)
         else if take 4 h \<noteq> BLYS_MAGIC then Some (BLYS_ERR_IO, 0, bufs, c1)
         else
           let minor = get_u16 (drop 6 h);
               (r2, sv, c2) = (if minor \<ge> 1 then source c1 4 else (0, [], c1))
           in if r2 \<noteq> 0 then Some (BLYS_ERR_IO, 0, bufs, c2)
              else
                let version = (if minor \<ge> 1 then get_u32 sv else 0)
                in if get_u64 (drop 8 h) \<noteq> expect_schema_hash then Some (BLYS_ERR_SCHEMA, version, bufs, c2)
                   else map_option (\<lambda>(r, bs, c'). (r, version, bs, c')) (read_sections source c2 bufs))"

section \<open>Scalar round trips\<close>

lemma get_put_u16 [simp]: "get_u16 (put_u16 v @ rest) = v"
  unfolding get_u16_def put_u16_def ucast_and_255
  by (rule bit_word_eqI) (auto simp: bit_simps not_less)

lemma put_u32_le: "put_u32 v = le_bytes 4 v"
  unfolding put_u32_def ucast_and_255 by (simp add: eval_nat_numeral)

lemma get_u32_le:
  fixes bs :: bytes
  assumes "length bs = 4"
  shows "get_u32 (bs @ rest) = le_of bs"
proof -
  obtain a b c d where "bs = [a, b, c, d]"
    using assms by (auto simp: length_Suc_conv eval_nat_numeral)
  then show ?thesis by (simp add: get_u32_def push_bit_or or.assoc)
qed

lemma get_put_u32 [simp]: "get_u32 (put_u32 v @ rest) = v"
  by (simp add: put_u32_le get_u32_le)

lemma put_u64_loop_le: "put_u64_loop n v = le_bytes n v"
  by (induction n arbitrary: v) (simp_all add: ucast_and_255)

lemma get_u64_le:
  fixes bs :: bytes
  assumes "length bs = 8"
  shows "get_u64 (bs @ rest) = le_of bs"
proof -
  obtain a b c d e f g h where "bs = [a, b, c, d, e, f, g, h]"
    using assms by (auto simp: length_Suc_conv eval_nat_numeral)
  then show ?thesis by (simp add: get_u64_def or.commute)
qed

lemma get_put_u64 [simp]: "get_u64 (put_u64 v @ rest) = v"
  by (simp add: put_u64_def put_u64_loop_le get_u64_le)

lemma length_puts [simp]: "length (put_u16 v) = 2" "length (put_u32 w) = 4" "length (put_u64 x) = 8"
  by (simp_all add: put_u16_def put_u32_def put_u64_def put_u64_loop_le)

lemma get_put_end [simp]: "get_u32 (put_u32 v) = v" "get_u64 (put_u64 w) = w"
  using get_put_u32 [of v "[]"] get_put_u64 [of w "[]"] by (simp_all del: get_put_u32 get_put_u64)

lemma length_tags [simp]: "length BLYS_MAGIC = 4" "length BLYS_SECT_CART = 4"
  by (simp_all add: BLYS_MAGIC_def BLYS_SECT_CART_def)

section \<open>Well-formed buffers\<close>

definition wf_fields :: "u32 \<Rightarrow> u8 list \<Rightarrow> bytes list \<Rightarrow> bool" where
  "wf_fields cnt ts ds \<longleftrightarrow> list_all2 (\<lambda>t d. length d = unat (cnt * blys_field_width t)) ts ds"

definition wf_buffer :: "blys_buffer \<Rightarrow> bool" where
  "wf_buffer b \<longleftrightarrow> unat (name_len b) = length (bname b) \<and> length (bname b) < 256 \<and>
     wf_fields (bcount b) (field_types b) (field_data b) \<and>
     length (slot_bitset b) = BLYS_SLOT_BITSET_BYTES \<and> length (slot_gens b) = BLYS_SLOT_GENS_BYTES"

definition same_schema :: "blys_buffer \<Rightarrow> blys_buffer \<Rightarrow> bool" where
  "same_schema a b \<longleftrightarrow> bname a = bname b \<and> name_len a = name_len b \<and> field_types a = field_types b \<and> bcount a = bcount b"

lemma buffer_chunks_bytes:
  assumes "wf_buffer b"
  shows "concat (buffer_chunks b) = BLYS_SECT_CART @ put_u32 (blys_buffer_payload_size b) @ put_u32 (name_len b) @ bname b
    @ concat (field_chunks (bcount b) (zip (field_types b) (field_data b))) @ slot_bitset b @ slot_gens b"
  using assms unat_eq_zero [of "name_len b"] by (auto simp: buffer_chunks_def wf_buffer_def)

lemma find_buffer_skip:
  assumes "unat nlen = length name" "\<forall>b \<in> set bs. unat (name_len b) = length (bname b)" "name \<notin> bname ` set bs"
  shows "match_buffer (bs @ b # cs) name nlen =
    (if name_eq b name nlen then Some (length bs) else map_option (\<lambda>i. Suc (length bs + i)) (match_buffer cs name nlen))"
  using assms by (induction bs) (auto simp: name_eq_def option.map_comp comp_def)

definition sections_bytes :: "blys_buffer list \<Rightarrow> bytes" where
  "sections_bytes bufs = concat (concat (map buffer_chunks bufs))"

section \<open>The source contract\<close>

locale byte_source =
  fixes source :: "'c blys_read_fn" and remaining :: "'c \<Rightarrow> bytes"
  assumes full: "n \<le> length (remaining c) \<Longrightarrow>
      \<exists>c'. source c n = (0, take n (remaining c), c') \<and> remaining c' = drop n (remaining c)"
    and over: "length (remaining c) < n \<Longrightarrow> fst (source c n) \<noteq> 0"
    and eof: "remaining c = [] \<Longrightarrow> 0 < n \<Longrightarrow> fst (source c n) = 1"
    and bound: "length (fst (snd (source c n))) \<le> n"
begin

lemma source_bound: "source c n = (r, bs, c') \<Longrightarrow> length bs \<le> n"
  using bound [of c n] by simp

lemma source_0: "source c n = (0, bs, c') \<Longrightarrow> n \<le> length (remaining c) \<and> bs = take n (remaining c) \<and> remaining c' = drop n (remaining c)"
  using full [of n c] over [of c n] by (cases "n \<le> length (remaining c)") auto

lemma source_take: "remaining c = xs @ ys \<Longrightarrow> n = length xs \<Longrightarrow> \<exists>c'. source c n = (0, xs, c') \<and> remaining c' = ys"
  using full [of n c] by auto

lemma skip_spec:
  "\<exists>r c'. skip_bytes source c n = (r, c') \<and> (r = BLYS_OK \<longleftrightarrow> unat n \<le> length (remaining c)) \<and>
     (r = BLYS_OK \<longrightarrow> remaining c' = drop (unat n) (remaining c)) \<and> (r = BLYS_OK \<or> r = BLYS_ERR_IO)"
proof (induction "unat n" arbitrary: c n rule: less_induct)
  case less
  show ?case
  proof (cases "n > 0")
    case False
    then have "n = 0" by (simp add: word_gt_0)
    then show ?thesis by (subst skip_bytes.simps) (simp add: BLYS_OK_def)
  next
    case True
    define chunk where "chunk = (if n > 256 then 256 else n)"
    have ch: "0 < unat chunk" "chunk \<le> n"
      using True by (auto simp: chunk_def word_less_nat_alt word_le_nat_alt)
    have sub: "unat (n - chunk) = unat n - unat chunk" "unat chunk \<le> unat n"
      using ch by (simp_all add: unat_sub_small word_le_nat_alt)
    obtain r got c1 where s: "source c (unat chunk) = (r, got, c1)" by (metis prod_cases3)
    have unf: "skip_bytes source c n = (if r \<noteq> 0 then (BLYS_ERR_IO, c1) else skip_bytes source c1 (n - chunk))"
      using True s by (subst skip_bytes.simps) (simp add: Let_def chunk_def [symmetric])
    show ?thesis
    proof (cases "r = 0")
      case False
      then have "\<not> unat chunk \<le> length (remaining c)" using full [of "unat chunk" c] s by auto
      with False unf sub show ?thesis by (auto simp: BLYS_OK_def BLYS_ERR_IO_def)
    next
      case r: True
      from source_0 [OF s [unfolded r]]
      have c1: "unat chunk \<le> length (remaining c)" "remaining c1 = drop (unat chunk) (remaining c)" by auto
      have "unat (n - chunk) < unat n" using sub ch by simp
      from less [OF this, of c1] c1 unf r sub show ?thesis by (auto simp: drop_drop)
    qed
  qed
qed

lemma read_fields_mono:
  "read_fields source c cnt ts ds = (r, ds', c') \<Longrightarrow> r = 0 \<Longrightarrow> length (remaining c') \<le> length (remaining c)"
proof (induction ts arbitrary: c ds r ds' c')
  case (Cons t ts)
  show ?case
  proof (cases ds)
    case (Cons d es)
    obtain q got c1 where s: "source c (unat (cnt * blys_field_width t)) = (q, got, c1)" by (metis prod_cases3)
    show ?thesis
    proof (cases "cnt * blys_field_width t = 0")
      case True
      then show ?thesis using Cons.prems Cons.IH [of c es] \<open>ds = d # es\<close> by (auto split: prod.splits)
    next
      case False
      then have "q = 0" using Cons.prems s \<open>ds = d # es\<close> by (auto simp: BLYS_ERR_IO_def split: if_splits)
      with s have "length (remaining c1) \<le> length (remaining c)" using source_0 by fastforce
      then show ?thesis using False Cons.prems s \<open>q = 0\<close> Cons.IH [of c1 es] \<open>ds = d # es\<close>
        by (fastforce split: prod.splits)
    qed
  qed (use Cons.prems in simp)
qed (simp add: BLYS_OK_def)

lemma read_buffer_mono:
  assumes "read_buffer source c b = (0, b', c')"
  shows "length (remaining c') \<le> length (remaining c)"
proof -
  obtain r ds c1 where f: "read_fields source c (bcount b) (field_types b) (field_data b) = (r, ds, c1)"
    by (metis prod_cases3)
  obtain r2 bits c2 where s2: "source c1 BLYS_SLOT_BITSET_BYTES = (r2, bits, c2)" by (metis prod_cases3)
  obtain r3 gens c3 where s3: "source c2 BLYS_SLOT_GENS_BYTES = (r3, gens, c3)" by (metis prod_cases3)
  have r: "r = 0" "r2 = 0" "r3 = 0" "c' = c3"
    using assms f s2 s3 by (auto simp: read_buffer_def Let_def BLYS_ERR_IO_def split: if_splits)
  have "length (remaining c1) \<le> length (remaining c)" using read_fields_mono [OF f] r by simp
  moreover have "length (remaining c3) \<le> length (remaining c1)"
    using source_0 [OF s2 [unfolded r]] source_0 [OF s3 [unfolded r]] by simp
  ultimately show ?thesis using r by simp
qed

lemma read_cart_mono:
  assumes "read_cart source c bufs payload = (0, bufs', c')"
  shows "length (remaining c') \<le> length (remaining c)"
proof -
  obtain r nl c1 where s1: "source c 4 = (r, nl, c1)" by (metis prod_cases3)
  let ?n = "get_u32 nl"
  obtain r2 name c2 where s2: "(if ?n \<noteq> 0 then source c1 (unat ?n) else (0, [], c1)) = (r2, name, c2)"
    by (metis prod_cases3)
  have r: "r = 0" "?n < 256" "r2 = 0"
    using assms s1 s2 by (auto simp: read_cart_def Let_def BLYS_ERR_IO_def linorder_not_le split: if_splits)
  have "length (remaining c1) \<le> length (remaining c)" using source_0 [OF s1 [unfolded r]] by simp
  moreover have "length (remaining c2) \<le> length (remaining c1)"
    using s2 r(3) source_0 [of c1 "unat ?n" name c2] by (auto split: if_splits)
  moreover have "length (remaining c') \<le> length (remaining c2)"
  proof (cases "match_buffer bufs name ?n")
    case None
    then show ?thesis using assms s1 s2 r skip_spec [of c2 "payload - 4 - ?n"]
      by (auto simp: read_cart_def Let_def BLYS_ERR_IO_def BLYS_OK_def linorder_not_le [symmetric] split: if_splits)
  next
    case (Some i)
    obtain r3 b c3 where s3: "read_buffer source c2 (bufs ! i) = (r3, b, c3)" by (metis prod_cases3)
    then have "r3 = 0" "c' = c3"
      using assms s1 s2 r Some by (auto simp: read_cart_def Let_def linorder_not_le [symmetric] split: if_splits)
    with read_buffer_mono s3 show ?thesis by blast
  qed
  ultimately show ?thesis by simp
qed

lemma read_sections_total: "\<exists>y. read_sections source c bufs = Some y"
proof (induction "length (remaining c)" arbitrary: c bufs rule: less_induct)
  case less
  obtain r sect c1 where s: "source c 8 = (r, sect, c1)" by (metis prod_cases3)
  show ?case
  proof (cases "r = 0")
    case False
    then show ?thesis using s by (subst read_sections.simps) simp
  next
    case True
    from source_0 [OF s [unfolded True]] have c1: "length (remaining c1) < length (remaining c)" by auto
    obtain r2 c2 where k: "skip_bytes source c1 (get_u32 (drop 4 sect)) = (r2, c2)" by force
    obtain r3 bufs3 c3 where rc: "read_cart source c1 bufs (get_u32 (drop 4 sect)) = (r3, bufs3, c3)"
      by (metis prod_cases3)
    have "length (remaining c2) < length (remaining c)" if "r2 = 0"
      using skip_spec [of c1 "get_u32 (drop 4 sect)"] k c1 that by (auto simp: BLYS_OK_def)
    moreover have "length (remaining c3) < length (remaining c)" if "r3 = 0"
      using read_cart_mono rc c1 that by fastforce
    ultimately show ?thesis
      using s True k rc less by (subst read_sections.simps) (auto simp: Let_def)
  qed
qed

lemma blys_read_total: "\<exists>y. blys_read h bufs source c = Some y"
  using read_sections_total by (auto simp: blys_read_def Let_def split: prod.splits)

lemma read_fields_inverse:
  assumes "wf_fields cnt ts ds" "wf_fields cnt ts es"
    and "remaining c = concat (field_chunks cnt (zip ts ds)) @ rest"
  shows "\<exists>c'. read_fields source c cnt ts es = (0, ds, c') \<and> remaining c' = rest"
  using assms
proof (induction ts arbitrary: ds es c)
  case Nil
  then show ?case by (auto simp: wf_fields_def field_chunks_def BLYS_OK_def)
next
  case (Cons t ts)
  let ?n = "cnt * blys_field_width t"
  obtain d ds' e es' where ds: "ds = d # ds'" "es = e # es'" "length d = unat ?n" "length e = unat ?n"
    "wf_fields cnt ts ds'" "wf_fields cnt ts es'"
    using Cons.prems by (auto simp: wf_fields_def list_all2_Cons1)
  show ?case
  proof (cases "?n = 0")
    case True
    then have "d = []" "e = []" using ds by simp_all
    moreover have "remaining c = concat (field_chunks cnt (zip ts ds')) @ rest"
      using Cons.prems(3) True by (simp add: ds field_chunks_def)
    then obtain c' where "read_fields source c cnt ts es' = (0, ds', c')" "remaining c' = rest"
      using Cons.IH [OF ds(5,6)] by blast
    ultimately show ?thesis using True by (simp add: ds)
  next
    case False
    have "remaining c = d @ (concat (field_chunks cnt (zip ts ds')) @ rest)"
      using Cons.prems(3) False ds by (simp add: field_chunks_def)
    from source_take [OF this, of "unat ?n"] ds obtain c1 where
      c1: "source c (unat ?n) = (0, d, c1)" "remaining c1 = concat (field_chunks cnt (zip ts ds')) @ rest" by auto
    have "splice 0 d e = d" using ds by (simp add: splice_def)
    with Cons.IH [OF ds(5,6) c1(2)] c1 False show ?thesis by (auto simp: ds Let_def)
  qed
qed

lemma read_buffer_inverse:
  assumes wf: "wf_buffer b" "wf_buffer b0" "same_schema b b0"
    and c: "remaining c = concat (field_chunks (bcount b) (zip (field_types b) (field_data b))) @ slot_bitset b @ slot_gens b @ rest"
  shows "\<exists>c'. read_buffer source c b0 = (0, b, c') \<and> remaining c' = rest"
proof -
  have fields: "wf_fields (bcount b0) (field_types b0) (field_data b)" "wf_fields (bcount b0) (field_types b0) (field_data b0)"
    "concat (field_chunks (bcount b0) (zip (field_types b0) (field_data b))) @ slot_bitset b @ slot_gens b @ rest = remaining c"
    using wf c by (auto simp: wf_buffer_def same_schema_def)
  obtain c1 where c1: "read_fields source c (bcount b0) (field_types b0) (field_data b0) = (0, field_data b, c1)"
    "remaining c1 = slot_bitset b @ slot_gens b @ rest"
    using read_fields_inverse [OF fields(1,2) fields(3) [symmetric]] by auto
  obtain c2 where c2: "source c1 BLYS_SLOT_BITSET_BYTES = (0, slot_bitset b, c2)" "remaining c2 = slot_gens b @ rest"
    using source_take [OF c1(2), of BLYS_SLOT_BITSET_BYTES] wf by (auto simp: wf_buffer_def)
  obtain c3 where c3: "source c2 BLYS_SLOT_GENS_BYTES = (0, slot_gens b, c3)" "remaining c3 = rest"
    using source_take [OF c2(2), of BLYS_SLOT_GENS_BYTES] wf by (auto simp: wf_buffer_def)
  have "b0\<lparr>field_data := field_data b, slot_bitset := slot_bitset b, slot_gens := slot_gens b\<rparr> = b"
    using wf(3) by (cases b; cases b0) (auto simp: same_schema_def)
  moreover have "splice 0 (slot_bitset b) (slot_bitset b0) = slot_bitset b" "splice 0 (slot_gens b) (slot_gens b0) = slot_gens b"
    using wf by (auto simp: wf_buffer_def splice_def)
  ultimately show ?thesis using c1 c2 c3 by (simp add: read_buffer_def BLYS_OK_def)
qed

lemma read_section_inverse:
  assumes wf: "wf_buffer b" "wf_buffer b0" "same_schema b b0" "\<forall>x \<in> set pre. wf_buffer x" "bname b \<notin> bname ` set pre"
    and c: "remaining c = concat (buffer_chunks b) @ rest"
  shows "\<exists>c1. read_sections source c (pre @ b0 # todo) = read_sections source c1 (pre @ b # todo) \<and> remaining c1 = rest"
proof -
  let ?p = "blys_buffer_payload_size b"
  let ?data = "concat (field_chunks (bcount b) (zip (field_types b) (field_data b))) @ slot_bitset b @ slot_gens b @ rest"
  have "remaining c = (BLYS_SECT_CART @ put_u32 ?p) @ (put_u32 (name_len b) @ bname b @ ?data)"
    using c buffer_chunks_bytes [OF wf(1)] by simp
  from source_take [OF this, of 8] obtain c1 where
    c1: "source c 8 = (0, BLYS_SECT_CART @ put_u32 ?p, c1)" "remaining c1 = put_u32 (name_len b) @ bname b @ ?data" by auto
  obtain c2 where c2: "source c1 4 = (0, put_u32 (name_len b), c2)" "remaining c2 = bname b @ ?data"
    using source_take [OF c1(2), of 4] by auto
  have n: "name_len b < 256" "unat (name_len b) = length (bname b)"
    using wf(1) by (auto simp: wf_buffer_def word_less_nat_alt)
  obtain c3 where c3: "(if name_len b \<noteq> 0 then source c2 (unat (name_len b)) else (0, [], c2)) = (0, bname b, c3)"
    "remaining c3 = ?data"
    using source_take [OF c2(2), of "unat (name_len b)"] n c2(2) unat_eq_zero [of "name_len b"] by auto
  obtain c4 where c4: "read_buffer source c3 b0 = (0, b, c4)" "remaining c4 = rest"
    using read_buffer_inverse [OF wf(1-3) c3(2)] by auto
  have "name_eq b0 (bname b) (name_len b)" using wf(3) by (simp add: name_eq_def same_schema_def)
  then have "match_buffer (pre @ b0 # todo) (bname b) (name_len b) = Some (length pre)"
    using find_buffer_skip [OF n(2), of pre b0 todo] wf(4,5) by (auto simp: wf_buffer_def)
  then have "read_cart source c1 (pre @ b0 # todo) ?p = (0, pre @ b # todo, c4)"
    using c2(1) c3(1) c4(1) n(1) unfolding read_cart_def by (simp add: linorder_not_le [symmetric] del: if_not_P)
  then have "read_sections source c (pre @ b0 # todo) = read_sections source c4 (pre @ b # todo)"
    using c1 by (subst read_sections.simps) (simp)
  with c4 show ?thesis by blast
qed

lemma read_sections_inverse:
  assumes "\<forall>x \<in> set pre. wf_buffer x" "list_all2 (\<lambda>b b0. wf_buffer b \<and> wf_buffer b0 \<and> same_schema b b0) bufs bufs0"
    and "distinct (map bname (pre @ bufs))" "remaining c = sections_bytes bufs"
  shows "\<exists>c'. read_sections source c (pre @ bufs0) = Some (BLYS_OK, pre @ bufs, c')"
  using assms
proof (induction bufs arbitrary: pre bufs0 c)
  case Nil
  then show ?case using eof [of c 8] by (subst read_sections.simps) (auto simp: sections_bytes_def split: prod.splits)
next
  case (Cons b bufs)
  obtain b0 bs0 where b0: "bufs0 = b0 # bs0" "wf_buffer b" "wf_buffer b0" "same_schema b b0"
    "list_all2 (\<lambda>b b0. wf_buffer b \<and> wf_buffer b0 \<and> same_schema b b0) bufs bs0"
    using Cons.prems(2) by (auto simp: list_all2_Cons1)
  have "bname b \<notin> bname ` set pre" using Cons.prems(3) by auto
  then obtain c1 where c1: "read_sections source c (pre @ b0 # bs0) = read_sections source c1 (pre @ b # bs0)"
    "remaining c1 = sections_bytes bufs"
    using read_section_inverse [OF b0(2-4) Cons.prems(1)] Cons.prems(4) by (fastforce simp: sections_bytes_def)
  have "\<exists>c'. read_sections source c1 ((pre @ [b]) @ bs0) = Some (BLYS_OK, (pre @ [b]) @ bufs, c')"
    by (rule Cons.IH [OF _ b0(5) _ c1(2)]) (use Cons.prems b0 in auto)
  then show ?case using c1(1) b0(1) by simp
qed

lemma header_read:
  assumes "remaining c = header_chunk hdr @ rest"
  shows "\<exists>c2. blys_read expect bufs source c =
    (if h_schema_hash hdr \<noteq> expect then Some (BLYS_ERR_SCHEMA, h_save_version hdr, bufs, c2)
     else map_option (\<lambda>(r, bs, c'). (r, h_save_version hdr, bs, c')) (read_sections source c2 bufs)) \<and>
    remaining c2 = rest"
proof -
  let ?h = "BLYS_MAGIC @ put_u16 BLYS_FORMAT_VERSION_MAJOR @ put_u16 BLYS_FORMAT_VERSION_MINOR @ put_u64 (h_schema_hash hdr)"
  have "remaining c = ?h @ (put_u32 (h_save_version hdr) @ rest)" using assms by (simp add: header_chunk_def)
  from source_take [OF this, of 16] obtain c1 where
    c1: "source c 16 = (0, ?h, c1)" "remaining c1 = put_u32 (h_save_version hdr) @ rest" by auto
  obtain c2 where c2: "source c1 4 = (0, put_u32 (h_save_version hdr), c2)" "remaining c2 = rest"
    using source_take [OF c1(2), of 4] by auto
  have "get_u16 (drop 6 ?h) = 1" "get_u64 (drop 8 ?h) = h_schema_hash hdr" "take 4 ?h = BLYS_MAGIC"
    using get_put_u64 [of "h_schema_hash hdr" "[]"] by (simp_all add: BLYS_FORMAT_VERSION_MINOR_def)
  with c1 c2 show ?thesis by (intro exI [of _ c2]) (simp add: blys_read_def Let_def del: append.simps)
qed

lemma blys_read_inverse:
  assumes "list_all2 (\<lambda>b b0. wf_buffer b \<and> wf_buffer b0 \<and> same_schema b b0) bufs bufs0"
    and "distinct (map bname bufs)" "remaining c = header_chunk hdr @ sections_bytes bufs"
  shows "\<exists>c'. blys_read (h_schema_hash hdr) bufs0 source c = Some (BLYS_OK, h_save_version hdr, bufs, c')"
  using header_read [OF assms(3), of "h_schema_hash hdr" bufs0] read_sections_inverse [of "[]" bufs bufs0] assms(1,2) by fastforce

text \<open>Whatever the input, reading keeps the sizes of the arrays it reads into.\<close>

lemma read_fields_wf:
  "wf_fields cnt ts ds \<Longrightarrow> read_fields source c cnt ts ds = (r, ds', c') \<Longrightarrow> wf_fields cnt ts ds'"
proof (induction ts arbitrary: c ds r ds' c')
  case Nil
  then show ?case by (simp add: wf_fields_def)
next
  case (Cons t ts)
  let ?n = "cnt * blys_field_width t"
  obtain d es where ds: "ds = d # es" "length d = unat ?n" "wf_fields cnt ts es"
    using Cons.prems by (auto simp: wf_fields_def list_all2_Cons1)
  obtain q got c1 where s: "source c (unat ?n) = (q, got, c1)" by (metis prod_cases3)
  have "length (splice 0 got d) = unat ?n" using source_bound [OF s] ds by (simp)
  moreover have "wf_fields cnt ts es'" if "read_fields source x cnt ts es = (y, es', z)" for x y es' z
    using Cons.IH [OF ds(3) that] .
  ultimately show ?case using Cons.prems s ds
    by (auto simp: Let_def wf_fields_def split: prod.splits if_splits)
qed

lemma read_buffer_wf:
  assumes wf: "wf_buffer b" and rd: "read_buffer source c b = (r, b', c')"
  shows "wf_buffer b' \<and> same_schema b' b"
proof -
  obtain r1 ds c1 where f: "read_fields source c (bcount b) (field_types b) (field_data b) = (r1, ds, c1)"
    by (metis prod_cases3)
  obtain r2 bits c2 where s2: "source c1 BLYS_SLOT_BITSET_BYTES = (r2, bits, c2)" by (metis prod_cases3)
  obtain r3 gens c3 where s3: "source c2 BLYS_SLOT_GENS_BYTES = (r3, gens, c3)" by (metis prod_cases3)
  have "wf_fields (bcount b) (field_types b) ds" using read_fields_wf [OF _ f] wf by (simp add: wf_buffer_def)
  then show ?thesis
    using rd f s2 s3 wf source_bound [OF s2] source_bound [OF s3]
    by (auto simp: read_buffer_def Let_def wf_buffer_def same_schema_def split: if_splits)
qed

lemma match_buffer_less: "match_buffer bs name n = Some i \<Longrightarrow> i < length bs"
  by (induction bs arbitrary: i) (auto split: if_splits)

lemma read_cart_wf:
  assumes wf: "\<forall>b \<in> set bufs. wf_buffer b" and rd: "read_cart source c bufs payload = (r, bufs', c')"
  shows "list_all2 (\<lambda>b' b. wf_buffer b' \<and> same_schema b' b) bufs' bufs"
proof -
  have same: "list_all2 (\<lambda>b' b. wf_buffer b' \<and> same_schema b' b) bufs bufs"
    using wf by (auto simp: list_all2_conv_all_nth same_schema_def)
  have upd: "list_all2 (\<lambda>b' b. wf_buffer b' \<and> same_schema b' b) (bufs[i := b']) bufs"
    if "match_buffer bufs name n = Some i" "read_buffer source x (bufs ! i) = (y, b', z)" for name n i x y b' z
  proof -
    have "i < length bufs" using match_buffer_less [OF that(1)] .
    then have "wf_buffer (bufs ! i)" using wf by simp
    from read_buffer_wf [OF this that(2)] \<open>i < length bufs\<close> show ?thesis
      using same by (auto simp: list_all2_conv_all_nth nth_list_update)
  qed
  show ?thesis using rd same upd
    by (auto simp: read_cart_def Let_def split: prod.splits if_splits option.splits)
qed

lemma read_sections_wf:
  "\<forall>b \<in> set bufs. wf_buffer b \<Longrightarrow> read_sections source c bufs = Some (r, bufs', c') \<Longrightarrow>
   list_all2 (\<lambda>b' b. wf_buffer b' \<and> same_schema b' b) bufs' bufs \<and> (r = BLYS_OK \<or> r = BLYS_ERR_IO)"
proof (induction "length (remaining c)" arbitrary: c bufs rule: less_induct)
  case less
  have same: "list_all2 (\<lambda>b' b. wf_buffer b' \<and> same_schema b' b) bufs bufs"
    using less.prems(1) by (auto simp: list_all2_conv_all_nth same_schema_def)
  obtain q sect c1 where s: "source c 8 = (q, sect, c1)" by (metis prod_cases3)
  let ?p = "get_u32 (drop 4 sect)"
  obtain r2 c2 where k: "skip_bytes source c1 ?p = (r2, c2)" by force
  obtain r3 bufs3 c3 where rc: "read_cart source c1 bufs ?p = (r3, bufs3, c3)" by (metis prod_cases3)
  note cart = read_cart_wf [OF less.prems(1) rc]
  have unf: "read_sections source c bufs =
    (if q = 1 then Some (BLYS_OK, bufs, c1) else if q \<noteq> 0 then Some (BLYS_ERR_IO, bufs, c1)
     else if take 4 sect \<noteq> BLYS_SECT_CART then
       if r2 \<noteq> 0 then Some (BLYS_ERR_IO, bufs, c2) else read_sections source c2 bufs
     else if r3 \<noteq> 0 then Some (BLYS_ERR_IO, bufs3, c3) else read_sections source c3 bufs3)"
    by (subst read_sections.simps) (simp add: s k rc Let_def)
  have c1: "length (remaining c1) < length (remaining c)" if "q = 0"
    using source_0 [OF s [unfolded that]] by auto
  have skip: ?case if "q = 0" "r2 = 0" "read_sections source c2 bufs = Some (r, bufs', c')"
    using less.hyps [OF _ less.prems(1) that(3)] skip_spec [of c1 ?p] k c1 [OF that(1)] that(2)
    by (auto simp: BLYS_OK_def)
  have carts: ?case if a: "q = 0" "r3 = 0" "read_sections source c3 bufs3 = Some (r, bufs', c')"
  proof -
    have "length (remaining c3) < length (remaining c)" using read_cart_mono rc c1 a by fastforce
    moreover have "\<forall>b \<in> set bufs3. wf_buffer b" using cart by (auto simp: list_all2_conv_all_nth in_set_conv_nth)
    ultimately have "list_all2 (\<lambda>b' b. wf_buffer b' \<and> same_schema b' b) bufs' bufs3 \<and> (r = BLYS_OK \<or> r = BLYS_ERR_IO)"
      using less.hyps a(3) by blast
    with cart show ?thesis by (auto simp: list_all2_conv_all_nth same_schema_def)
  qed
  show ?case using less.prems(2) same cart skip carts unfolding unf by (auto split: if_splits)
qed

lemma blys_read_wf:
  assumes wf: "\<forall>b \<in> set bufs. wf_buffer b" and rd: "blys_read h bufs source c = Some (r, v, bufs', c')"
  shows "list_all2 (\<lambda>b' b. wf_buffer b' \<and> same_schema b' b) bufs' bufs \<and> r \<in> {BLYS_OK, BLYS_ERR_IO, BLYS_ERR_SCHEMA}"
proof -
  have same: "list_all2 (\<lambda>b' b. wf_buffer b' \<and> same_schema b' b) bufs bufs"
    using wf by (auto simp: list_all2_conv_all_nth same_schema_def)
  show ?thesis using rd same read_sections_wf [OF wf]
    by (auto simp: blys_read_def Let_def split: prod.splits if_splits)
qed

text \<open>Input that ends inside a section is reported.\<close>

lemma read_fields_short:
  assumes "wf_fields cnt ts ds" "wf_fields cnt ts es"
    and "remaining c @ lost = concat (field_chunks cnt (zip ts ds))" "lost \<noteq> []"
  shows "fst (read_fields source c cnt ts es) \<noteq> 0"
  using assms
proof (induction ts arbitrary: ds es c)
  case Nil
  then show ?case by (auto simp: wf_fields_def field_chunks_def)
next
  case (Cons t ts)
  let ?n = "cnt * blys_field_width t"
  obtain d ds' e es' where ds: "ds = d # ds'" "es = e # es'" "length d = unat ?n" "length e = unat ?n"
    "wf_fields cnt ts ds'" "wf_fields cnt ts es'"
    using Cons.prems by (auto simp: wf_fields_def list_all2_Cons1)
  show ?case
  proof (cases "?n = 0")
    case True
    then have "remaining c @ lost = concat (field_chunks cnt (zip ts ds'))"
      using Cons.prems(3) by (simp add: ds field_chunks_def)
    from Cons.IH [OF ds(5,6) this Cons.prems(4)] True show ?thesis by (auto simp: ds split: prod.splits)
  next
    case False
    have eq: "remaining c @ lost = d @ concat (field_chunks cnt (zip ts ds'))"
      using Cons.prems(3) False ds by (simp add: field_chunks_def)
    obtain q got c1 where s: "source c (unat ?n) = (q, got, c1)" by (metis prod_cases3)
    show ?thesis
    proof (cases "q = 0")
      case True
      from source_0 [OF s [unfolded True]] have le: "unat ?n \<le> length (remaining c)"
        and c1: "remaining c1 = drop (unat ?n) (remaining c)" by auto
      have "drop (unat ?n) (remaining c @ lost) = concat (field_chunks cnt (zip ts ds'))"
        using eq ds by simp
      then have "remaining c1 @ lost = concat (field_chunks cnt (zip ts ds'))" using le c1 by simp
      from Cons.IH [OF ds(5,6) this Cons.prems(4)] False True s show ?thesis
        by (auto simp: ds Let_def split: prod.splits)
    qed (use False s in \<open>simp add: ds Let_def BLYS_ERR_IO_def\<close>)
  qed
qed

lemma read_buffer_short:
  assumes wf: "wf_buffer b" "wf_buffer b0" "same_schema b b0"
    and c: "remaining c @ lost = concat (field_chunks (bcount b) (zip (field_types b) (field_data b))) @ slot_bitset b @ slot_gens b"
    and lost: "lost \<noteq> []"
  shows "fst (read_buffer source c b0) \<noteq> 0"
proof
  assume ok: "fst (read_buffer source c b0) = 0"
  let ?f = "concat (field_chunks (bcount b) (zip (field_types b) (field_data b)))"
  have fields: "wf_fields (bcount b0) (field_types b0) (field_data b)" "wf_fields (bcount b0) (field_types b0) (field_data b0)"
    and f0: "concat (field_chunks (bcount b0) (zip (field_types b0) (field_data b))) = ?f"
    using wf by (auto simp: wf_buffer_def same_schema_def)
  obtain r1 ds c1 where f: "read_fields source c (bcount b0) (field_types b0) (field_data b0) = (r1, ds, c1)"
    by (metis prod_cases3)
  obtain r2 bits c2 where s2: "source c1 BLYS_SLOT_BITSET_BYTES = (r2, bits, c2)" by (metis prod_cases3)
  obtain r3 gens c3 where s3: "source c2 BLYS_SLOT_GENS_BYTES = (r3, gens, c3)" by (metis prod_cases3)
  have r: "r1 = 0" "r2 = 0" "r3 = 0"
    using ok f s2 s3 by (auto simp: read_buffer_def Let_def BLYS_ERR_IO_def split: if_splits)
  have "length ?f \<le> length (remaining c)"
  proof (rule ccontr)
    assume "\<not> length ?f \<le> length (remaining c)"
    then have "?f = remaining c @ take (length ?f - length (remaining c)) lost \<and> length (remaining c) < length ?f"
      using arg_cong [OF c, of "take (length ?f)"] by simp
    then show False using read_fields_short [OF fields, of c "take (length ?f - length (remaining c)) lost"] f r lost f0
      by (auto simp: take_eq_Nil)
  qed
  then have "remaining c = ?f @ drop (length ?f) (remaining c)"
    using arg_cong [OF c, of "take (length ?f)"] by (metis append_take_drop_id append_eq_conv_conj take_append diff_is_0_eq take_0 append_Nil2)
  then have rem1: "remaining c1 = drop (length ?f) (remaining c)"
    using read_fields_inverse [OF fields, of c "drop (length ?f) (remaining c)"] f f0 by auto
  have "length (remaining c1) \<ge> 272"
    using source_0 [OF s2 [unfolded r]] source_0 [OF s3 [unfolded r]]
    by (auto simp: BLYS_SLOT_BITSET_BYTES_def BLYS_SLOT_GENS_BYTES_def)
  moreover have "length (remaining c) + length lost = length ?f + 272"
    using arg_cong [OF c, of length] wf by (simp add: wf_buffer_def BLYS_SLOT_BITSET_BYTES_def BLYS_SLOT_GENS_BYTES_def)
  ultimately show False using rem1 lost by (cases lost) auto
qed

lemma read_cart_short:
  assumes wf: "wf_buffer b" "wf_buffer b0" "same_schema b b0" "\<forall>x \<in> set pre. wf_buffer x" "bname b \<notin> bname ` set pre"
    and c: "remaining c @ lost = put_u32 (name_len b) @ bname b @
      concat (field_chunks (bcount b) (zip (field_types b) (field_data b))) @ slot_bitset b @ slot_gens b"
    and lost: "lost \<noteq> []"
  shows "fst (read_cart source c (pre @ b0 # todo) p) \<noteq> 0"
proof
  assume ok: "fst (read_cart source c (pre @ b0 # todo) p) = 0"
  let ?data = "concat (field_chunks (bcount b) (zip (field_types b) (field_data b))) @ slot_bitset b @ slot_gens b"
  have n: "unat (name_len b) = length (bname b)" using wf(1) by (simp add: wf_buffer_def)
  obtain r nl c1 where s1: "source c 4 = (r, nl, c1)" by (metis prod_cases3)
  then have "r = 0" using ok by (auto simp: read_cart_def BLYS_ERR_IO_def split: if_splits)
  from source_0 [OF s1 [unfolded this]] have c1: "4 \<le> length (remaining c)" "nl = take 4 (remaining c)"
    "remaining c1 = drop 4 (remaining c)" by auto
  have nl: "nl = put_u32 (name_len b)" using arg_cong [OF c, of "take 4"] c1 by simp
  have rem1: "remaining c1 @ lost = bname b @ ?data" using arg_cong [OF c, of "drop 4"] c1 by simp
  obtain r2 name c2 where s2: "(if name_len b \<noteq> 0 then source c1 (unat (name_len b)) else (0, [], c1)) = (r2, name, c2)"
    by (metis prod_cases3)
  have r2: "r2 = 0" using ok s1 s2 \<open>r = 0\<close> nl by (auto simp: read_cart_def Let_def BLYS_ERR_IO_def split: if_splits)
  have "unat (name_len b) \<le> length (remaining c1) \<and> name = take (unat (name_len b)) (remaining c1) \<and>
      remaining c2 = drop (unat (name_len b)) (remaining c1)"
    using s2 r2 source_0 [of c1 "unat (name_len b)" name c2] by (auto split: if_splits)
  then have c2: "length (bname b) \<le> length (remaining c1)" "name = take (length (bname b)) (remaining c1)"
    "remaining c2 = drop (length (bname b)) (remaining c1)" using n by auto
  have name: "name = bname b" using arg_cong [OF rem1, of "take (length (bname b))"] c2 by simp
  have rem2: "remaining c2 @ lost = ?data" using arg_cong [OF rem1, of "drop (length (bname b))"] c2 by simp
  have "name_eq b0 (bname b) (name_len b)" using wf(3) by (simp add: name_eq_def same_schema_def)
  then have "match_buffer (pre @ b0 # todo) name (name_len b) = Some (length pre)"
    using find_buffer_skip [OF n, of pre b0 todo] wf(4,5) name by (auto simp: wf_buffer_def)
  then have "fst (read_buffer source c2 b0) = 0"
    using ok s1 \<open>r = 0\<close> nl s2 r2
    by (auto simp: read_cart_def Let_def BLYS_ERR_IO_def split: prod.splits if_splits simp del: if_not_P)
  with read_buffer_short [OF wf(1-3) rem2 lost] show False by simp
qed

end

text \<open>
  A strict source tells an input that ends exactly where the reader stands from one that ends
  inside the requested bytes.
\<close>

locale strict_source = byte_source +
  assumes partial: "remaining c \<noteq> [] \<Longrightarrow> length (remaining c) < n \<Longrightarrow> fst (source c n) \<noteq> 1"
begin

lemma read_section_short:
  assumes wf: "wf_buffer b" "wf_buffer b0" "same_schema b b0" "\<forall>x \<in> set pre. wf_buffer x" "bname b \<notin> bname ` set pre"
    and c: "remaining c @ lost = concat (buffer_chunks b)" "lost \<noteq> []" "remaining c \<noteq> []"
  shows "\<exists>bufs' c'. read_sections source c (pre @ b0 # todo) = Some (BLYS_ERR_IO, bufs', c')"
proof -
  let ?p = "blys_buffer_payload_size b"
  note eq = c(1) [unfolded buffer_chunks_bytes [OF wf(1)]]
  obtain r sect c1 where s: "source c 8 = (r, sect, c1)" by (metis prod_cases3)
  show ?thesis
  proof (cases "r = 0")
    case False
    then have "length (remaining c) < 8" using full [of 8 c] s by (cases "8 \<le> length (remaining c)") auto
    then have "r \<noteq> 1" using partial [OF c(3), of 8] s by simp
    with False s show ?thesis by (subst read_sections.simps) simp
  next
    case True
    from source_0 [OF s [unfolded True]] have c1: "8 \<le> length (remaining c)" "sect = take 8 (remaining c)"
      "remaining c1 = drop 8 (remaining c)" by auto
    have sect: "sect = BLYS_SECT_CART @ put_u32 ?p" using arg_cong [OF eq, of "take 8"] c1 by simp
    have rem: "remaining c1 @ lost = put_u32 (name_len b) @ bname b @
        concat (field_chunks (bcount b) (zip (field_types b) (field_data b))) @ slot_bitset b @ slot_gens b"
      using arg_cong [OF eq, of "drop 8"] c1 by simp
    obtain r3 bufs3 c3 where rc: "read_cart source c1 (pre @ b0 # todo) ?p = (r3, bufs3, c3)" by (metis prod_cases3)
    then have "r3 \<noteq> 0" using read_cart_short [OF wf rem c(2), of todo ?p] by simp
    then show ?thesis using s True sect rc by (subst read_sections.simps) (simp add: Let_def)
  qed
qed

lemma read_sections_truncated:
  assumes "\<forall>x \<in> set pre. wf_buffer x" "list_all2 (\<lambda>b b0. wf_buffer b \<and> wf_buffer b0 \<and> same_schema b b0) bufs bufs0"
    and "distinct (map bname (pre @ bufs))" "k < length (sections_bytes bufs)" "remaining c = take k (sections_bytes bufs)"
  shows "\<exists>r bs c'. read_sections source c (pre @ bufs0) = Some (r, bs, c') \<and>
    (r = BLYS_OK \<longleftrightarrow> (\<exists>j < length bufs. k = length (sections_bytes (take j bufs))))"
  using assms
proof (induction bufs arbitrary: pre bufs0 c k)
  case Nil
  then show ?case by (simp add: sections_bytes_def)
next
  case (Cons b bufs)
  obtain b0 bs0 where b0: "bufs0 = b0 # bs0" "wf_buffer b" "wf_buffer b0" "same_schema b b0"
    "list_all2 (\<lambda>b b0. wf_buffer b \<and> wf_buffer b0 \<and> same_schema b b0) bufs bs0"
    using Cons.prems(2) by (auto simp: list_all2_Cons1)
  have nb: "bname b \<notin> bname ` set pre" using Cons.prems(3) by auto
  let ?L = "length (concat (buffer_chunks b))"
  have L: "0 < ?L" by (simp add: buffer_chunks_def)
  have sec: "sections_bytes (b # bufs) = concat (buffer_chunks b) @ sections_bytes bufs"
    "sections_bytes (b # take j bufs) = concat (buffer_chunks b) @ sections_bytes (take j bufs)" for j
    by (simp_all add: sections_bytes_def)
  have ex: "(\<exists>j < length (b # bufs). k = length (sections_bytes (take j (b # bufs)))) \<longleftrightarrow>
     k = 0 \<or> (\<exists>j < length bufs. k = ?L + length (sections_bytes (take j bufs)))"
  proof -
    have "sections_bytes [] = []" by (simp add: sections_bytes_def)
    then show ?thesis by (simp add: Ex_less_Suc2 sec)
  qed
  consider "k = 0" | "0 < k" "k < ?L" | "?L \<le> k" by linarith
  then show ?case
  proof cases
    case 1
    then have "fst (source c 8) = 1" using eof [of c 8] Cons.prems(5) by simp
    then show ?thesis unfolding ex using 1 by (subst read_sections.simps) (auto split: prod.splits)
  next
    case 2
    then have "remaining c @ drop k (concat (buffer_chunks b)) = concat (buffer_chunks b)"
      "drop k (concat (buffer_chunks b)) \<noteq> []" "remaining c \<noteq> []"
      using Cons.prems(5) L by (auto simp: sec)
    from read_section_short [OF b0(2-4) Cons.prems(1) nb this, of bs0]
    obtain bufs' c' where "read_sections source c (pre @ b0 # bs0) = Some (BLYS_ERR_IO, bufs', c')" by auto
    then show ?thesis unfolding ex using 2 b0(1) by (auto simp: BLYS_OK_def BLYS_ERR_IO_def)
  next
    case 3
    then have "remaining c = concat (buffer_chunks b) @ take (k - ?L) (sections_bytes bufs)"
      using Cons.prems(5) by (simp add: sec)
    from read_section_inverse [OF b0(2-4) Cons.prems(1) nb this, of bs0]
    obtain c1 where c1: "read_sections source c (pre @ b0 # bs0) = read_sections source c1 (pre @ b # bs0)"
      "remaining c1 = take (k - ?L) (sections_bytes bufs)" by auto
    have "k - ?L < length (sections_bytes bufs)" using 3 Cons.prems(4) by (auto simp: sec)
    with c1(2) have "\<exists>r bs c'. read_sections source c1 ((pre @ [b]) @ bs0) = Some (r, bs, c') \<and>
      (r = BLYS_OK \<longleftrightarrow> (\<exists>j < length bufs. k - ?L = length (sections_bytes (take j bufs))))"
      using Cons.prems b0 by (intro Cons.IH) auto
    moreover have "k \<noteq> 0" using 3 L by linarith
    moreover have "k - ?L = n \<longleftrightarrow> k = ?L + n" for n using 3 by linarith
    ultimately show ?thesis unfolding ex using b0(1) c1(1) by (simp del: length_concat)
  qed
qed

lemma blys_read_truncated:
  assumes l: "list_all2 (\<lambda>b b0. wf_buffer b \<and> wf_buffer b0 \<and> same_schema b b0) bufs bufs0"
    and d: "distinct (map bname bufs)" and k: "k < 20 + length (sections_bytes bufs)"
    and c: "remaining c = take k (header_chunk hdr @ sections_bytes bufs)"
  shows "\<exists>r v bs c'. blys_read (h_schema_hash hdr) bufs0 source c = Some (r, v, bs, c') \<and>
    (r = BLYS_OK \<longleftrightarrow> (\<exists>j < length bufs. k = 20 + length (sections_bytes (take j bufs))))"
proof (cases "k < 20")
  case True
  then have len: "length (remaining c) < 20" using c by simp
  obtain r h c1 where s1: "source c 16 = (r, h, c1)" by (metis prod_cases3)
  obtain r2 sv c2 where s2: "source c1 4 = (r2, sv, c2)" by (metis prod_cases3)
  have minor: "get_u16 (drop 6 h) = 1" and r2: "r2 \<noteq> 0" if "r = 0"
  proof -
    from source_0 [OF s1 [unfolded that]] have h: "16 \<le> length (remaining c)" "h = take 16 (remaining c)"
      "remaining c1 = drop 16 (remaining c)" by auto
    then have "16 \<le> k" using c by (metis length_take min.bounded_iff)
    then have "h = take 16 (header_chunk hdr @ sections_bytes bufs)"
      unfolding h(2) c take_take by (simp only: min_absorb1)
    then have "h = BLYS_MAGIC @ put_u16 BLYS_FORMAT_VERSION_MAJOR @ put_u16 BLYS_FORMAT_VERSION_MINOR @ put_u64 (h_schema_hash hdr)"
      by (simp add: header_chunk_def)
    then show "get_u16 (drop 6 h) = 1" by (simp add: BLYS_FORMAT_VERSION_MINOR_def)
    show "r2 \<noteq> 0" using over [of c1 4] s2 h len by simp
  qed
  have "\<exists>v bs c'. blys_read (h_schema_hash hdr) bufs0 source c = Some (BLYS_ERR_IO, v, bs, c')"
    using minor r2 s1 s2 by (cases "r = 0") (auto simp: blys_read_def Let_def)
  with True show ?thesis by (auto simp: BLYS_OK_def BLYS_ERR_IO_def)
next
  case False
  have hl: "length (header_chunk hdr) = 20" by (simp add: header_chunk_def)
  have "remaining c = header_chunk hdr @ take (k - 20) (sections_bytes bufs)" using c False hl by simp
  from header_read [OF this, of "h_schema_hash hdr" bufs0] obtain c2 where
    c2: "blys_read (h_schema_hash hdr) bufs0 source c =
      map_option (\<lambda>(r, bs, c'). (r, h_save_version hdr, bs, c')) (read_sections source c2 bufs0)"
    "remaining c2 = take (k - 20) (sections_bytes bufs)" by auto
  have "\<exists>r bs c'. read_sections source c2 ([] @ bufs0) = Some (r, bs, c') \<and>
      (r = BLYS_OK \<longleftrightarrow> (\<exists>j < length bufs. k - 20 = length (sections_bytes (take j bufs))))"
    by (rule read_sections_truncated) (use l d k c2(2) False in auto)
  moreover have "k - 20 = n \<longleftrightarrow> k = 20 + n" for n using False by linarith
  ultimately show ?thesis using c2(1) by auto
qed

end

end
