(* ===== verification/State_Buffer.thy ===== *)
theory State_Buffer
  imports Handles
begin

text \<open>
  The host's state buffers (\<^verbatim>\<open>runtime/host/src/libblyt/state_buffer.c\<close>): struct-of-arrays storage
  with typed slots, generation counters and snapshots.  A buffer's \<^verbatim>\<open>n_fields\<close> and a context's
  \<^verbatim>\<open>n_buffers\<close> are the lengths of the corresponding lists.  \<^verbatim>\<open>int32_t\<close> slots are integers.  The
  accessors return \<open>None\<close> where the C functions return -1.  The FlatBuffer tables decoded by the
  generated reader and the success of \<^verbatim>\<open>calloc\<close> are arguments.
\<close>

section \<open>State\<close>

definition BLYT_MAX_BUFFERS :: nat where "BLYT_MAX_BUFFERS = 32"
definition BLYT_MAX_FIELDS :: nat where "BLYT_MAX_FIELDS = 256"
definition BLYT_MAX_SLOTS :: nat where "BLYT_MAX_SLOTS = 128"

definition TYPE_I8 :: u8 where "TYPE_I8 = 0"
definition TYPE_U8 :: u8 where "TYPE_U8 = 1"
definition TYPE_I16 :: u8 where "TYPE_I16 = 2"
definition TYPE_U16 :: u8 where "TYPE_U16 = 3"
definition TYPE_I32 :: u8 where "TYPE_I32 = 4"
definition TYPE_U32 :: u8 where "TYPE_U32 = 5"
definition TYPE_F32 :: u8 where "TYPE_F32 = 6"
definition TYPE_BOOL :: u8 where "TYPE_BOOL = 7"
definition TYPE_F64 :: u8 where "TYPE_F64 = 8"

lemmas type_tags = TYPE_I8_def TYPE_U8_def TYPE_I16_def TYPE_U16_def TYPE_I32_def TYPE_U32_def
  TYPE_F32_def TYPE_BOOL_def TYPE_F64_def
lemmas state_limits = BLYT_MAX_BUFFERS_def BLYT_MAX_FIELDS_def BLYT_MAX_SLOTS_def

definition field_sizeof :: "u8 \<Rightarrow> nat" where
  "field_sizeof t =
     (if t = TYPE_I8 \<or> t = TYPE_U8 \<or> t = TYPE_BOOL then 1
      else if t = TYPE_I16 \<or> t = TYPE_U16 then 2
      else if t = TYPE_F64 then 8
      else 4)"

record blyt_buffer_ctx =
  buf_id :: u32
  bc_count :: u32
  bc_types :: "u8 list"
  bc_data :: "bytes list"
  bc_bits :: bytes
  bc_gens :: "u16 list"
  bc_hash :: u64
  bc_name :: "bytes option"
  bc_names :: "bytes option list"

record blyt_state_ctx =
  buffers :: "blyt_buffer_ctx list"

section \<open>Initialisation\<close>

text \<open>The decoded tables of the layouts section.\<close>

record field_decl =
  fd_name :: "bytes option"
  fd_type_tag :: u8

record record_decl =
  rd_name :: bytes
  rd_fields :: "field_decl list"

record buffer_decl =
  bd_name :: "bytes option"
  bd_record_name :: bytes
  bd_count :: u32

record cart_layouts =
  cl_buffers :: "buffer_decl list"
  cl_records :: "record_decl list"
  cl_schema_hash :: u64

definition init_buffer :: "(nat \<Rightarrow> bool) \<Rightarrow> cart_layouts \<Rightarrow> nat \<Rightarrow> buffer_decl \<Rightarrow> blyt_buffer_ctx option" where
  "init_buffer calloc_ok layouts bi bdecl =
     (case find (\<lambda>r. rd_name r = bd_record_name bdecl) (cl_records layouts) of
        None \<Rightarrow> None
      | Some rdecl \<Rightarrow>
          let n_fields = length (rd_fields rdecl); tags = map fd_type_tag (rd_fields rdecl);
              totals = map (\<lambda>t. unat (bd_count bdecl) * field_sizeof t) tags
          in if n_fields = 0 \<or> n_fields > BLYT_MAX_FIELDS then None
             else if \<not> list_all calloc_ok totals then None
             else Some \<lparr>buf_id = of_nat (bi + 1), bc_count = bd_count bdecl, bc_types = tags,
                        bc_data = map (\<lambda>n. replicate n 0) totals,
                        bc_bits = replicate (BLYT_MAX_SLOTS div 8) 0,
                        bc_gens = replicate BLYT_MAX_SLOTS 1,
                        bc_hash = cl_schema_hash layouts, bc_name = bd_name bdecl,
                        bc_names = map fd_name (rd_fields rdecl)\<rparr>)"

fun init_buffers :: "(nat \<Rightarrow> bool) \<Rightarrow> cart_layouts \<Rightarrow> nat \<Rightarrow> buffer_decl list \<Rightarrow> blyt_buffer_ctx list option" where
  "init_buffers calloc_ok layouts bi [] = Some []"
| "init_buffers calloc_ok layouts bi (d # ds) =
     (if bi < BLYT_MAX_BUFFERS then
        (case init_buffer calloc_ok layouts bi d of None \<Rightarrow> None
         | Some b \<Rightarrow> map_option ((#) b) (init_buffers calloc_ok layouts (Suc bi) ds))
      else Some [])"

text \<open>
  \<open>sect\<close> is the section found by name, \<open>as_root\<close> the generated reader's root table of its bytes
  after the 8-byte preamble.
\<close>

definition blyt_state_ctx_destroy :: "blyt_state_ctx \<Rightarrow> blyt_state_ctx" where
  "blyt_state_ctx_destroy ctx = ctx\<lparr>buffers := []\<rparr>"

definition blyt_state_ctx_init ::
    "(nat \<Rightarrow> bool) \<Rightarrow> (bytes \<Rightarrow> cart_layouts option) \<Rightarrow> bytes option \<Rightarrow> int \<times> blyt_state_ctx" where
  "blyt_state_ctx_init calloc_ok as_root sect =
     (let ctx = \<lparr>buffers = []\<rparr>
      in case sect of None \<Rightarrow> (- 1, ctx)
      | Some bs \<Rightarrow>
          if length bs \<le> 8 then (- 2, ctx)
          else case as_root (drop 8 bs) of None \<Rightarrow> (- 2, ctx)
          | Some layouts \<Rightarrow>
              if cl_buffers layouts = [] then (0, ctx)
              else case init_buffers calloc_ok layouts 0 (cl_buffers layouts) of
                None \<Rightarrow> (- 2, blyt_state_ctx_destroy ctx)
              | Some bufs \<Rightarrow> (0, ctx\<lparr>buffers := bufs\<rparr>))"

section \<open>Lookup\<close>

definition find_buffer :: "blyt_state_ctx \<Rightarrow> u32 \<Rightarrow> nat option" where
  "find_buffer ctx bid =
     (if bid = 0 \<or> unat bid > length (buffers ctx) then None else Some (unat bid - 1))"

definition slot_bit :: "bytes \<Rightarrow> nat \<Rightarrow> bool" where
  "slot_bit bs s = bit (bs ! (s div 8)) (s mod 8)"

definition slot_is_allocated :: "blyt_buffer_ctx \<Rightarrow> int \<Rightarrow> bool" where
  "slot_is_allocated bc slot =
     (if slot < 0 \<or> nat slot \<ge> unat (bc_count bc) \<or> nat slot \<ge> BLYT_MAX_SLOTS then False
      else slot_bit (bc_bits bc) (nat slot))"

text \<open>The checks every accessor makes, giving the buffer index, the slot and the field index.\<close>

definition state_elem :: "blyt_state_ctx \<Rightarrow> u32 \<Rightarrow> int \<Rightarrow> u32 \<Rightarrow> (nat \<times> nat \<times> nat) option" where
  "state_elem ctx bid slot field =
     (case find_buffer ctx bid of None \<Rightarrow> None
      | Some i \<Rightarrow>
          let bc = buffers ctx ! i
          in if \<not> slot_is_allocated bc slot then None
             else if field = 0 \<or> unat field > length (bc_types bc) then None
             else Some (i, nat slot, unat field - 1))"

definition elem_get :: "blyt_buffer_ctx \<Rightarrow> nat \<Rightarrow> nat \<Rightarrow> bytes" where
  "elem_get bc s fi = (let n = field_sizeof (bc_types bc ! fi) in slice (s * n) n (bc_data bc ! fi))"

definition elem_put :: "blyt_buffer_ctx \<Rightarrow> nat \<Rightarrow> nat \<Rightarrow> bytes \<Rightarrow> blyt_buffer_ctx" where
  "elem_put bc s fi bs =
     (let n = field_sizeof (bc_types bc ! fi)
      in bc\<lparr>bc_data := (bc_data bc)[fi := splice (s * n) bs (bc_data bc ! fi)]\<rparr>)"

definition upd_buffer :: "nat \<Rightarrow> blyt_buffer_ctx \<Rightarrow> blyt_state_ctx \<Rightarrow> blyt_state_ctx" where
  "upd_buffer i bc ctx = ctx\<lparr>buffers := (buffers ctx)[i := bc]\<rparr>"

section \<open>Accessors\<close>

definition blyt_state_get :: "blyt_state_ctx \<Rightarrow> u32 \<Rightarrow> int \<Rightarrow> u32 \<Rightarrow> u32 option" where
  "blyt_state_get ctx bid slot field =
     (case state_elem ctx bid slot field of None \<Rightarrow> None
      | Some (i, s, fi) \<Rightarrow>
          let bc = buffers ctx ! i
          in if bc_types bc ! fi = TYPE_F64 then None else Some (le_of (elem_get bc s fi)))"

definition blyt_state_set :: "blyt_state_ctx \<Rightarrow> u32 \<Rightarrow> int \<Rightarrow> u32 \<Rightarrow> u32 \<Rightarrow> blyt_state_ctx option" where
  "blyt_state_set ctx bid slot field value_bits =
     (case state_elem ctx bid slot field of None \<Rightarrow> None
      | Some (i, s, fi) \<Rightarrow>
          let bc = buffers ctx ! i; tag = bc_types bc ! fi
          in if tag = TYPE_F64 then None
             else
               let v = (if tag = TYPE_F32 then blyt_canon_f32 value_bits else value_bits)
               in Some (upd_buffer i (elem_put bc s fi (le_bytes (field_sizeof tag) v)) ctx))"

definition blyt_state_set64 :: "blyt_state_ctx \<Rightarrow> u32 \<Rightarrow> int \<Rightarrow> u32 \<Rightarrow> u64 \<Rightarrow> blyt_state_ctx option" where
  "blyt_state_set64 ctx bid slot field value_bits =
     (case state_elem ctx bid slot field of None \<Rightarrow> None
      | Some (i, s, fi) \<Rightarrow>
          let bc = buffers ctx ! i
          in if bc_types bc ! fi \<noteq> TYPE_F64 then None
             else Some (upd_buffer i (elem_put bc s fi (le_bytes 8 (blyt_canon_f64 value_bits))) ctx))"

definition blyt_state_get64 :: "blyt_state_ctx \<Rightarrow> u32 \<Rightarrow> int \<Rightarrow> u32 \<Rightarrow> u64 option" where
  "blyt_state_get64 ctx bid slot field =
     (case state_elem ctx bid slot field of None \<Rightarrow> None
      | Some (i, s, fi) \<Rightarrow>
          let bc = buffers ctx ! i
          in if bc_types bc ! fi \<noteq> TYPE_F64 then None else Some (le_of (elem_get bc s fi)))"

section \<open>Slots\<close>

definition set_slot_bit :: "nat \<Rightarrow> bool \<Rightarrow> bytes \<Rightarrow> bytes" where
  "set_slot_bit s v bs = bs[s div 8 := (if v then bs ! (s div 8) OR push_bit (s mod 8) 1
     else bs ! (s div 8) AND NOT (push_bit (s mod 8) 1))]"

text \<open>Result: the context and the slot; -1 stands for \<^verbatim>\<open>BLYT_INVALID_SLOT\<close>, no buffer for \<open>None\<close>.\<close>

definition blyt_state_alloc_slot :: "blyt_state_ctx \<Rightarrow> u32 \<Rightarrow> (blyt_state_ctx \<times> int) option" where
  "blyt_state_alloc_slot ctx bid =
     (case find_buffer ctx bid of None \<Rightarrow> None
      | Some i \<Rightarrow>
          let bc = buffers ctx ! i
          in case find (\<lambda>s. \<not> slot_bit (bc_bits bc) s) [0..<min (unat (bc_count bc)) BLYT_MAX_SLOTS] of
               None \<Rightarrow> Some (ctx, - 1)
             | Some s \<Rightarrow> Some (upd_buffer i (bc\<lparr>bc_bits := set_slot_bit s True (bc_bits bc)\<rparr>) ctx, int s))"

definition zero_slot :: "nat \<Rightarrow> u8 list \<Rightarrow> bytes list \<Rightarrow> bytes list" where
  "zero_slot s ts ds = map2 (\<lambda>t d. splice (s * field_sizeof t) (replicate (field_sizeof t) 0) d) ts ds"

definition blyt_state_free_slot :: "blyt_state_ctx \<Rightarrow> u32 \<Rightarrow> int \<Rightarrow> blyt_state_ctx option" where
  "blyt_state_free_slot ctx bid slot =
     (case find_buffer ctx bid of None \<Rightarrow> None
      | Some i \<Rightarrow>
          let bc = buffers ctx ! i
          in if slot < 0 \<or> nat slot \<ge> unat (bc_count bc) \<or> nat slot \<ge> BLYT_MAX_SLOTS then None
             else if \<not> slot_is_allocated bc slot then None
             else
               let s = nat slot
               in Some (upd_buffer i (bc\<lparr>bc_bits := set_slot_bit s False (bc_bits bc),
                                         bc_data := zero_slot s (bc_types bc) (bc_data bc),
                                         bc_gens := (bc_gens bc)[s := blyt_gen_next (bc_gens bc ! s)]\<rparr>) ctx))"

definition blyt_state_ref :: "blyt_state_ctx \<Rightarrow> u32 \<Rightarrow> int \<Rightarrow> u32" where
  "blyt_state_ref ctx bid slot =
     (case find_buffer ctx bid of None \<Rightarrow> 0
      | Some i \<Rightarrow>
          let bc = buffers ctx ! i
          in if \<not> slot_is_allocated bc slot then 0
             else push_bit 16 (ucast (bc_gens bc ! nat slot)) OR of_int slot)"

definition blyt_state_ref_valid :: "blyt_state_ctx \<Rightarrow> u32 \<Rightarrow> u32 \<Rightarrow> bool" where
  "blyt_state_ref_valid ctx bid ref =
     (if ref = 0 then False
      else case find_buffer ctx bid of None \<Rightarrow> False
      | Some i \<Rightarrow>
          let bc = buffers ctx ! i; slot = uint (ref AND 0xFFFF)
          in if \<not> slot_is_allocated bc slot then False
             else bc_gens bc ! nat slot = ucast (drop_bit 16 ref))"

section \<open>Snapshots\<close>

record snapshot_buffer =
  sn_count :: u32
  sn_types :: "u8 list"
  sn_data :: "bytes list"
  sn_bits :: bytes
  sn_gens :: "u16 list"

type_synonym blyt_state_snapshot = "snapshot_buffer list"

definition array_bytes :: "blyt_buffer_ctx \<Rightarrow> u8 \<Rightarrow> nat" where
  "array_bytes bc t = unat (bc_count bc) * field_sizeof t"

definition blyt_state_ctx_snapshot :: "(nat \<Rightarrow> bool) \<Rightarrow> blyt_state_ctx \<Rightarrow> blyt_state_snapshot option" where
  "blyt_state_ctx_snapshot malloc_ok ctx =
     (if \<not> list_all (\<lambda>bc. list_all (\<lambda>t. malloc_ok (array_bytes bc t)) (bc_types bc)) (buffers ctx) then None
      else Some (map (\<lambda>bc. \<lparr>sn_count = bc_count bc, sn_types = bc_types bc,
                            sn_data = map2 (\<lambda>t d. take (array_bytes bc t) d) (bc_types bc) (bc_data bc),
                            sn_bits = bc_bits bc, sn_gens = bc_gens bc\<rparr>) (buffers ctx)))"

definition restore_buffer :: "blyt_buffer_ctx \<Rightarrow> snapshot_buffer \<Rightarrow> blyt_buffer_ctx" where
  "restore_buffer bc sn =
     (if length (sn_types sn) \<noteq> length (bc_types bc) \<or> sn_count sn \<noteq> bc_count bc then bc
      else bc\<lparr>bc_bits := sn_bits sn, bc_gens := sn_gens sn,
              bc_data := map2 (\<lambda>t (d, e). splice 0 (take (array_bytes bc t) e) d)
                           (bc_types bc) (zip (bc_data bc) (sn_data sn))\<rparr>)"

definition blyt_state_ctx_restore_snapshot :: "blyt_state_ctx \<Rightarrow> blyt_state_snapshot option \<Rightarrow> blyt_state_ctx" where
  "blyt_state_ctx_restore_snapshot ctx snap = (case snap of None \<Rightarrow> ctx
     | Some sn \<Rightarrow> if length sn \<noteq> length (buffers ctx) then ctx
                 else ctx\<lparr>buffers := map2 restore_buffer (buffers ctx) sn\<rparr>)"

definition blyt_state_ctx_zero_data :: "blyt_state_ctx \<Rightarrow> blyt_state_ctx" where
  "blyt_state_ctx_zero_data ctx = ctx\<lparr>buffers := map (\<lambda>bc.
     bc\<lparr>bc_bits := replicate (length (bc_bits bc)) 0, bc_gens := replicate BLYT_MAX_SLOTS 1,
        bc_data := map2 (\<lambda>t d. splice 0 (replicate (array_bytes bc t) 0) d) (bc_types bc) (bc_data bc)\<rparr>) (buffers ctx)\<rparr>"

section \<open>Well-formed buffers\<close>

definition wf_bc :: "blyt_buffer_ctx \<Rightarrow> bool" where
  "wf_bc bc \<longleftrightarrow> list_all2 (\<lambda>t d. length d = array_bytes bc t) (bc_types bc) (bc_data bc) \<and>
     length (bc_bits bc) = 16 \<and> length (bc_gens bc) = 128 \<and> (\<forall>g \<in> set (bc_gens bc). g \<noteq> 0)"

definition clean_bc :: "blyt_buffer_ctx \<Rightarrow> bool" where
  "clean_bc bc \<longleftrightarrow> (\<forall>s < min (unat (bc_count bc)) 128. \<forall>fi < length (bc_types bc).
     \<not> slot_bit (bc_bits bc) s \<longrightarrow> elem_get bc s fi = replicate (field_sizeof (bc_types bc ! fi)) 0)"

definition wf_state :: "blyt_state_ctx \<Rightarrow> bool" where
  "wf_state ctx \<longleftrightarrow> (\<forall>bc \<in> set (buffers ctx). wf_bc bc \<and> clean_bc bc)"

lemma field_sizeof_pos [simp]: "0 < field_sizeof t"
  by (simp add: field_sizeof_def)

lemma elem_range:
  assumes "wf_bc bc" "fi < length (bc_types bc)" "s < unat (bc_count bc)"
  shows "s * field_sizeof (bc_types bc ! fi) + field_sizeof (bc_types bc ! fi) \<le> length (bc_data bc ! fi)"
    "fi < length (bc_data bc)"
proof -
  have "length (bc_data bc ! fi) = unat (bc_count bc) * field_sizeof (bc_types bc ! fi)" "length (bc_data bc) = length (bc_types bc)"
    using assms by (auto simp: wf_bc_def array_bytes_def list_all2_conv_all_nth)
  moreover have "Suc s * field_sizeof (bc_types bc ! fi) \<le> unat (bc_count bc) * field_sizeof (bc_types bc ! fi)"
    using assms(3) by (intro mult_le_mono1) simp
  ultimately show "s * field_sizeof (bc_types bc ! fi) + field_sizeof (bc_types bc ! fi) \<le> length (bc_data bc ! fi)"
    "fi < length (bc_data bc)" using assms(2) by simp_all
qed

lemma elem_disjoint: "(s :: nat) \<noteq> s' \<Longrightarrow> s * n + n \<le> s' * n \<or> s' * n + n \<le> s * n"
proof -
  assume "s \<noteq> s'"
  then have "Suc s \<le> s' \<or> Suc s' \<le> s" by linarith
  then have "Suc s * n \<le> s' * n \<or> Suc s' * n \<le> s * n" using mult_le_mono1 by blast
  then show ?thesis by (simp add: add.commute)
qed

lemma length_elem_get:
  "wf_bc bc \<Longrightarrow> fi < length (bc_types bc) \<Longrightarrow> s < unat (bc_count bc) \<Longrightarrow>
   length (elem_get bc s fi) = field_sizeof (bc_types bc ! fi)"
  using elem_range(1) by (simp add: elem_get_def Let_def)

lemma elem_get_put:
  assumes wf: "wf_bc bc" and s: "s < unat (bc_count bc)" "s' < unat (bc_count bc)"
    and fi: "fi < length (bc_types bc)" "fi' < length (bc_types bc)" and bs: "length bs = field_sizeof (bc_types bc ! fi)"
  shows "elem_get (elem_put bc s fi bs) s' fi' = (if s' = s \<and> fi' = fi then bs else elem_get bc s' fi')"
proof (cases "fi' = fi")
  case True
  show ?thesis
  proof (cases "s' = s")
    case False
    have "length (bc_data bc) = length (bc_types bc)" using wf by (auto simp: wf_bc_def list_all2_conv_all_nth)
    with True False elem_range [OF wf fi(1) s(1)] elem_range [OF wf fi(1) s(2)] elem_disjoint [OF False, of "field_sizeof (bc_types bc ! fi)"] bs fi
    show ?thesis by (auto simp: elem_get_def elem_put_def Let_def intro!: slice_splice_disjoint)
  qed (use True elem_range [OF wf fi(1) s(1)] bs in \<open>simp add: elem_get_def elem_put_def Let_def\<close>)
qed (simp add: elem_get_def elem_put_def Let_def)

lemma elem_put_fields [simp]:
  "bc_types (elem_put bc s fi bs) = bc_types bc" "bc_count (elem_put bc s fi bs) = bc_count bc"
  "bc_bits (elem_put bc s fi bs) = bc_bits bc" "bc_gens (elem_put bc s fi bs) = bc_gens bc"
  "buf_id (elem_put bc s fi bs) = buf_id bc" "array_bytes (elem_put bc s fi bs) = array_bytes bc"
  "bc_hash (elem_put bc s fi bs) = bc_hash bc" "bc_name (elem_put bc s fi bs) = bc_name bc"
  by (auto simp: elem_put_def Let_def array_bytes_def)

lemma wf_elem_put:
  assumes "wf_bc bc" "fi < length (bc_types bc)" "s < unat (bc_count bc)" "length bs = field_sizeof (bc_types bc ! fi)"
  shows "wf_bc (elem_put bc s fi bs)"
proof -
  have "length (splice (s * field_sizeof (bc_types bc ! fi)) bs (bc_data bc ! fi)) = length (bc_data bc ! fi)"
    using elem_range [OF assms(1-3)] assms(4) by (intro length_splice) simp
  then show ?thesis using assms(1,2)
    by (auto simp: wf_bc_def list_all2_conv_all_nth elem_put_def Let_def array_bytes_def nth_list_update)
qed

lemma slot_bit_set:
  assumes "s < 8 * length bs" "s' < 8 * length bs"
  shows "slot_bit (set_slot_bit s v bs) s' = (if s' = s then v else slot_bit bs s')"
proof (cases "s' div 8 = s div 8")
  case True
  then have ne: "s' \<noteq> s \<Longrightarrow> s' mod 8 \<noteq> s mod 8" by (metis div_mult_mod_eq)
  have lt: "s mod 8 < 8" "s' mod 8 < 8" "s div 8 < length bs" using assms by auto
  show ?thesis using True ne lt by (cases v) (auto simp: slot_bit_def set_slot_bit_def bit_simps)
next
  case False
  then show ?thesis by (auto simp: slot_bit_def set_slot_bit_def)
qed

lemma length_set_slot_bit [simp]: "length (set_slot_bit s v bs) = length bs"
  by (simp add: set_slot_bit_def)

lemma state_elem_Some:
  assumes "state_elem ctx bid slot field = Some (i, s, fi)"
  shows "i < length (buffers ctx)" "i = unat bid - 1" "bid \<noteq> 0" "slot = int s" "s < unat (bc_count (buffers ctx ! i))"
    "s < 128" "fi < length (bc_types (buffers ctx ! i))" "fi = unat field - 1" "field \<noteq> 0"
    "slot_bit (bc_bits (buffers ctx ! i)) s"
proof -
  have f: "find_buffer ctx bid = Some i" "slot_is_allocated (buffers ctx ! i) slot" "s = nat slot" "fi = unat field - 1"
    "field \<noteq> 0" "unat field \<le> length (bc_types (buffers ctx ! i))"
    using assms by (auto simp: state_elem_def Let_def split: option.splits if_splits)
  then show "i < length (buffers ctx)" "i = unat bid - 1" "bid \<noteq> 0"
    using unat_gt_0 [of bid] by (auto simp: find_buffer_def split: if_splits)
  show "slot = int s" "s < unat (bc_count (buffers ctx ! i))" "s < 128" "slot_bit (bc_bits (buffers ctx ! i)) s"
    using f by (auto simp: slot_is_allocated_def state_limits split: if_splits)
  show "fi < length (bc_types (buffers ctx ! i))" "fi = unat field - 1" "field \<noteq> 0"
    using f unat_gt_0 [of field] by auto
qed

lemma upd_buffer_nth:
  "i < length (buffers ctx) \<Longrightarrow> buffers (upd_buffer i bc ctx) ! j = (if j = i then bc else buffers ctx ! j)"
  "length (buffers (upd_buffer i bc ctx)) = length (buffers ctx)"
  by (simp_all add: upd_buffer_def)

lemma find_upd [simp]: "find_buffer (upd_buffer i bc ctx) bid = find_buffer ctx bid"
  by (simp add: find_buffer_def upd_buffer_def)

lemma wf_upd: "wf_state ctx \<Longrightarrow> wf_bc bc \<Longrightarrow> clean_bc bc \<Longrightarrow> wf_state (upd_buffer i bc ctx)"
  by (auto simp: wf_state_def upd_buffer_def dest!: set_update_subset_insert [THEN subsetD])

lemma wf_stateD: "wf_state ctx \<Longrightarrow> i < length (buffers ctx) \<Longrightarrow> wf_bc (buffers ctx ! i) \<and> clean_bc (buffers ctx ! i)"
  by (auto simp: wf_state_def)

lemma word_index_eq:
  assumes "a \<noteq> 0" "b \<noteq> 0"
  shows "unat a - 1 = unat b - 1 \<longleftrightarrow> a = (b :: 'a::len word)"
proof -
  have "0 < unat a" "0 < unat b" using assms by (simp_all add: unat_gt_0)
  then have "unat a - 1 = unat b - 1 \<longleftrightarrow> unat a = unat b" by linarith
  then show ?thesis unfolding unat_eq_word .
qed

section \<open>Writing an element\<close>

text \<open>Both setters store \<open>bs\<close> as the element the reference selects.\<close>

lemma put_elem_state:
  assumes wf: "wf_state ctx" and e: "state_elem ctx bid slot field = Some (i, s, fi)"
    and bs: "length bs = field_sizeof (bc_types (buffers ctx ! i) ! fi)"
    and ctx': "ctx' = upd_buffer i (elem_put (buffers ctx ! i) s fi bs) ctx"
  shows "wf_state ctx'"
    and "state_elem ctx' = state_elem ctx"
    and "state_elem ctx bid' slot' field' = Some (j, s', fj) \<Longrightarrow>
      elem_get (buffers ctx' ! j) s' fj = (if bid' = bid \<and> slot' = slot \<and> field' = field then bs else elem_get (buffers ctx ! j) s' fj)"
    and "bc_types (buffers ctx' ! j) = bc_types (buffers ctx ! j)"
proof -
  note d = state_elem_Some [OF e] and w = wf_stateD [OF wf d(1)]
  have "clean_bc (elem_put (buffers ctx ! i) s fi bs)"
    using w d bs unfolding clean_bc_def by (auto simp: elem_get_put)
  then show "wf_state ctx'" unfolding ctx' using w d bs by (intro wf_upd wf wf_elem_put) auto
  have al: "slot_is_allocated (buffers ctx' ! j) = slot_is_allocated (buffers ctx ! j)"
    and ty: "bc_types (buffers ctx' ! j) = bc_types (buffers ctx ! j)" for j
    unfolding ctx' using d(1) by (auto simp: upd_buffer_nth slot_is_allocated_def fun_eq_iff)
  show "bc_types (buffers ctx' ! j) = bc_types (buffers ctx ! j)" by (rule ty)
  show "state_elem ctx' = state_elem ctx"
  proof -
    have "find_buffer ctx' = find_buffer ctx" by (simp add: ctx' fun_eq_iff)
    then show ?thesis unfolding fun_eq_iff state_elem_def Let_def al ty by simp
  qed
  show "elem_get (buffers ctx' ! j) s' fj = (if bid' = bid \<and> slot' = slot \<and> field' = field then bs else elem_get (buffers ctx ! j) s' fj)"
    if e': "state_elem ctx bid' slot' field' = Some (j, s', fj)"
  proof -
    note d' = state_elem_Some [OF e']
    have "j = i \<longleftrightarrow> bid' = bid" using word_index_eq [OF d'(3) d(3)] d'(2) d(2) by simp
    moreover have "fj = fi \<longleftrightarrow> field' = field" using word_index_eq [OF d'(9) d(9)] d'(8) d(8) by simp
    moreover have "s' = s \<longleftrightarrow> slot' = slot" using d(4) d'(4) by simp
    ultimately show ?thesis unfolding ctx' using w d d' bs by (auto simp: upd_buffer_nth elem_get_put)
  qed
qed

definition stored_bits :: "u8 \<Rightarrow> u32 \<Rightarrow> u32" where
  "stored_bits tag v = take_bit (8 * field_sizeof tag) (if tag = TYPE_F32 then blyt_canon_f32 v else v)"

lemma set_elem:
  assumes "blyt_state_set ctx bid slot field v = Some ctx'"
  obtains i s fi where "state_elem ctx bid slot field = Some (i, s, fi)"
    "bc_types (buffers ctx ! i) ! fi \<noteq> TYPE_F64"
    "ctx' = upd_buffer i (elem_put (buffers ctx ! i) s fi (le_bytes (field_sizeof (bc_types (buffers ctx ! i) ! fi))
       (if bc_types (buffers ctx ! i) ! fi = TYPE_F32 then blyt_canon_f32 v else v))) ctx"
  using assms by (auto simp: blyt_state_set_def Let_def split: option.splits if_splits)

lemma set64_elem:
  assumes "blyt_state_set64 ctx bid slot field v = Some ctx'"
  obtains i s fi where "state_elem ctx bid slot field = Some (i, s, fi)"
    "bc_types (buffers ctx ! i) ! fi = TYPE_F64"
    "ctx' = upd_buffer i (elem_put (buffers ctx ! i) s fi (le_bytes 8 (blyt_canon_f64 v))) ctx"
  using assms by (auto simp: blyt_state_set64_def Let_def split: option.splits if_splits)

lemma get_after_put:
  assumes wf: "wf_state ctx" and e: "state_elem ctx bid slot field = Some (i, s, fi)"
    and bs: "length bs = field_sizeof (bc_types (buffers ctx ! i) ! fi)"
    and ctx': "ctx' = upd_buffer i (elem_put (buffers ctx ! i) s fi bs) ctx"
    and ne: "(bid', slot', field') \<noteq> (bid, slot, field)"
  shows "blyt_state_get ctx' bid' slot' field' = blyt_state_get ctx bid' slot' field'"
    "blyt_state_get64 ctx' bid' slot' field' = blyt_state_get64 ctx bid' slot' field'"
proof -
  note p = put_elem_state [OF wf e bs ctx']
  have "elem_get (buffers ctx' ! j) s' fj = elem_get (buffers ctx ! j) s' fj"
    if "state_elem ctx bid' slot' field' = Some (j, s', fj)" for j s' fj
    using p(3) [OF that] ne by auto
  then show "blyt_state_get ctx' bid' slot' field' = blyt_state_get ctx bid' slot' field'"
    "blyt_state_get64 ctx' bid' slot' field' = blyt_state_get64 ctx bid' slot' field'"
    by (auto simp: blyt_state_get_def blyt_state_get64_def p(2,4) Let_def split: option.split)
qed

definition others_kept :: "blyt_state_ctx \<Rightarrow> blyt_state_ctx \<Rightarrow> u32 \<Rightarrow> int \<Rightarrow> u32 \<Rightarrow> bool" where
  "others_kept ctx ctx' bid slot field \<longleftrightarrow>
     (\<forall>bid' slot' field'. (bid', slot', field') \<noteq> (bid, slot, field) \<longrightarrow>
        blyt_state_get ctx' bid' slot' field' = blyt_state_get ctx bid' slot' field' \<and>
        blyt_state_get64 ctx' bid' slot' field' = blyt_state_get64 ctx bid' slot' field')"

lemma state_set_effect:
  assumes wf: "wf_state ctx" and set: "blyt_state_set ctx bid slot field v = Some ctx'"
  shows "wf_state ctx'" "others_kept ctx ctx' bid slot field"
    "blyt_state_get ctx' bid slot field =
       Some (stored_bits (bc_types (buffers ctx ! (unat bid - 1)) ! (unat field - 1)) v)"
proof -
  obtain i s fi where e: "state_elem ctx bid slot field = Some (i, s, fi)"
    and t: "bc_types (buffers ctx ! i) ! fi \<noteq> TYPE_F64"
    and c: "ctx' = upd_buffer i (elem_put (buffers ctx ! i) s fi (le_bytes (field_sizeof (bc_types (buffers ctx ! i) ! fi))
       (if bc_types (buffers ctx ! i) ! fi = TYPE_F32 then blyt_canon_f32 v else v))) ctx"
    using set_elem [OF set] .
  note p = put_elem_state [OF wf e _ c] and g = get_after_put [OF wf e _ c] and d = state_elem_Some [OF e]
  show "wf_state ctx'" by (rule p(1)) simp
  show "others_kept ctx ctx' bid slot field" unfolding others_kept_def by (blast intro: g length_le_bytes)
  have pe: "state_elem ctx' bid slot field = Some (i, s, fi)" using p(2) e by simp
  have ty: "bc_types (buffers ctx' ! i) ! fi = bc_types (buffers ctx ! i) ! fi" using p(4) [of i] by simp
  have "blyt_state_get ctx' bid slot field = Some (stored_bits (bc_types (buffers ctx ! i) ! fi) v)"
    using p(3) [OF _ e] t by (simp add: blyt_state_get_def pe ty stored_bits_def le_of_le_bytes)
  then show "blyt_state_get ctx' bid slot field =
       Some (stored_bits (bc_types (buffers ctx ! (unat bid - 1)) ! (unat field - 1)) v)"
    using d(2,8) by simp
qed

lemma state_set64_effect:
  assumes wf: "wf_state ctx" and set: "blyt_state_set64 ctx bid slot field v = Some ctx'"
  shows "wf_state ctx'" "others_kept ctx ctx' bid slot field"
    "blyt_state_get64 ctx' bid slot field = Some (blyt_canon_f64 v)"
proof -
  obtain i s fi where e: "state_elem ctx bid slot field = Some (i, s, fi)"
    and t: "bc_types (buffers ctx ! i) ! fi = TYPE_F64"
    and c: "ctx' = upd_buffer i (elem_put (buffers ctx ! i) s fi (le_bytes 8 (blyt_canon_f64 v))) ctx"
    using set64_elem [OF set] .
  have l: "length (le_bytes 8 (blyt_canon_f64 v)) = field_sizeof (bc_types (buffers ctx ! i) ! fi)"
    by (simp add: t field_sizeof_def type_tags)
  note p = put_elem_state [OF wf e l c]
  show "wf_state ctx'" by (rule p(1))
  show "others_kept ctx ctx' bid slot field" unfolding others_kept_def by (blast intro: get_after_put [OF wf e l c])
  show "blyt_state_get64 ctx' bid slot field = Some (blyt_canon_f64 v)"
    using p(3) [OF e] t p(4) [of i] by (simp add: blyt_state_get64_def p(2) e)
qed

text \<open>
  C37: what is stored can be read back.  A successful 32-bit write returns on the next read
  exactly the written bits cut to the field's width (an f32 NaN replaced by the canonical one),
  a 64-bit write the canonicalised double, and no other element of any buffer changes.
\<close>

theorem state_set_get:
  assumes "wf_state ctx"
  shows "(\<forall>ctx'. blyt_state_set ctx bid slot field v = Some ctx' \<longrightarrow>
      others_kept ctx ctx' bid slot field \<and> blyt_state_get ctx' bid slot field =
        Some (stored_bits (bc_types (buffers ctx ! (unat bid - 1)) ! (unat field - 1)) v)) \<and>
    (\<forall>ctx'. blyt_state_set64 ctx bid slot field w = Some ctx' \<longrightarrow>
      others_kept ctx ctx' bid slot field \<and> blyt_state_get64 ctx' bid slot field = Some (blyt_canon_f64 w))"
  by (intro conjI allI impI) (erule state_set_effect [OF assms] state_set64_effect [OF assms])+

section \<open>Slots\<close>

lemma find_buffer_Some: "find_buffer ctx bid = Some i \<Longrightarrow> i < length (buffers ctx) \<and> i = unat bid - 1 \<and> bid \<noteq> 0"
  using unat_gt_0 [of bid] by (auto simp: find_buffer_def split: if_splits)

lemma find_upt_Some:
  "find P [0..<n] = Some s \<Longrightarrow> s < n \<and> P s \<and> (\<forall>i < s. \<not> P i)"
  by (auto simp: find_Some_iff)

lemma find_upt_None: "find P [0..<n] = None \<longleftrightarrow> (\<forall>i < n. \<not> P i)"
  by (auto simp: find_None_iff)

lemma alloc_slot_effect:
  assumes wf: "wf_state ctx" and a: "blyt_state_alloc_slot ctx bid = Some (ctx', slot)"
  obtains (full) i where "find_buffer ctx bid = Some i" "slot = - 1" "ctx' = ctx"
      "\<forall>s < min (unat (bc_count (buffers ctx ! i))) 128. slot_bit (bc_bits (buffers ctx ! i)) s"
    | (got) i s where "find_buffer ctx bid = Some i" "slot = int s" "s < unat (bc_count (buffers ctx ! i))" "s < 128"
      "\<not> slot_bit (bc_bits (buffers ctx ! i)) s" "\<forall>r < s. slot_bit (bc_bits (buffers ctx ! i)) r"
      "ctx' = upd_buffer i ((buffers ctx ! i)\<lparr>bc_bits := set_slot_bit s True (bc_bits (buffers ctx ! i))\<rparr>) ctx"
proof -
  obtain i where i: "find_buffer ctx bid = Some i"
    using a by (auto simp: blyt_state_alloc_slot_def split: option.splits)
  let ?bc = "buffers ctx ! i"
  let ?f = "find (\<lambda>s. \<not> slot_bit (bc_bits ?bc) s) [0..<min (unat (bc_count ?bc)) BLYT_MAX_SLOTS]"
  show thesis
  proof (cases ?f)
    case None
    then have "slot = - 1" "ctx' = ctx" using a i by (simp_all add: blyt_state_alloc_slot_def Let_def)
    with i find_upt_None [THEN iffD1, OF None] show thesis by (intro full [of i]) (auto simp: state_limits)
  next
    case (Some s)
    then show thesis using a i find_upt_Some [OF Some] by (intro got [of i s])
      (auto simp: blyt_state_alloc_slot_def Let_def state_limits)
  qed
qed

lemma wf_bits_only:
  assumes "wf_bc bc" "clean_bc bc" "s < 128"
  shows "wf_bc (bc\<lparr>bc_bits := set_slot_bit s True (bc_bits bc)\<rparr>)" "clean_bc (bc\<lparr>bc_bits := set_slot_bit s True (bc_bits bc)\<rparr>)"
  using assms by (auto simp: wf_bc_def clean_bc_def array_bytes_def elem_get_def slot_bit_set)

lemma alloc_slot_wf:
  assumes wf: "wf_state ctx" and a: "blyt_state_alloc_slot ctx bid = Some (ctx', slot)"
  shows "wf_state ctx'"
  using wf a
proof (cases rule: alloc_slot_effect)
  case (got i s)
  then show ?thesis using wf_stateD [OF wf] find_buffer_Some by (auto intro!: wf_upd wf wf_bits_only)
qed (use wf in simp)

lemma zero_slot_nth:
  assumes "wf_bc bc" "fi < length (bc_types bc)"
  shows "zero_slot s (bc_types bc) (bc_data bc) ! fi =
    splice (s * field_sizeof (bc_types bc ! fi)) (replicate (field_sizeof (bc_types bc ! fi)) 0) (bc_data bc ! fi)"
    "length (zero_slot s (bc_types bc) (bc_data bc)) = length (bc_types bc)"
  using assms by (auto simp: zero_slot_def wf_bc_def list_all2_conv_all_nth)

definition freed :: "nat \<Rightarrow> blyt_buffer_ctx \<Rightarrow> blyt_buffer_ctx" where
  "freed s bc = bc\<lparr>bc_bits := set_slot_bit s False (bc_bits bc), bc_data := zero_slot s (bc_types bc) (bc_data bc),
     bc_gens := (bc_gens bc)[s := blyt_gen_next (bc_gens bc ! s)]\<rparr>"

lemma freed_fields [simp]: "bc_types (freed s bc) = bc_types bc" "bc_count (freed s bc) = bc_count bc"
  by (simp_all add: freed_def)

lemma elem_get_freed:
  assumes wf: "wf_bc bc" and fi: "fi < length (bc_types bc)" and s: "s < unat (bc_count bc)" "s' < unat (bc_count bc)"
  shows "elem_get (freed s bc) s' fi = (if s' = s then replicate (field_sizeof (bc_types bc ! fi)) 0 else elem_get bc s' fi)"
  using elem_range [OF wf fi s(1)] elem_range [OF wf fi s(2)] elem_disjoint [of s' s "field_sizeof (bc_types bc ! fi)"]
  by (auto simp: elem_get_def freed_def zero_slot_nth [OF wf fi] Let_def intro!: slice_splice_disjoint)

lemma wf_freed:
  assumes wf: "wf_bc bc" "clean_bc bc" and s: "s < unat (bc_count bc)" "s < 128"
  shows "wf_bc (freed s bc)" "clean_bc (freed s bc)"
proof -
  have len: "length (bc_gens bc) = 128" "length (bc_bits bc) = 16" using wf by (auto simp: wf_bc_def)
  have "length (zero_slot s (bc_types bc) (bc_data bc) ! fi) = array_bytes bc (bc_types bc ! fi)"
    if fi: "fi < length (bc_types bc)" for fi
    using elem_range [OF wf(1) fi s(1)] wf(1) fi unfolding zero_slot_nth [OF wf(1) fi]
    by (subst length_splice) (auto simp: wf_bc_def list_all2_conv_all_nth)
  then have "list_all2 (\<lambda>t d. length d = array_bytes bc t) (bc_types bc) (zero_slot s (bc_types bc) (bc_data bc))"
    using wf(1) by (auto simp: list_all2_conv_all_nth zero_slot_def wf_bc_def)
  moreover have "\<forall>g \<in> set ((bc_gens bc)[s := blyt_gen_next (bc_gens bc ! s)]). g \<noteq> 0"
    using wf(1) s len by (auto simp: wf_bc_def dest!: set_update_subset_insert [THEN subsetD])
  ultimately show "wf_bc (freed s bc)" using len by (simp add: wf_bc_def freed_def array_bytes_def)
  show "clean_bc (freed s bc)" unfolding clean_bc_def
  proof (intro allI impI)
    fix r fi assume r: "r < min (unat (bc_count (freed s bc))) 128" "fi < length (bc_types (freed s bc))"
      "\<not> slot_bit (bc_bits (freed s bc)) r"
    then have "r = s \<or> \<not> slot_bit (bc_bits bc) r" using s len by (auto simp: freed_def slot_bit_set)
    with r wf(2) s show "elem_get (freed s bc) r fi = replicate (field_sizeof (bc_types (freed s bc) ! fi)) 0"
      by (auto simp: elem_get_freed [OF wf(1)] clean_bc_def)
  qed
qed

lemma free_slot_effect:
  assumes wf: "wf_state ctx" and a: "blyt_state_free_slot ctx bid slot = Some ctx'"
  obtains i s where "find_buffer ctx bid = Some i" "slot = int s" "s < unat (bc_count (buffers ctx ! i))" "s < 128"
    "slot_bit (bc_bits (buffers ctx ! i)) s" "ctx' = upd_buffer i (freed s (buffers ctx ! i)) ctx" "wf_state ctx'"
proof -
  obtain i where i: "find_buffer ctx bid = Some i" "\<not> slot < 0" "nat slot < unat (bc_count (buffers ctx ! i))"
    "nat slot < 128" "slot_bit (bc_bits (buffers ctx ! i)) (nat slot)"
    "ctx' = upd_buffer i (freed (nat slot) (buffers ctx ! i)) ctx"
    using a by (auto simp: blyt_state_free_slot_def Let_def slot_is_allocated_def state_limits freed_def
        linorder_not_le split: option.splits if_splits)
  moreover have "wf_state ctx'"
    unfolding i(6) using wf_stateD [OF wf] find_buffer_Some [OF i(1)] i by (intro wf_upd wf wf_freed) auto
  ultimately show thesis by (intro that [of i "nat slot"]) auto
qed

text \<open>
  C38: allocation hands out the lowest free slot, whose fields all read as zero bytes; it marks
  that slot and changes nothing else, and it fails exactly when every slot below the declared
  count and the 128-slot cap is taken.
\<close>

theorem alloc_slot_lowest:
  assumes wf: "wf_state ctx" and a: "blyt_state_alloc_slot ctx bid = Some (ctx', slot)"
  shows "let bc = buffers ctx ! (unat bid - 1); bc' = buffers ctx' ! (unat bid - 1); n = min (unat (bc_count bc)) 128
    in if slot = - 1 then ctx' = ctx \<and> (\<forall>s < n. slot_is_allocated bc (int s))
       else 0 \<le> slot \<and> nat slot < n \<and> \<not> slot_is_allocated bc slot \<and> (\<forall>s. 0 \<le> s \<and> s < slot \<longrightarrow> slot_is_allocated bc s) \<and>
         (\<forall>s. slot_is_allocated bc' s \<longleftrightarrow> s = slot \<or> slot_is_allocated bc s) \<and>
         (\<forall>fi < length (bc_types bc). elem_get bc' (nat slot) fi = replicate (field_sizeof (bc_types bc ! fi)) 0) \<and>
         bc_data bc' = bc_data bc \<and> bc_gens bc' = bc_gens bc"
  using wf a
proof (cases rule: alloc_slot_effect)
  case (full i)
  then show ?thesis using find_buffer_Some [OF full(1)]
    by (auto simp: slot_is_allocated_def state_limits Let_def)
next
  case (got i s)
  note f = find_buffer_Some [OF got(1)]
  have w: "wf_bc (buffers ctx ! i)" "clean_bc (buffers ctx ! i)" using wf_stateD [OF wf] f by auto
  then have len: "length (bc_bits (buffers ctx ! i)) = 16" by (simp add: wf_bc_def)
  have bits: "slot_bit (set_slot_bit s True (bc_bits (buffers ctx ! i))) r = (r = s \<or> slot_bit (bc_bits (buffers ctx ! i)) r)"
    if "r < 128" for r using slot_bit_set [of s "bc_bits (buffers ctx ! i)" r True] len got(4) that by auto
  have bc': "buffers ctx' ! i = (buffers ctx ! i)\<lparr>bc_bits := set_slot_bit s True (bc_bits (buffers ctx ! i))\<rparr>"
    using f got(7) by (simp add: upd_buffer_nth)
  have "slot_is_allocated (buffers ctx' ! i) r \<longleftrightarrow> r = slot \<or> slot_is_allocated (buffers ctx ! i) r" for r
    using got(2,3,4) by (auto simp: bc' slot_is_allocated_def state_limits bits)
  moreover have "elem_get (buffers ctx' ! i) s fi = replicate (field_sizeof (bc_types (buffers ctx ! i) ! fi)) 0"
    if "fi < length (bc_types (buffers ctx ! i))" for fi
    using that w(2) got(3-5) by (auto simp: bc' elem_get_def clean_bc_def)
  moreover have "\<forall>r. 0 \<le> r \<and> r < slot \<longrightarrow> slot_is_allocated (buffers ctx ! i) r" "\<not> slot_is_allocated (buffers ctx ! i) slot"
    using got(2-6) by (auto simp: slot_is_allocated_def state_limits)
  moreover have "bc_data (buffers ctx' ! i) = bc_data (buffers ctx ! i)" "bc_gens (buffers ctx' ! i) = bc_gens (buffers ctx ! i)"
    by (simp_all add: bc')
  moreover have iu: "unat bid - 1 = i" using f by simp
  ultimately show ?thesis unfolding Let_def iu using got(2-4) by auto
qed

section \<open>Entity references\<close>

lemma ref_pack:
  assumes "s < 65536" and r: "r = push_bit 16 (ucast (g :: u16)) OR (of_nat s :: u32)"
  shows "uint (r AND 0xFFFF) = int s" "ucast (drop_bit 16 r) = g" "g \<noteq> 0 \<Longrightarrow> r \<noteq> 0"
proof -
  have m: "(0xFFFF :: u32) = mask 16" by (simp add: mask_eq_exp_minus_1)
  have s: "take_bit 16 (of_nat s :: u32) = of_nat s"
  proof -
    have "unat (of_nat s :: u32) = s" using assms(1) by (simp add: unsigned_of_nat take_bit_nat_eq_self)
    then show ?thesis using assms(1)
      by (simp add: word_unat_eq_iff unsigned_take_bit_eq take_bit_nat_eq_self)
  qed
  have sb: "\<not> bit (of_nat s :: u32) n" if "16 \<le> n" for n
    using that s by (metis bit_take_bit_iff linorder_not_less)
  have "r AND mask 16 = of_nat s"
    unfolding r by (rule bit_word_eqI) (use sb in \<open>auto simp: bit_simps not_less [symmetric]\<close>)
  then show "uint (r AND 0xFFFF) = int s"
    unfolding m using assms(1) by (simp add: unsigned_of_nat take_bit_nat_eq_self)
  show g: "ucast (drop_bit 16 r) = g"
    unfolding r by (rule bit_word_eqI) (use sb in \<open>auto simp: bit_simps\<close>)
  show "g \<noteq> 0 \<Longrightarrow> r \<noteq> 0" using g by auto
qed

definition gen_of :: "blyt_state_ctx \<Rightarrow> u32 \<Rightarrow> int \<Rightarrow> u16" where
  "gen_of ctx bid slot = bc_gens (buffers ctx ! (unat bid - 1)) ! nat slot"

text \<open>
  A run of state operations, counting the successful releases of one slot.
\<close>

inductive slot_run :: "u32 \<Rightarrow> int \<Rightarrow> blyt_state_ctx \<Rightarrow> nat \<Rightarrow> blyt_state_ctx \<Rightarrow> bool" for bid slot where
  run_refl: "slot_run bid slot ctx 0 ctx"
| run_set: "slot_run bid slot ctx n ctx' \<Longrightarrow> blyt_state_set ctx' b s f v = Some ctx'' \<Longrightarrow> slot_run bid slot ctx n ctx''"
| run_set64: "slot_run bid slot ctx n ctx' \<Longrightarrow> blyt_state_set64 ctx' b s f w = Some ctx'' \<Longrightarrow> slot_run bid slot ctx n ctx''"
| run_alloc: "slot_run bid slot ctx n ctx' \<Longrightarrow> blyt_state_alloc_slot ctx' b = Some (ctx'', r) \<Longrightarrow> slot_run bid slot ctx n ctx''"
| run_free: "slot_run bid slot ctx n ctx' \<Longrightarrow> blyt_state_free_slot ctx' b s = Some ctx'' \<Longrightarrow>
    slot_run bid slot ctx (if b = bid \<and> s = slot then Suc n else n) ctx''"

definition gens_kept :: "blyt_state_ctx \<Rightarrow> blyt_state_ctx \<Rightarrow> bool" where
  "gens_kept ctx ctx' \<longleftrightarrow> length (buffers ctx') = length (buffers ctx) \<and>
     (\<forall>i. bc_gens (buffers ctx' ! i) = bc_gens (buffers ctx ! i) \<and> bc_count (buffers ctx' ! i) = bc_count (buffers ctx ! i))"

lemma gens_kept_upd:
  "i < length (buffers ctx) \<Longrightarrow> bc_gens bc = bc_gens (buffers ctx ! i) \<Longrightarrow> bc_count bc = bc_count (buffers ctx ! i) \<Longrightarrow>
   gens_kept ctx (upd_buffer i bc ctx)"
  by (auto simp: gens_kept_def upd_buffer_nth)

lemma set_gens: "blyt_state_set ctx b s f v = Some ctx' \<Longrightarrow> gens_kept ctx ctx'"
  by (erule set_elem) (auto intro!: gens_kept_upd dest: state_elem_Some)

lemma set64_gens: "blyt_state_set64 ctx b s f v = Some ctx' \<Longrightarrow> gens_kept ctx ctx'"
  by (erule set64_elem) (auto intro!: gens_kept_upd dest: state_elem_Some)

lemma alloc_gens:
  assumes "wf_state ctx" "blyt_state_alloc_slot ctx b = Some (ctx', r)"
  shows "gens_kept ctx ctx'"
  using assms
proof (cases rule: alloc_slot_effect)
  case (got i s)
  then show ?thesis using find_buffer_Some by (auto intro!: gens_kept_upd)
qed (simp add: gens_kept_def)

lemma slot_run_gen:
  assumes "slot_run bid slot ctx n ctx'" "wf_state ctx" "bid \<noteq> 0" "0 \<le> slot" "slot < 128" "unat bid \<le> length (buffers ctx)"
  shows "wf_state ctx' \<and> length (buffers ctx') = length (buffers ctx) \<and> gen_of ctx' bid slot = (blyt_gen_next ^^ n) (gen_of ctx bid slot)"
  using assms
proof (induction rule: slot_run.induct)
  case (run_set ctx n ctx' b s f v ctx'')
  then show ?case using state_set_effect(1) set_gens by (auto simp: gens_kept_def gen_of_def)
next
  case (run_set64 ctx n ctx' b s f w ctx'')
  then show ?case using state_set64_effect(1) set64_gens by (auto simp: gens_kept_def gen_of_def)
next
  case (run_alloc ctx n ctx' b ctx'' r)
  then show ?case using alloc_slot_wf alloc_gens by (auto simp: gens_kept_def gen_of_def)
next
  case (run_free ctx n ctx' b s ctx'')
  then have ih: "wf_state ctx'" "length (buffers ctx') = length (buffers ctx)"
    "gen_of ctx' bid slot = (blyt_gen_next ^^ n) (gen_of ctx bid slot)" by auto
  obtain i k where f: "find_buffer ctx' b = Some i" "s = int k" "k < 128"
    "ctx'' = upd_buffer i (freed k (buffers ctx' ! i)) ctx'" "wf_state ctx''"
    using free_slot_effect [OF ih(1) run_free(2)] by metis
  note fb = find_buffer_Some [OF f(1)]
  have len: "length (bc_gens (buffers ctx' ! i)) = 128" using wf_stateD [OF ih(1)] fb by (auto simp: wf_bc_def)
  have ib: "i = unat bid - 1 \<longleftrightarrow> b = bid" using word_index_eq [of b bid] fb run_free.prems(2) by auto
  have "gen_of ctx'' bid slot = (if b = bid \<and> s = slot then blyt_gen_next (gen_of ctx' bid slot) else gen_of ctx' bid slot)"
  proof (cases "b = bid")
    case True
    have "k = nat slot \<longleftrightarrow> s = slot" "nat slot < 128" using f(2) run_free.prems(3,4) by auto
    moreover have "buffers ctx'' ! i = freed k (buffers ctx' ! i)" using fb f(4) by (simp add: upd_buffer_nth)
    ultimately show ?thesis using ib True len
      by (auto simp: gen_of_def freed_def nth_list_update)
  next
    case False
    then have "buffers ctx'' ! (unat bid - 1) = buffers ctx' ! (unat bid - 1)" using fb f(4) ib by (simp add: upd_buffer_nth)
    then show ?thesis using False by (simp add: gen_of_def)
  qed
  then show ?case using ih f(4,5) by (simp add: upd_buffer_nth)
qed simp


section \<open>Whole-state operations\<close>

lemma wf_bcD: "wf_bc bc \<Longrightarrow> length (bc_data bc) = length (bc_types bc)"
  "wf_bc bc \<Longrightarrow> fi < length (bc_types bc) \<Longrightarrow> length (bc_data bc ! fi) = array_bytes bc (bc_types bc ! fi)"
  by (auto simp: wf_bc_def list_all2_conv_all_nth)

lemma elem_fits: "s < c \<Longrightarrow> s * n + n \<le> (c * n :: nat)"
  using mult_le_mono1 [of "Suc s" c n] by simp

lemma init_buffer_wf: "init_buffer calloc_ok layouts bi d = Some bc \<Longrightarrow> wf_bc bc \<and> clean_bc bc"
  by (auto simp: init_buffer_def Let_def wf_bc_def clean_bc_def array_bytes_def elem_get_def state_limits
      list_all2_conv_all_nth split: option.splits if_splits intro!: slice_replicate elem_fits)

lemma init_buffers_wf: "init_buffers calloc_ok layouts bi ds = Some bufs \<Longrightarrow> \<forall>bc \<in> set bufs. wf_bc bc \<and> clean_bc bc"
  by (induction calloc_ok layouts bi ds arbitrary: bufs rule: init_buffers.induct)
    (auto dest: init_buffer_wf split: if_splits option.splits)

lemma init_wf: "blyt_state_ctx_init calloc_ok as_root sect = (rc, ctx) \<Longrightarrow> wf_state ctx"
  by (auto simp: blyt_state_ctx_init_def wf_state_def Let_def blyt_state_ctx_destroy_def
      dest!: init_buffers_wf split: option.splits if_splits)

lemma zero_data_wf:
  assumes "wf_state ctx"
  shows "wf_state (blyt_state_ctx_zero_data ctx)"
proof -
  have "wf_bc bc' \<and> clean_bc bc'"
    if bc: "wf_bc bc" and bc': "bc' = bc\<lparr>bc_bits := replicate (length (bc_bits bc)) 0, bc_gens := replicate BLYT_MAX_SLOTS 1,
        bc_data := map2 (\<lambda>t d. splice 0 (replicate (array_bytes bc t) 0) d) (bc_types bc) (bc_data bc)\<rparr>" for bc bc'
  proof -
    have "bc_data bc' = map (\<lambda>t. replicate (array_bytes bc t) 0) (bc_types bc)"
      unfolding bc' using wf_bcD [OF bc] by (auto intro!: nth_equalityI simp: splice_def)
    then have d: "\<And>fi. fi < length (bc_types bc) \<Longrightarrow> bc_data bc' ! fi = replicate (array_bytes bc (bc_types bc ! fi)) 0"
      "length (bc_data bc') = length (bc_types bc)" by simp_all
    have "wf_bc bc'" using bc d by (auto simp: wf_bc_def bc' array_bytes_def state_limits list_all2_conv_all_nth)
    moreover have "clean_bc bc'" unfolding clean_bc_def
    proof (intro allI impI)
      fix s fi assume "s < min (unat (bc_count bc')) 128" "fi < length (bc_types bc')"
      then have r: "s < unat (bc_count bc')" "fi < length (bc_types bc')" by auto
      from elem_range(1) [OF \<open>wf_bc bc'\<close> r(2,1)] d(1) [of fi] r
      show "elem_get bc' s fi = replicate (field_sizeof (bc_types bc' ! fi)) 0"
        by (auto simp: elem_get_def Let_def bc' intro!: slice_replicate)
    qed
    ultimately show ?thesis ..
  qed
  then show ?thesis using assms unfolding wf_state_def blyt_state_ctx_zero_data_def by auto
qed

inductive state_step :: "blyt_state_ctx \<Rightarrow> blyt_state_ctx \<Rightarrow> bool" where
  state_set: "blyt_state_set ctx b s f v = Some ctx' \<Longrightarrow> state_step ctx ctx'"
| state_set64: "blyt_state_set64 ctx b s f w = Some ctx' \<Longrightarrow> state_step ctx ctx'"
| state_alloc: "blyt_state_alloc_slot ctx b = Some (ctx', r) \<Longrightarrow> state_step ctx ctx'"
| state_free: "blyt_state_free_slot ctx b s = Some ctx' \<Longrightarrow> state_step ctx ctx'"
| state_zero: "state_step ctx (blyt_state_ctx_zero_data ctx)"

lemma state_step_wf: "state_step ctx ctx' \<Longrightarrow> wf_state ctx \<Longrightarrow> wf_state ctx'"
  by (induction rule: state_step.induct)
    (auto intro: state_set_effect(1) state_set64_effect(1) alloc_slot_wf zero_data_wf elim: free_slot_effect)

text \<open>Every operation keeps the layout of every buffer.\<close>

definition layout :: "blyt_buffer_ctx \<Rightarrow> blyt_buffer_ctx" where
  "layout bc = bc\<lparr>bc_data := [], bc_bits := [], bc_gens := []\<rparr>"

lemma layout_put [simp]: "layout (elem_put bc s fi bs) = layout bc" "layout (freed s bc) = layout bc"
  "layout (bc\<lparr>bc_bits := bits\<rparr>) = layout bc"
  by (simp_all add: layout_def elem_put_def freed_def Let_def)

lemma layout_upd:
  "layout bc = layout (buffers ctx ! i) \<Longrightarrow> map layout (buffers (upd_buffer i bc ctx)) = map layout (buffers ctx)"
  by (simp add: upd_buffer_def map_update) (metis list_update_beyond list_update_same_conv linorder_not_less length_map nth_map)

lemma state_step_layout: "state_step ctx ctx' \<Longrightarrow> wf_state ctx \<Longrightarrow> map layout (buffers ctx') = map layout (buffers ctx)"
proof (induction rule: state_step.induct)
  case (state_set ctx b s f v ctx')
  from state_set(1) show ?case by (rule set_elem) (auto simp: layout_upd)
next
  case (state_set64 ctx b s f w ctx')
  from state_set64(1) show ?case by (rule set64_elem) (auto simp: layout_upd)
next
  case (state_alloc ctx b ctx' r)
  from state_alloc(2,1) show ?case
    by (cases rule: alloc_slot_effect) (auto simp: layout_upd)
next
  case (state_free ctx b s ctx')
  from state_free(2,1) show ?case by (rule free_slot_effect) (auto simp: layout_upd)
next
  case (state_zero ctx)
  show ?case by (simp add: blyt_state_ctx_zero_data_def layout_def)
qed

lemma state_steps:
  "state_step\<^sup>*\<^sup>* ctx ctx' \<Longrightarrow> wf_state ctx \<Longrightarrow> wf_state ctx' \<and> map layout (buffers ctx') = map layout (buffers ctx)"
  by (induction rule: rtranclp_induct) (auto dest: state_step_layout intro: state_step_wf)

lemma restore_buffer_same:
  assumes "wf_bc bc" "wf_bc bc'" "layout bc' = layout bc"
    and sn: "sn = \<lparr>sn_count = bc_count bc, sn_types = bc_types bc,
              sn_data = map2 (\<lambda>t d. take (array_bytes bc t) d) (bc_types bc) (bc_data bc),
              sn_bits = bc_bits bc, sn_gens = bc_gens bc\<rparr>"
  shows "restore_buffer bc' sn = bc"
proof -
  have l: "bc_types bc' = bc_types bc" "bc_count bc' = bc_count bc" "array_bytes bc' = array_bytes bc"
    using arg_cong [OF assms(3), of bc_types] arg_cong [OF assms(3), of bc_count]
    by (auto simp: layout_def array_bytes_def)
  have d: "map2 (\<lambda>t d. take (array_bytes bc t) d) (bc_types bc) (bc_data bc) = bc_data bc"
    using wf_bcD [OF assms(1)] by (auto intro!: nth_equalityI)
  have "map2 (\<lambda>t (d, e). splice 0 (take (array_bytes bc t) e) d) (bc_types bc) (zip (bc_data bc') (bc_data bc)) = bc_data bc"
    using wf_bcD [OF assms(1)] wf_bcD [OF assms(2)] l by (auto intro!: nth_equalityI simp: splice_def)
  then have "restore_buffer bc' sn = bc'\<lparr>bc_bits := bc_bits bc, bc_gens := bc_gens bc, bc_data := bc_data bc\<rparr>"
    by (simp add: restore_buffer_def sn l d)
  also have "\<dots> = bc" using assms(3) by (cases bc; cases bc') (simp add: layout_def)
  finally show ?thesis .
qed

text \<open>
  C12: a state built from the cart's layouts is well formed, and so is everything any sequence of
  writes, slot allocations, releases and resets makes of it; restoring a snapshot after any such
  sequence gives back exactly the state that was snapshotted.
\<close>

theorem state_snapshot_restore:
  assumes init: "blyt_state_ctx_init calloc_ok as_root sect = (rc, ctx0)" and run: "state_step\<^sup>*\<^sup>* ctx0 ctx"
    and snap: "blyt_state_ctx_snapshot malloc_ok ctx = Some sn" and run': "state_step\<^sup>*\<^sup>* ctx ctx'"
  shows "wf_state ctx \<and> wf_state ctx' \<and> blyt_state_ctx_restore_snapshot ctx' (Some sn) = ctx"
proof -
  have wf: "wf_state ctx" using state_steps [OF run] init_wf [OF init] by simp
  note r = state_steps [OF run' wf]
  have len: "length (buffers ctx') = length (buffers ctx)" using r by (metis length_map)
  have "restore_buffer (buffers ctx' ! i) (sn ! i) = buffers ctx ! i" if i: "i < length (buffers ctx)" for i
  proof (rule restore_buffer_same)
    show "layout (buffers ctx' ! i) = layout (buffers ctx ! i)" using r i len by (metis nth_map)
  qed (use i len wf r snap in \<open>auto simp: wf_state_def blyt_state_ctx_snapshot_def Let_def split: if_splits\<close>)
  then have "map2 restore_buffer (buffers ctx') sn = buffers ctx"
    using len snap by (auto intro!: nth_equalityI simp: blyt_state_ctx_snapshot_def split: if_splits)
  then show ?thesis using wf r len snap
    by (auto simp: blyt_state_ctx_restore_snapshot_def blyt_state_ctx_snapshot_def split: if_splits)
qed

section \<open>Concrete instances\<close>

definition demo_layouts :: cart_layouts where
  "demo_layouts = \<lparr>cl_buffers = [\<lparr>bd_name = Some [0x65], bd_record_name = [0x72], bd_count = 3\<rparr>],
     cl_records = [\<lparr>rd_name = [0x72], rd_fields = [\<lparr>fd_name = None, fd_type_tag = TYPE_I16\<rparr>,
        \<lparr>fd_name = None, fd_type_tag = TYPE_F32\<rparr>, \<lparr>fd_name = None, fd_type_tag = TYPE_F64\<rparr>]\<rparr>],
     cl_schema_hash = 7\<rparr>"

definition demo_init :: "int \<times> blyt_state_ctx" where
  "demo_init = blyt_state_ctx_init (\<lambda>_. True) (\<lambda>_. Some demo_layouts) (Some (replicate 9 0))"

definition demo_state :: blyt_state_ctx where
  "demo_state = (case blyt_state_alloc_slot (snd demo_init) 1 of Some (c, _) \<Rightarrow> c | None \<Rightarrow> snd demo_init)"

lemma demo_init_eq: "blyt_state_ctx_init (\<lambda>_. True) (\<lambda>_. Some demo_layouts) (Some (replicate 9 0)) = (0, snd demo_init)"
proof -
  have "fst demo_init = 0" by code_simp
  then show ?thesis by (metis demo_init_def prod.collapse)
qed

lemma demo_alloc: "blyt_state_alloc_slot (snd demo_init) 1 = Some (demo_state, 0)"
proof -
  have "map_option snd (blyt_state_alloc_slot (snd demo_init) 1) = Some 0" by code_simp
  then show ?thesis by (auto simp: demo_state_def)
qed

lemma demo_wf: "wf_state (snd demo_init)" "wf_state demo_state"
  using init_wf [OF demo_init_eq] alloc_slot_wf [OF _ demo_alloc] by auto

theorem state_set_get_witness:
  "wf_state demo_state \<and>
   (\<exists>ctx'. blyt_state_set demo_state 1 0 2 0x7F800001 = Some ctx' \<and> blyt_state_get ctx' 1 0 2 = Some 0x7FC00000)"
proof -
  have "map_option (\<lambda>_. ()) (blyt_state_set demo_state 1 0 2 0x7F800001) = Some ()" by code_simp
  moreover have "stored_bits (bc_types (buffers demo_state ! (unat (1 :: u32) - 1)) ! (unat (2 :: u32) - 1)) 0x7F800001 = 0x7FC00000"
    by code_simp
  ultimately show ?thesis using state_set_get [OF demo_wf(2), of 1 0 2 "0x7F800001"] demo_wf by auto
qed

theorem alloc_slot_lowest_witness:
  "wf_state demo_state \<and>
   (\<exists>ctx'. blyt_state_alloc_slot demo_state 1 = Some (ctx', 1) \<and> bc_data (buffers ctx' ! 0) = bc_data (buffers demo_state ! 0))"
proof -
  have "map_option snd (blyt_state_alloc_slot demo_state 1) = Some 1" by code_simp
  then obtain ctx' where "blyt_state_alloc_slot demo_state 1 = Some (ctx', 1)" by auto
  then show ?thesis using alloc_slot_lowest [OF demo_wf(2)] demo_wf by (fastforce simp: Let_def)
qed


theorem state_snapshot_restore_witness:
  "\<exists>sn ctx'. blyt_state_ctx_snapshot (\<lambda>_. True) demo_state = Some sn \<and>
     blyt_state_free_slot demo_state 1 0 = Some ctx' \<and> blyt_state_ctx_restore_snapshot ctx' (Some sn) = demo_state"
proof -
  have "map_option (\<lambda>_. ()) (blyt_state_free_slot demo_state 1 0) = Some ()"
    "map_option (\<lambda>_. ()) (blyt_state_ctx_snapshot (\<lambda>_. True) demo_state) = Some ()" by code_simp+
  then obtain ctx' sn where f: "blyt_state_free_slot demo_state 1 0 = Some ctx'"
    and s: "blyt_state_ctx_snapshot (\<lambda>_. True) demo_state = Some sn" by auto
  have "state_step\<^sup>*\<^sup>* (snd demo_init) demo_state" "state_step\<^sup>*\<^sup>* demo_state ctx'"
    using state_alloc [OF demo_alloc] state_free [OF f] by blast+
  from state_snapshot_restore [OF demo_init_eq this(1) s this(2)] f s show ?thesis by blast
qed

end
