(* ===== verification/Save.thy ===== *)
theory Save
  imports Blys State_Buffer
begin

text \<open>
  The host's save files (\<^verbatim>\<open>runtime/host/src/libblyt/save.c\<close>): stdio adapters for the BLYS
  serialiser, the view of the state context it works on and the two entry points.  The C library
  is modelled by what the code uses of it: \<^verbatim>\<open>fread\<close> and \<^verbatim>\<open>fwrite\<close> transfer as many bytes as
  there are (or as there is room for), a file system maps paths to contents and may refuse
  directories or opens, and \<open>fs_flush\<close> says which of a stream's bytes reach the file when it is
  flushed and closed (the code does not look at the results of \<^verbatim>\<open>fflush\<close>, \<^verbatim>\<open>fsync\<close> and
  \<^verbatim>\<open>fclose\<close>).  A \<^verbatim>\<open>uint16_t\<close> array is stored little-endian.
\<close>

section \<open>Paths\<close>

fun dec_digits :: "nat \<Rightarrow> string" where
  "dec_digits n = (if n < 10 then [] else dec_digits (n div 10)) @ [char_of (48 + n mod 10)]"
declare dec_digits.simps [simp del]

definition build_path :: "nat \<Rightarrow> string \<Rightarrow> string \<Rightarrow> u32 \<Rightarrow> string option" where
  "build_path buf_len save_dir cart_name slot =
     (let p = save_dir @ ''/'' @ cart_name @ ''/slot_'' @ dec_digits (unat slot) @ ''.blys''
      in if length p > 0 \<and> length p < buf_len then Some p else None)"

record host_fs =
  fs_files :: "string \<Rightarrow> bytes option"
  fs_mkdir_ok :: "string \<Rightarrow> bool"
  fs_open_ok :: "string \<Rightarrow> bool"
  fs_room :: nat
  fs_flush :: "string \<Rightarrow> bytes \<Rightarrow> bytes"

definition ensure_dir :: "host_fs \<Rightarrow> string \<Rightarrow> string \<Rightarrow> int" where
  "ensure_dir fs save_dir cart_name =
     (let path = save_dir @ ''/'' @ cart_name
      in if length path = 0 \<or> length path \<ge> 1024 then - 1
         else if \<not> fs_mkdir_ok fs path then - 1 else 0)"

section \<open>Streams\<close>

text \<open>An output stream is what has been written and the room left; an input stream is what is unread.\<close>

definition file_sink :: "(bytes \<times> nat) blys_write_fn" where
  "file_sink = (\<lambda>(out, room) bs.
     let n = min (length bs) room
     in (if n = length bs then 0 else - 1, (out @ take n bs, room - n)))"

definition file_source :: "bytes blys_read_fn" where
  "file_source = (\<lambda>unread len.
     let n = min len (length unread)
     in (if n = len then 0 else if n = 0 then 1 else - 1, take n unread, drop n unread))"

section \<open>Views\<close>

definition gens_bytes :: "u16 list \<Rightarrow> bytes" where
  "gens_bytes gs = concat (map (le_bytes 2) gs)"

fun bytes_gens :: "bytes \<Rightarrow> u16 list" where
  "bytes_gens (a # b # bs) = le_of [a, b] # bytes_gens bs"
| "bytes_gens _ = []"

definition view_of :: "blyt_buffer_ctx \<Rightarrow> blys_buffer" where
  "view_of bc =
     (let name = (case bc_name bc of Some n \<Rightarrow> n | None \<Rightarrow> [])
      in \<lparr>bname = name, name_len = of_nat (length name), field_types = bc_types bc, bcount = bc_count bc,
          field_data = bc_data bc, slot_bitset = bc_bits bc, slot_gens = gens_bytes (bc_gens bc)\<rparr>)"

definition fill_views :: "blyt_state_ctx \<Rightarrow> blys_buffer list" where
  "fill_views state = map view_of (buffers state)"

text \<open>The views point into the state: reading into them writes the state's arrays.\<close>

definition store_view :: "blyt_buffer_ctx \<Rightarrow> blys_buffer \<Rightarrow> blyt_buffer_ctx" where
  "store_view bc v = bc\<lparr>bc_data := field_data v, bc_bits := slot_bitset v, bc_gens := bytes_gens (slot_gens v)\<rparr>"

definition store_views :: "blyt_state_ctx \<Rightarrow> blys_buffer list \<Rightarrow> blyt_state_ctx" where
  "store_views state vs = state\<lparr>buffers := map2 store_view (buffers state) vs\<rparr>"

definition state_hash :: "blyt_state_ctx \<Rightarrow> u64" where
  "state_hash state = (case buffers state of [] \<Rightarrow> 0 | bc # _ \<Rightarrow> bc_hash bc)"

section \<open>Entry points\<close>

definition blyt_save_write ::
    "host_fs \<Rightarrow> blyt_state_ctx \<Rightarrow> string option \<Rightarrow> string option \<Rightarrow> u32 \<Rightarrow> u32 \<Rightarrow> int \<times> host_fs" where
  "blyt_save_write fs state save_dir cart_name slot version =
     (case (save_dir, cart_name) of
        (Some dir, Some name) \<Rightarrow>
          if ensure_dir fs dir name < 0 then (- 1, fs)
          else case build_path 1024 dir name slot of None \<Rightarrow> (- 1, fs)
          | Some path \<Rightarrow>
              if \<not> fs_open_ok fs path then (- 1, fs)
              else
                let hdr = \<lparr>h_schema_hash = state_hash state, h_save_version = version\<rparr>;
                    (rc, (out, room)) = blys_write hdr (fill_views state) file_sink ([], fs_room fs);
                    fs' = fs\<lparr>fs_files := (fs_files fs)(path := Some (fs_flush fs path out)), fs_room := room\<rparr>
                in (if rc \<noteq> BLYS_OK then - 1 else 0, fs')
      | _ \<Rightarrow> (- 1, fs))"

text \<open>Result: the return value, \<^verbatim>\<open>*out_save_version\<close> and the state.\<close>

definition blyt_save_read ::
    "host_fs \<Rightarrow> blyt_state_ctx \<Rightarrow> string option \<Rightarrow> string option \<Rightarrow> u32 \<Rightarrow> (int \<times> u32 \<times> blyt_state_ctx) option" where
  "blyt_save_read fs state save_dir cart_name slot =
     (case (save_dir, cart_name) of
        (Some dir, Some name) \<Rightarrow>
          (case build_path 1024 dir name slot of None \<Rightarrow> Some (- 1, 0, state)
           | Some path \<Rightarrow>
               (case fs_files fs path of None \<Rightarrow> Some (- 1, 0, state)
                | Some content \<Rightarrow>
                    map_option (\<lambda>(rc, version, vs, _). (rc, version, store_views state vs))
                      (blys_read (state_hash state) (fill_views state) file_source content)))
      | _ \<Rightarrow> Some (- 1, 0, state))"

section \<open>The stdio streams meet the contract\<close>

interpretation host_file: strict_source file_source "\<lambda>unread. unread"
  by unfold_locales (auto simp: file_source_def Let_def)

lemma sink_all_file:
  assumes "sink_all file_sink (out, room) chunks = (rc, (out', room'))"
  shows "rc = BLYS_OK \<longleftrightarrow> length (concat chunks) \<le> room"
    and "rc = BLYS_OK \<Longrightarrow> out' = out @ concat chunks"
proof -
  have "(rc = BLYS_OK \<longleftrightarrow> length (concat chunks) \<le> room) \<and> (rc = BLYS_OK \<longrightarrow> out' = out @ concat chunks)"
    using assms
  proof (induction chunks arbitrary: out room)
    case (Cons x xs)
    show ?case
    proof (cases "length x \<le> room")
      case True
      then have "sink_all file_sink (out @ x, room - length x) xs = (rc, (out', room'))"
        using Cons.prems by (simp add: file_sink_def Let_def)
      from Cons.IH [OF this] True show ?thesis by auto
    next
      case False
      then have "rc = BLYS_ERR_IO" using Cons.prems by (simp add: file_sink_def Let_def)
      with False show ?thesis by (simp add: BLYS_OK_def BLYS_ERR_IO_def)
    qed
  qed (simp add: BLYS_OK_def)
  then show "rc = BLYS_OK \<longleftrightarrow> length (concat chunks) \<le> room" "rc = BLYS_OK \<Longrightarrow> out' = out @ concat chunks"
    by auto
qed

section \<open>Views of well-formed states\<close>

lemma bytes_gens_step: "bytes_gens (le_bytes 2 g @ rest) = g # bytes_gens rest"
proof -
  obtain a b where ab: "le_bytes 2 g = [a, b]" by (simp add: eval_nat_numeral)
  have "le_of [a, b] = g" unfolding ab [symmetric] by simp
  then show ?thesis by (simp only: ab append_Cons append_Nil bytes_gens.simps)
qed

lemma bytes_gens_bytes [simp]: "bytes_gens (gens_bytes gs) = gs"
  by (induction gs) (simp_all add: gens_bytes_def bytes_gens_step del: le_bytes.simps)

lemma length_gens_bytes [simp]: "length (gens_bytes gs) = 2 * length gs"
  by (induction gs) (simp_all add: gens_bytes_def)

lemma field_width_sizeof: "unat (blys_field_width t) = field_sizeof t"
  by (simp add: blys_field_width_def field_sizeof_def type_tags)

text \<open>A buffer the format can represent: short name, arrays of less than 4 GiB.\<close>

definition savable :: "blyt_buffer_ctx \<Rightarrow> bool" where
  "savable bc \<longleftrightarrow> length (bname (view_of bc)) < 256 \<and> bc_count bc < 0x20000000"

lemma view_wf:
  assumes wf: "wf_bc bc" and s: "savable bc"
  shows "wf_buffer (view_of bc)"
proof -
  have "unat (bc_count bc * blys_field_width t) = unat (bc_count bc) * field_sizeof t" for t
  proof -
    have "field_sizeof t \<le> 8" by (simp add: field_sizeof_def)
    then have "unat (bc_count bc) * field_sizeof t \<le> unat (bc_count bc) * 8" by (rule mult_le_mono2)
    also have "\<dots> < 2 ^ 32" using s by (simp add: savable_def word_less_nat_alt)
    finally show ?thesis by (simp add: unat_word_ariths field_width_sizeof)
  qed
  then have "wf_fields (bc_count bc) (bc_types bc) (bc_data bc)"
    using wf by (simp add: wf_fields_def wf_bc_def array_bytes_def)
  moreover have "unat (of_nat (length (bname (view_of bc))) :: u32) = length (bname (view_of bc))"
    using s by (simp add: savable_def unsigned_of_nat take_bit_nat_eq_self)
  ultimately show ?thesis using wf s
    by (auto simp: wf_buffer_def view_of_def Let_def wf_bc_def savable_def BLYS_SLOT_BITSET_BYTES_def
        BLYS_SLOT_GENS_BYTES_def split: option.splits)
qed

lemma layout_schema: "layout a = layout b \<Longrightarrow> same_schema (view_of a) (view_of b) \<and> bc_hash a = bc_hash b"
  by (cases a; cases b) (simp add: layout_def same_schema_def view_of_def Let_def)

lemma store_view_of: "layout a = layout b \<Longrightarrow> store_view a (view_of b) = b"
  by (cases a; cases b) (simp add: layout_def store_view_def view_of_def Let_def)

lemma store_views_of:
  "map layout (buffers st) = map layout (buffers st') \<Longrightarrow> store_views st' (fill_views st) = st"
proof -
  assume l: "map layout (buffers st) = map layout (buffers st')"
  then have "length (buffers st) = length (buffers st')" by (rule map_eq_imp_length_eq)
  then have "map2 store_view (buffers st') (fill_views st) = buffers st"
  proof (intro nth_equalityI)
    fix i assume "i < length (map2 store_view (buffers st') (fill_views st))"
    then have i: "i < length (buffers st')" "i < length (buffers st)" by (auto simp: fill_views_def)
    have "map layout (buffers st) ! i = map layout (buffers st') ! i" using l by simp
    then show "map2 store_view (buffers st') (fill_views st) ! i = buffers st ! i"
      using i by (simp add: fill_views_def store_view_of)
  qed (simp add: fill_views_def)
  then show ?thesis by (simp add: store_views_def)
qed

text \<open>A state that the format can represent, and two states of the same cart.\<close>

definition savable_state :: "blyt_state_ctx \<Rightarrow> bool" where
  "savable_state st \<longleftrightarrow> (\<forall>bc \<in> set (buffers st). wf_bc bc \<and> savable bc) \<and> distinct (map bname (fill_views st))"

definition same_layout :: "blyt_state_ctx \<Rightarrow> blyt_state_ctx \<Rightarrow> bool" where
  "same_layout st st' \<longleftrightarrow> map layout (buffers st) = map layout (buffers st')"

lemma fill_views_wf: "savable_state st \<Longrightarrow> \<forall>v \<in> set (fill_views st). wf_buffer v"
  by (auto simp: savable_state_def fill_views_def view_wf)

lemma views_related:
  assumes "savable_state st" "savable_state st'" "same_layout st st'"
  shows "list_all2 (\<lambda>b b0. wf_buffer b \<and> wf_buffer b0 \<and> same_schema b b0) (fill_views st) (fill_views st')"
    and "state_hash st' = state_hash st"
proof -
  have n: "length (buffers st) = length (buffers st')"
    using assms(3) unfolding same_layout_def by (rule map_eq_imp_length_eq)
  have l: "layout (buffers st ! i) = layout (buffers st' ! i)" if "i < length (buffers st)" for i
    using arg_cong [OF assms(3) [unfolded same_layout_def], of "\<lambda>xs. xs ! i"] that n by simp
  show "list_all2 (\<lambda>b b0. wf_buffer b \<and> wf_buffer b0 \<and> same_schema b b0) (fill_views st) (fill_views st')"
    using fill_views_wf [OF assms(1)] fill_views_wf [OF assms(2)] n l layout_schema
    by (auto simp: list_all2_conv_all_nth fill_views_def)
  show "state_hash st' = state_hash st"
    using n l [of 0] layout_schema [of "buffers st ! 0" "buffers st' ! 0"]
    by (cases "buffers st"; cases "buffers st'") (auto simp: state_hash_def)
qed

definition save_bytes :: "blyt_state_ctx \<Rightarrow> u32 \<Rightarrow> bytes" where
  "save_bytes st version =
     header_chunk \<lparr>h_schema_hash = state_hash st, h_save_version = version\<rparr> @ sections_bytes (fill_views st)"

lemma save_write_cases:
  assumes w: "blyt_save_write fs st dir name slot version = (0, fs')"
  obtains d n path where "dir = Some d" "name = Some n" "build_path 1024 d n slot = Some path"
    "fs_files fs' path = Some (fs_flush fs path (save_bytes st version))"
    "length (save_bytes st version) \<le> fs_room fs"
proof -
  obtain d n where dn: "dir = Some d" "name = Some n" and e: "\<not> ensure_dir fs d n < 0"
    using w by (auto simp: blyt_save_write_def split: option.splits if_splits)
  obtain path where p: "build_path 1024 d n slot = Some path" and op: "fs_open_ok fs path"
    using w dn e by (auto simp: blyt_save_write_def split: option.splits if_splits)
  let ?hdr = "\<lparr>h_schema_hash = state_hash st, h_save_version = version\<rparr>"
  obtain rc out room where s: "blys_write ?hdr (fill_views st) file_sink ([], fs_room fs) = (rc, (out, room))"
    by (metis prod_cases3)
  have rc: "rc = BLYS_OK" and fs': "fs' = fs\<lparr>fs_files := (fs_files fs)(path := Some (fs_flush fs path out)), fs_room := room\<rparr>"
    using w dn e p op s by (auto simp: blyt_save_write_def Let_def split: if_splits)
  have "concat (header_chunk ?hdr # concat (map buffer_chunks (fill_views st))) = save_bytes st version"
    by (simp add: save_bytes_def sections_bytes_def)
  then have "out = save_bytes st version" "length (save_bytes st version) \<le> fs_room fs"
    using sink_all_file [OF s [unfolded blys_write_def]] rc by (auto simp del: length_concat)
  with dn p fs' show thesis by (intro that [of d n path]) auto
qed

lemma save_read_file:
  assumes "build_path 1024 d n slot = Some path" "fs_files fs path = Some content"
  shows "blyt_save_read fs st (Some d) (Some n) slot =
    map_option (\<lambda>(rc, version, vs, _). (rc, version, store_views st vs))
      (blys_read (state_hash st) (fill_views st) file_source content)"
  using assms by (simp add: blyt_save_read_def)

lemma length_bytes_gens: "length (bytes_gens bs) = length bs div 2"
  by (induction bs rule: bytes_gens.induct) auto

lemma stored_sizes:
  assumes st: "savable_state st" and vs: "list_all2 (\<lambda>b' b. wf_buffer b' \<and> same_schema b' b) vs (fill_views st)"
  shows "same_layout (store_views st vs) st" "map (\<lambda>bc. (map length (bc_data bc), length (bc_bits bc), length (bc_gens bc))) (buffers (store_views st vs)) =
    map (\<lambda>bc. (map length (bc_data bc), length (bc_bits bc), length (bc_gens bc))) (buffers st)"
proof -
  have n: "length vs = length (buffers st)" using list_all2_lengthD [OF vs] by (simp add: fill_views_def)
  show "same_layout (store_views st vs) st"
    using n by (auto simp: same_layout_def store_views_def store_view_def layout_def intro!: nth_equalityI)
  have "(map length (bc_data bc'), length (bc_bits bc'), length (bc_gens bc')) =
      (map length (bc_data bc), length (bc_bits bc), length (bc_gens bc))"
    if "bc' = store_view bc v" "wf_buffer v" "same_schema v (view_of bc)" "wf_bc bc" "savable bc" for bc bc' v
  proof -
    have "wf_buffer (view_of bc)" using view_wf that by blast
    then have "map length (field_data v) = map length (bc_data bc)"
      using that by (auto simp: wf_buffer_def wf_fields_def same_schema_def view_of_def Let_def list_all2_conv_all_nth
          intro!: nth_equalityI)
    then show ?thesis using that
      by (auto simp: store_view_def wf_buffer_def wf_bc_def length_bytes_gens BLYS_SLOT_BITSET_BYTES_def BLYS_SLOT_GENS_BYTES_def)
  qed
  then show "map (\<lambda>bc. (map length (bc_data bc), length (bc_bits bc), length (bc_gens bc))) (buffers (store_views st vs)) =
    map (\<lambda>bc. (map length (bc_data bc), length (bc_bits bc), length (bc_gens bc))) (buffers st)"
    using n vs st by (intro nth_equalityI) (auto simp: store_views_def list_all2_conv_all_nth fill_views_def savable_state_def)
qed

lemma blys_schema_keeps:
  assumes "blys_read h bufs file_source c = Some (BLYS_ERR_SCHEMA, v, bufs', c')" "\<forall>b \<in> set bufs. wf_buffer b"
  shows "bufs' = bufs"
proof -
  have "read_sections file_source x bufs \<noteq> Some (BLYS_ERR_SCHEMA, y, z)" for x y z
    using host_file.read_sections_wf [OF assms(2), of x BLYS_ERR_SCHEMA y z]
    by (auto simp: BLYS_OK_def BLYS_ERR_IO_def BLYS_ERR_SCHEMA_def)
  then show ?thesis using assms(1)
    by (auto simp: blys_read_def Let_def BLYS_ERR_IO_def BLYS_ERR_SCHEMA_def split: prod.splits if_splits)
qed


text \<open>
  C16. Loading is safe on every file: whatever bytes the file holds, \<^verbatim>\<open>blyt_save_read\<close> terminates, returns one of
  its three documented codes, and keeps the layout of the state and the size of every array of it; when the
  schema hash of the file differs (code -2) it changes nothing.
\<close>
theorem save_read_safe:
  assumes "savable_state st"
  shows "\<exists>rc version st'. blyt_save_read fs st dir name slot = Some (rc, version, st') \<and> rc \<in> {0, - 1, - 2} \<and>
    same_layout st' st \<and>
    map (\<lambda>bc. (map length (bc_data bc), length (bc_bits bc), length (bc_gens bc))) (buffers st') =
    map (\<lambda>bc. (map length (bc_data bc), length (bc_bits bc), length (bc_gens bc))) (buffers st) \<and>
    (rc = - 2 \<longrightarrow> st' = st)"
proof (cases "\<exists>d n path content. dir = Some d \<and> name = Some n \<and> build_path 1024 d n slot = Some path \<and> fs_files fs path = Some content")
  case False
  then have "blyt_save_read fs st dir name slot = Some (- 1, 0, st)"
    by (auto simp: blyt_save_read_def split: option.splits)
  then show ?thesis by (simp add: same_layout_def)
next
  case True
  then obtain d n path content where f: "dir = Some d" "name = Some n" "build_path 1024 d n slot = Some path"
    "fs_files fs path = Some content" by auto
  obtain rc version vs c' where r: "blys_read (state_hash st) (fill_views st) file_source content = Some (rc, version, vs, c')"
    using host_file.blys_read_total by (metis prod_cases4)
  note wf = host_file.blys_read_wf [OF fill_views_wf [OF assms] r]
  note st = stored_sizes [OF assms wf [THEN conjunct1]]
  have "vs = fill_views st" if "rc = - 2"
    using blys_schema_keeps [OF _ fill_views_wf [OF assms]] r that by (auto simp: BLYS_ERR_SCHEMA_def)
  then have "store_views st vs = st" if "rc = - 2" using that store_views_of [of st st] by simp
  then show ?thesis using save_read_file [OF f(3,4), of st] f(1,2) r wf st
    by (auto simp: BLYS_OK_def BLYS_ERR_IO_def BLYS_ERR_SCHEMA_def)
qed

text \<open>
  C7. A truncated save file is rejected: when the file was cut to a proper prefix, loading returns 0 only if the cut
  fell exactly between two buffer sections; a cut inside the header or inside a section gives an error.
\<close>
theorem save_truncated:
  assumes "savable_state st" "savable_state st'" "same_layout st st'"
    and p: "build_path 1024 d n slot = Some path"
    and f: "fs_files fs path = Some (take k (save_bytes st version))" and k: "k < length (save_bytes st version)"
  shows "\<exists>rc v st''. blyt_save_read fs st' (Some d) (Some n) slot = Some (rc, v, st'') \<and>
    (rc = 0 \<longleftrightarrow> (\<exists>j < length (buffers st). k = 20 + length (sections_bytes (take j (fill_views st)))))"
proof -
  let ?hdr = "\<lparr>h_schema_hash = state_hash st, h_save_version = version\<rparr>"
  have "length (header_chunk ?hdr) = 20" by (simp add: header_chunk_def)
  then have k20: "k < 20 + length (sections_bytes (fill_views st))" using k by (simp add: save_bytes_def)
  have "distinct (map bname (fill_views st))" using assms(1) by (simp add: savable_state_def)
  from host_file.blys_read_truncated [OF views_related(1) [OF assms(1-3)] this k20 refl, of ?hdr]
  have "\<exists>r v bs c'. blys_read (state_hash st) (fill_views st') file_source (take k (save_bytes st version)) = Some (r, v, bs, c') \<and>
    (r = BLYS_OK \<longleftrightarrow> (\<exists>j < length (fill_views st). k = 20 + length (sections_bytes (take j (fill_views st)))))"
    by (simp only: save_bytes_def blys_header.select_convs)
  then obtain r v bs c' where "blys_read (state_hash st) (fill_views st') file_source (take k (save_bytes st version)) = Some (r, v, bs, c')"
    "r = BLYS_OK \<longleftrightarrow> (\<exists>j < length (fill_views st). k = 20 + length (sections_bytes (take j (fill_views st))))"
    by blast
  then show ?thesis using save_read_file [OF p f, of st'] views_related(2) [OF assms(1-3)]
    by (simp add: BLYS_OK_def fill_views_def)
qed

section \<open>Example\<close>

definition demo_fs :: "bytes option \<Rightarrow> host_fs" where
  "demo_fs content = \<lparr>fs_files = (\<lambda>p. if p = ''s/c/slot_3.blys'' then content else None), fs_mkdir_ok = (\<lambda>_. True),
     fs_open_ok = (\<lambda>_. True), fs_room = 1000, fs_flush = (\<lambda>_ bs. bs)\<rparr>"

lemma demo_savable: "savable_state demo_state" "savable_state (snd demo_init)" "same_layout demo_state (snd demo_init)"
  by code_simp+


theorem save_read_safe_witness:
  "\<exists>rc version st'. blyt_save_read (demo_fs (Some (BLYS_MAGIC @ replicate 50 1))) demo_state (Some ''s'') (Some ''c'') 3
     = Some (rc, version, st') \<and> same_layout st' demo_state"
  using save_read_safe [OF demo_savable(1), of "demo_fs (Some (BLYS_MAGIC @ replicate 50 1))" "Some ''s''" "Some ''c''" 3]
  by blast

theorem save_truncated_witness:
  "\<exists>rc v st''. blyt_save_read (demo_fs (Some (take 100 (save_bytes demo_state 5)))) (snd demo_init) (Some ''s'') (Some ''c'') 3
     = Some (rc, v, st'') \<and> rc \<noteq> 0"
proof -
  have p: "build_path 1024 ''s'' ''c'' 3 = Some ''s/c/slot_3.blys''" by code_simp
  have f: "fs_files (demo_fs (Some (take 100 (save_bytes demo_state 5)))) ''s/c/slot_3.blys'' =
    Some (take 100 (save_bytes demo_state 5))" by (simp add: demo_fs_def)
  have k: "100 < length (save_bytes demo_state 5)" by code_simp
  have n: "length (buffers demo_state) = 1" by code_simp
  have "sections_bytes (take 0 (fill_views demo_state)) = []" by (simp add: sections_bytes_def)
  then show ?thesis using save_truncated [OF demo_savable p f k] n by auto
qed

end
