(* ===== verification/Elf_Section.thy ===== *)
theory Elf_Section
  imports Blyt_Prelude "HOL-Library.Monad_Syntax"
begin

text \<open>
  The bounds-checked walk over the section headers of a cart image
  (\<^verbatim>\<open>runtime/shared/blyt_elf_section.c\<close>) and the decimal ids of resource sections.  Every load from
  the image goes through \<open>byte_at\<close>, \<open>u16_at\<close> or \<open>u32_at\<close>, which give \<open>None\<close> when the load would
  touch a byte outside of the image: an outer \<open>None\<close> is a memory error, and the theorems show
  that no image causes one.
\<close>

section \<open>Loads\<close>

definition byte_at :: "bytes \<Rightarrow> nat \<Rightarrow> u8 option" where
  "byte_at elf i = (if i < length elf then Some (elf ! i) else None)"

definition u16_at :: "bytes \<Rightarrow> nat \<Rightarrow> u16 option" where
  "u16_at elf i = (if i + 2 \<le> length elf then Some (le_of (slice i 2 elf)) else None)"

definition u32_at :: "bytes \<Rightarrow> nat \<Rightarrow> u32 option" where
  "u32_at elf i = (if i + 4 \<le> length elf then Some (le_of (slice i 4 elf)) else None)"

text \<open>A C string is the list of its bytes without the terminator.\<close>

definition cstr_at :: "bytes \<Rightarrow> nat \<Rightarrow> u8" where
  "cstr_at s k = (if k < length s then s ! k else 0)"

section \<open>The section-header table\<close>

definition ELF32_EHDR_MIN :: nat where "ELF32_EHDR_MIN = 52"
definition ELF32_E_SHOFF :: nat where "ELF32_E_SHOFF = 32"
definition ELF32_E_SHNUM :: nat where "ELF32_E_SHNUM = 48"
definition ELF32_E_SHSTRNDX :: nat where "ELF32_E_SHSTRNDX = 50"
definition ELF32_SHDR_SIZE :: nat where "ELF32_SHDR_SIZE = 40"
definition ELF32_SH_NAME :: nat where "ELF32_SH_NAME = 0"
definition ELF32_SH_OFFSET :: nat where "ELF32_SH_OFFSET = 16"
definition ELF32_SH_SIZE :: nat where "ELF32_SH_SIZE = 20"

lemmas elf_consts = ELF32_EHDR_MIN_def ELF32_E_SHOFF_def ELF32_E_SHNUM_def ELF32_E_SHSTRNDX_def
  ELF32_SHDR_SIZE_def ELF32_SH_NAME_def ELF32_SH_OFFSET_def ELF32_SH_SIZE_def

record blyt_sht =
  shdrs :: nat
  shnum :: u16
  strtab :: nat
  strtab_size :: u32

definition resolve_sht :: "bytes \<Rightarrow> blyt_sht option option" where
  "resolve_sht elf =
     (if length elf < ELF32_EHDR_MIN then Some None
      else do {
        e_shoff \<leftarrow> u32_at elf ELF32_E_SHOFF;
        e_shnum \<leftarrow> u16_at elf ELF32_E_SHNUM;
        e_shstrndx \<leftarrow> u16_at elf ELF32_E_SHSTRNDX;
        if e_shoff = 0 \<or> e_shnum = 0 \<or> e_shstrndx \<ge> e_shnum then Some None
        else if unat e_shoff + unat e_shnum * ELF32_SHDR_SIZE > length elf then Some None
        else do {
          strtab_off \<leftarrow> u32_at elf (unat e_shoff + unat e_shstrndx * ELF32_SHDR_SIZE + ELF32_SH_OFFSET);
          strtab_sz \<leftarrow> u32_at elf (unat e_shoff + unat e_shstrndx * ELF32_SHDR_SIZE + ELF32_SH_SIZE);
          if strtab_off = 0 \<or> strtab_sz = 0 \<or> unat strtab_off + unat strtab_sz > length elf then Some None
          else Some (Some \<lparr>shdrs = unat e_shoff, shnum = e_shnum, strtab = unat strtab_off, strtab_size = strtab_sz\<rparr>)
        }
      })"

section \<open>Name comparison\<close>

function match_name :: "bytes \<Rightarrow> nat \<Rightarrow> nat \<Rightarrow> bytes \<Rightarrow> nat \<Rightarrow> nat option" where
  "match_name elf cand avail name k =
     (if k < avail \<and> cstr_at name k \<noteq> 0 then
        case byte_at elf (cand + k) of None \<Rightarrow> None
        | Some c \<Rightarrow> if c = cstr_at name k then match_name elf cand avail name (Suc k) else Some k
      else Some k)"
  by auto
termination by (relation "measure (\<lambda>(elf, cand, avail, name, k). avail - k)") auto
declare match_name.simps [simp del]

function nul_scan :: "bytes \<Rightarrow> nat \<Rightarrow> nat \<Rightarrow> nat \<Rightarrow> nat option" where
  "nul_scan elf cand avail s =
     (if s < avail then
        case byte_at elf (cand + s) of None \<Rightarrow> None
        | Some c \<Rightarrow> if c \<noteq> 0 then nul_scan elf cand avail (Suc s) else Some s
      else Some s)"
  by auto
termination by (relation "measure (\<lambda>(elf, cand, avail, s). avail - s)") auto
declare nul_scan.simps [simp del]

section \<open>Lookup and enumeration\<close>

fun find_section_loop :: "bytes \<Rightarrow> blyt_sht \<Rightarrow> bytes \<Rightarrow> nat list \<Rightarrow> (u32 \<times> u32) option option" where
  "find_section_loop elf sht name [] = Some None"
| "find_section_loop elf sht name (i # is) =
     do {
       let shdr = shdrs sht + i * ELF32_SHDR_SIZE;
       sh_name \<leftarrow> u32_at elf (shdr + ELF32_SH_NAME);
       if sh_name \<ge> strtab_size sht then find_section_loop elf sht name is
       else do {
         let cand = strtab sht + unat sh_name;
         let avail = unat (strtab_size sht - sh_name);
         k \<leftarrow> match_name elf cand avail name 0;
         if cstr_at name k \<noteq> 0 \<or> k \<ge> avail then find_section_loop elf sht name is
         else do {
           c \<leftarrow> byte_at elf (cand + k);
           if c \<noteq> 0 then find_section_loop elf sht name is
           else do {
             sh_off \<leftarrow> u32_at elf (shdr + ELF32_SH_OFFSET);
             sh_size \<leftarrow> u32_at elf (shdr + ELF32_SH_SIZE);
             if unat sh_off + unat sh_size > length elf then Some None else Some (Some (sh_off, sh_size))
           }
         }
       }
     }"

definition blyt_elf32_find_section :: "bytes \<Rightarrow> bytes \<Rightarrow> (u32 \<times> u32) option option" where
  "blyt_elf32_find_section elf name = do {
     r \<leftarrow> resolve_sht elf;
     (case r of None \<Rightarrow> Some None | Some sht \<Rightarrow> find_section_loop elf sht name [0..<unat (shnum sht)])
   }"

text \<open>The callback takes the suffix, the offset and the size of a section and updates its context.\<close>

type_synonym 'c blyt_elf32_section_fn = "bytes \<Rightarrow> u32 \<Rightarrow> u32 \<Rightarrow> 'c \<Rightarrow> 'c"

fun prefix_loop ::
    "bytes \<Rightarrow> blyt_sht \<Rightarrow> bytes \<Rightarrow> 'c blyt_elf32_section_fn \<Rightarrow> nat list \<Rightarrow> 'c \<Rightarrow> nat \<Rightarrow> (nat \<times> 'c) option" where
  "prefix_loop elf sht prefix cb [] ctx matched = Some (matched, ctx)"
| "prefix_loop elf sht prefix cb (i # is) ctx matched =
     do {
       let shdr = shdrs sht + i * ELF32_SHDR_SIZE;
       sh_name \<leftarrow> u32_at elf (shdr + ELF32_SH_NAME);
       if sh_name \<ge> strtab_size sht then prefix_loop elf sht prefix cb is ctx matched
       else do {
         let cand = strtab sht + unat sh_name;
         let avail = unat (strtab_size sht - sh_name);
         p \<leftarrow> match_name elf cand avail prefix 0;
         if cstr_at prefix p \<noteq> 0 then prefix_loop elf sht prefix cb is ctx matched
         else do {
           s \<leftarrow> nul_scan elf cand avail p;
           if s \<ge> avail then prefix_loop elf sht prefix cb is ctx matched
           else do {
             sh_off \<leftarrow> u32_at elf (shdr + ELF32_SH_OFFSET);
             sh_size \<leftarrow> u32_at elf (shdr + ELF32_SH_SIZE);
             if unat sh_off + unat sh_size > length elf then prefix_loop elf sht prefix cb is ctx matched
             else prefix_loop elf sht prefix cb is (cb (slice (cand + p) (s - p) elf) sh_off sh_size ctx) (Suc matched)
           }
         }
       }
     }"

definition blyt_elf32_for_each_section_prefix ::
    "bytes \<Rightarrow> bytes \<Rightarrow> 'c blyt_elf32_section_fn \<Rightarrow> 'c \<Rightarrow> (nat \<times> 'c) option" where
  "blyt_elf32_for_each_section_prefix elf prefix cb ctx = do {
     r \<leftarrow> resolve_sht elf;
     (case r of None \<Rightarrow> Some (0, ctx) | Some sht \<Rightarrow> prefix_loop elf sht prefix cb [0..<unat (shnum sht)] ctx 0)
   }"

section \<open>Decimal ids\<close>

fun parse_u32_loop :: "bytes \<Rightarrow> u32 \<Rightarrow> u32 option" where
  "parse_u32_loop [] v = Some v"
| "parse_u32_loop (c # cs) v =
     (if c < 48 \<or> c > 57 then None
      else let d = ucast (c - 48) in if v > (0xFFFFFFFF - d) div 10 then None else parse_u32_loop cs (v * 10 + d))"

definition blyt_elf32_parse_u32 :: "bytes \<Rightarrow> u32 option" where
  "blyt_elf32_parse_u32 s =
     (if s = [] then None
      else case parse_u32_loop s 0 of None \<Rightarrow> None | Some v \<Rightarrow> if v = 0 then None else Some v)"

section \<open>What a section name is\<close>

definition cstring :: "bytes \<Rightarrow> nat \<Rightarrow> nat \<Rightarrow> bytes option" where
  "cstring elf cand avail =
     (let w = takeWhile (\<lambda>c. c \<noteq> 0) (slice cand avail elf) in if length w < avail then Some w else None)"

lemma takeWhile_nz: "0 \<notin> set xs \<Longrightarrow> takeWhile (\<lambda>c :: u8. c \<noteq> 0) (xs @ ys) = xs @ takeWhile (\<lambda>c. c \<noteq> 0) ys"
  by (rule takeWhile_append2) auto

lemma match_name_spec:
  assumes "cand + avail \<le> length elf" "0 \<notin> set name" "k \<le> avail" "k \<le> length name"
    and "take k (slice cand avail elf) = take k name"
  shows "\<exists>k'. match_name elf cand avail name k = Some k' \<and> k' \<le> avail \<and> k' \<le> length name \<and>
    take k' (slice cand avail elf) = take k' name \<and>
    (k' < avail \<longrightarrow> k' < length name \<longrightarrow> elf ! (cand + k') \<noteq> name ! k')"
  using assms
proof (induction "avail - k" arbitrary: k rule: less_induct)
  case less
  have nz: "cstr_at name k \<noteq> 0 \<longleftrightarrow> k < length name"
    using less.prems(2) by (auto simp: cstr_at_def in_set_conv_nth)
  show ?case
  proof (cases "k < avail \<and> k < length name")
    case False
    then have "match_name elf cand avail name k = Some k" using nz by (subst match_name.simps) auto
    with less.prems False show ?thesis by auto
  next
    case True
    then have b: "byte_at elf (cand + k) = Some (elf ! (cand + k))" using less.prems by (simp add: byte_at_def)
    show ?thesis
    proof (cases "elf ! (cand + k) = name ! k")
      case False
      then have "match_name elf cand avail name k = Some k"
        using nz True b by (subst match_name.simps) (simp add: cstr_at_def)
      with less.prems False True show ?thesis by auto
    next
      case eq: True
      then have m: "match_name elf cand avail name k = match_name elf cand avail name (Suc k)"
        using nz True b by (subst match_name.simps) (simp add: cstr_at_def)
      have "take (Suc k) (slice cand avail elf) = take (Suc k) name"
        using less.prems True eq by (simp add: take_Suc_conv_app_nth nth_slice)
      then show ?thesis unfolding m using less.prems True by (intro less.hyps) auto
    qed
  qed
qed

lemma take_prefix_cstring:
  assumes "cand + avail \<le> length elf" "0 \<notin> set name" "k \<le> avail" "k \<le> length name"
    and eq: "take k (slice cand avail elf) = take k name"
    and diff: "k < avail \<longrightarrow> k < length name \<longrightarrow> elf ! (cand + k) \<noteq> name ! k"
  shows "k = length name \<and> k < avail \<and> elf ! (cand + k) = 0 \<longleftrightarrow> cstring elf cand avail = Some name"
proof
  have len: "length (slice cand avail elf) = avail" using assms(1) by simp
  {
    assume a: "k = length name \<and> k < avail \<and> elf ! (cand + k) = 0"
    let ?s = "slice cand avail elf"
    have s: "take k ?s @ ?s ! k # drop (Suc k) ?s = ?s" using a len by (intro id_take_nth_drop [symmetric]) simp
    have "take k ?s = name" using a eq by simp
    moreover have "?s ! k = 0" using a assms(1) by (auto simp: nth_slice)
    ultimately have "takeWhile (\<lambda>c. c \<noteq> 0) (take k ?s @ ?s ! k # drop (Suc k) ?s) = name"
      using assms(2) by (simp add: takeWhile_nz)
    then have "takeWhile (\<lambda>c. c \<noteq> 0) ?s = name" unfolding s .
    then show "cstring elf cand avail = Some name" using a by (simp add: cstring_def)
  next
    assume "cstring elf cand avail = Some name"
    then have w: "takeWhile (\<lambda>c. c \<noteq> 0) (slice cand avail elf) = name" and l: "length name < avail"
      by (auto simp: cstring_def Let_def split: if_splits)
    have nth: "slice cand avail elf ! j = name ! j" if "j < length name" for j
      using that w takeWhile_nth [of j "\<lambda>c. c \<noteq> 0" "slice cand avail elf"] by simp
    have "slice cand avail elf ! length name = 0"
      using nth_length_takeWhile [of "\<lambda>c. c \<noteq> 0" "slice cand avail elf"] w l len by simp
    moreover have "\<not> k < length name" using diff nth [of k] l assms(1,3) by (auto simp: nth_slice)
    ultimately show "k = length name \<and> k < avail \<and> elf ! (cand + k) = 0"
      using assms(1,4) l by (auto simp: nth_slice)
  }
qed

lemma nul_scan_spec:
  assumes "cand + avail \<le> length elf" "p \<le> avail"
  shows "nul_scan elf cand avail p = Some (p + length (takeWhile (\<lambda>c. c \<noteq> 0) (slice (cand + p) (avail - p) elf)))"
  using assms(2)
proof (induction "avail - p" arbitrary: p rule: less_induct)
  case less
  show ?case
  proof (cases "p < avail")
    case False
    with less.prems show ?thesis by (subst nul_scan.simps) simp
  next
    case True
    then have b: "byte_at elf (cand + p) = Some (elf ! (cand + p))" using assms(1) by (simp add: byte_at_def)
    have d: "slice (cand + p) (avail - p) elf = elf ! (cand + p) # slice (cand + Suc p) (avail - Suc p) elf"
      using True assms(1) by (simp add: slice_def Cons_nth_drop_Suc [symmetric] take_Cons')
    have "nul_scan elf cand avail (Suc p) = Some (Suc p + length (takeWhile (\<lambda>c. c \<noteq> 0) (slice (cand + Suc p) (avail - Suc p) elf)))"
      using True by (intro less.hyps) auto
    then show ?thesis using True b by (subst nul_scan.simps) (simp add: d)
  qed
qed

section \<open>Memory safety and meaning of the walk\<close>

text \<open>The name, offset and size of the \<open>i\<close>th section of a resolved table.\<close>

definition wf_sht :: "bytes \<Rightarrow> blyt_sht \<Rightarrow> bool" where
  "wf_sht elf sht \<longleftrightarrow> shdrs sht + unat (shnum sht) * 40 \<le> length elf \<and> strtab sht + unat (strtab_size sht) \<le> length elf"

definition section_field :: "bytes \<Rightarrow> blyt_sht \<Rightarrow> nat \<Rightarrow> nat \<Rightarrow> u32" where
  "section_field elf sht i f = le_of (slice (shdrs sht + i * 40 + f) 4 elf)"

definition section_name :: "bytes \<Rightarrow> blyt_sht \<Rightarrow> nat \<Rightarrow> bytes option" where
  "section_name elf sht i =
     (let n = section_field elf sht i 0
      in if n \<ge> strtab_size sht then None
         else cstring elf (strtab sht + unat n) (unat (strtab_size sht - n)))"

definition section_range :: "bytes \<Rightarrow> blyt_sht \<Rightarrow> nat \<Rightarrow> (u32 \<times> u32) option" where
  "section_range elf sht i =
     (let off = section_field elf sht i 16; size = section_field elf sht i 20
      in if unat off + unat size > length elf then None else Some (off, size))"

lemma resolve_sht_total: "\<exists>r. resolve_sht elf = Some r \<and> (\<forall>sht. r = Some sht \<longrightarrow> wf_sht elf sht)"
proof (cases "length elf < 52")
  case True
  then show ?thesis by (simp add: resolve_sht_def elf_consts)
next
  case False
  then have a: "u32_at elf 32 = Some (le_of (slice 32 4 elf))" "u16_at elf 48 = Some (le_of (slice 48 2 elf))"
    "u16_at elf 50 = Some (le_of (slice 50 2 elf))" by (auto simp: u32_at_def u16_at_def)
  let ?off = "le_of (slice 32 4 elf) :: u32" and ?num = "le_of (slice 48 2 elf) :: u16" and ?ndx = "le_of (slice 50 2 elf) :: u16"
  show ?thesis
  proof (cases "?off = 0 \<or> ?num = 0 \<or> ?ndx \<ge> ?num \<or> unat ?off + unat ?num * 40 > length elf")
    case True
    then show ?thesis using False a by (auto simp: resolve_sht_def elf_consts)
  next
    case t: False
    then have "unat ?ndx < unat ?num" by (simp add: word_le_nat_alt)
    then have "unat ?off + unat ?ndx * 40 + 40 \<le> length elf" using t by linarith
    then have "u32_at elf (unat ?off + unat ?ndx * 40 + 16) = Some (le_of (slice (unat ?off + unat ?ndx * 40 + 16) 4 elf))"
      "u32_at elf (unat ?off + unat ?ndx * 40 + 20) = Some (le_of (slice (unat ?off + unat ?ndx * 40 + 20) 4 elf))"
      by (simp_all add: u32_at_def)
    then show ?thesis using False t a by (auto simp: resolve_sht_def elf_consts wf_sht_def)
  qed
qed

lemma section_loads:
  assumes "wf_sht elf sht" "i < unat (shnum sht)"
  shows "u32_at elf (shdrs sht + i * 40) = Some (section_field elf sht i 0)"
    "u32_at elf (shdrs sht + i * 40 + 16) = Some (section_field elf sht i 16)"
    "u32_at elf (shdrs sht + i * 40 + 20) = Some (section_field elf sht i 20)"
proof -
  have "shdrs sht + i * 40 + 40 \<le> length elf" using assms by (simp add: wf_sht_def)
  then show "u32_at elf (shdrs sht + i * 40) = Some (section_field elf sht i 0)"
    "u32_at elf (shdrs sht + i * 40 + 16) = Some (section_field elf sht i 16)"
    "u32_at elf (shdrs sht + i * 40 + 20) = Some (section_field elf sht i 20)"
    by (simp_all add: u32_at_def section_field_def)
qed

lemma name_window:
  assumes "wf_sht elf sht" "n < strtab_size sht"
  shows "strtab sht + unat n + unat (strtab_size sht - n) \<le> length elf"
  using assms by (simp add: wf_sht_def unat_sub_small word_less_nat_alt word_le_nat_alt)

lemma find_section_loop_spec:
  assumes wf: "wf_sht elf sht" and name: "0 \<notin> set name" and "is": "\<forall>i \<in> set is. i < unat (shnum sht)"
  shows "find_section_loop elf sht name is =
    Some (case find (\<lambda>i. section_name elf sht i = Some name) is of None \<Rightarrow> None | Some i \<Rightarrow> section_range elf sht i)"
  using "is"
proof (induction "is")
  case (Cons i js)
  note ld = section_loads [OF wf, of i]
  let ?n = "section_field elf sht i 0"
  let ?cand = "strtab sht + unat ?n" and ?av = "unat (strtab_size sht - ?n)"
  show ?case
  proof (cases "?n \<ge> strtab_size sht")
    case True
    then show ?thesis using Cons ld by (simp add: elf_consts section_name_def)
  next
    case False
    then have w: "?cand + ?av \<le> length elf" using name_window [OF wf, of ?n] by simp
    from match_name_spec [OF w name, of 0] obtain k where
      k: "match_name elf ?cand ?av name 0 = Some k" "k \<le> ?av" "k \<le> length name"
      "take k (slice ?cand ?av elf) = take k name"
      "k < ?av \<longrightarrow> k < length name \<longrightarrow> elf ! (?cand + k) \<noteq> name ! k" by auto
    note iff = take_prefix_cstring [OF w name k(2-5)]
    have nz: "cstr_at name k \<noteq> 0 \<longleftrightarrow> k < length name" using name k(3) by (auto simp: cstr_at_def in_set_conv_nth)
    have b: "byte_at elf (?cand + k) = Some (elf ! (?cand + k))" if "k < ?av"
      using that w by (simp add: byte_at_def)
    have sn: "section_name elf sht i = cstring elf ?cand ?av" using False by (simp add: section_name_def Let_def)
    show ?thesis
    proof (cases "section_name elf sht i = Some name")
      case True
      then have "k = length name" "k < ?av" "elf ! (?cand + k) = 0" using iff sn by auto
      then show ?thesis using False k(1) nz b ld Cons.prems True
        by (simp add: elf_consts section_range_def Let_def)
    next
      case no: False
      then have "\<not> (k = length name \<and> k < ?av \<and> elf ! (?cand + k) = 0)" using iff sn by auto
      then have "cstr_at name k \<noteq> 0 \<or> k \<ge> ?av \<or> elf ! (?cand + k) \<noteq> 0" using nz k(3) by auto
      then show ?thesis using False k(1) b ld Cons no
        by (cases "k < ?av") (auto simp: elf_consts Let_def)
    qed
  qed
qed simp

text \<open>The sections an enumeration visits.\<close>

definition prefixed_sections :: "bytes \<Rightarrow> blyt_sht \<Rightarrow> bytes \<Rightarrow> nat list \<Rightarrow> (bytes \<times> u32 \<times> u32) list" where
  "prefixed_sections elf sht prefix is =
     List.map_filter (\<lambda>i. case (section_name elf sht i, section_range elf sht i) of
         (Some n, Some (off, sz)) \<Rightarrow>
           if take (length prefix) n = prefix then Some (drop (length prefix) n, off, sz) else None
       | _ \<Rightarrow> None) is"

lemma cstring_prefix:
  assumes w: "cand + avail \<le> length elf" and nz: "0 \<notin> set pre" and k: "k \<le> avail" "k \<le> length pre"
    and eq: "take k (slice cand avail elf) = take k pre"
    and diff: "k < avail \<longrightarrow> k < length pre \<longrightarrow> elf ! (cand + k) \<noteq> pre ! k"
  shows "k < length pre \<Longrightarrow> cstring elf cand avail = Some n \<Longrightarrow> take (length pre) n \<noteq> pre"
    and "k = length pre \<Longrightarrow> s = k + length (takeWhile (\<lambda>c. c \<noteq> 0) (slice (cand + k) (avail - k) elf)) \<Longrightarrow>
      cstring elf cand avail = (if s < avail then Some (pre @ slice (cand + k) (s - k) elf) else None)"
proof -
  have len: "length (slice cand avail elf) = avail" using w by simp
  {
    assume lt: "k < length pre" and n: "cstring elf cand avail = Some n"
    then have wn: "takeWhile (\<lambda>c. c \<noteq> 0) (slice cand avail elf) = n" "length n < avail"
      by (auto simp: cstring_def Let_def split: if_splits)
    show "take (length pre) n \<noteq> pre"
    proof
      assume t: "take (length pre) n = pre"
      then have l: "length pre \<le> length n" by (metis length_take min.cobounded2 min.commute nat_le_linear take_all_iff)
      then have "n ! k = pre ! k" using t lt by (metis nth_take)
      moreover have "n ! k = elf ! (cand + k)"
        using wn takeWhile_nth [of k "\<lambda>c. c \<noteq> 0" "slice cand avail elf"] lt l w by (simp add: nth_slice)
      ultimately show False using diff lt l wn(2) by simp
    qed
  next
    assume kp: "k = length pre" and s: "s = k + length (takeWhile (\<lambda>c. c \<noteq> 0) (slice (cand + k) (avail - k) elf))"
    let ?t = "takeWhile (\<lambda>c. c \<noteq> 0) (slice (cand + k) (avail - k) elf)"
    have "drop k (slice cand avail elf) = slice (cand + k) (avail - k) elf"
      by (simp add: slice_def drop_take add.commute)
    then have "slice cand avail elf = pre @ slice (cand + k) (avail - k) elf"
      using eq kp append_take_drop_id [of k "slice cand avail elf"] by simp
    then have tw: "takeWhile (\<lambda>c. c \<noteq> 0) (slice cand avail elf) = pre @ ?t"
      using nz by (simp add: takeWhile_nz)
    have "?t = take (length ?t) (slice (cand + k) (avail - k) elf)" by (metis takeWhile_eq_take)
    also have "\<dots> = slice (cand + k) (length ?t) elf"
      using k(1) w length_takeWhile_le [of "\<lambda>c. c \<noteq> 0" "slice (cand + k) (avail - k) elf"] by (simp add: slice_def)
    finally show "cstring elf cand avail = (if s < avail then Some (pre @ slice (cand + k) (s - k) elf) else None)"
      using tw kp s by (simp add: cstring_def Let_def)
  }
qed

lemma prefix_loop_spec:
  assumes wf: "wf_sht elf sht" and nz: "0 \<notin> set pre" and "is": "\<forall>i \<in> set is. i < unat (shnum sht)"
  shows "prefix_loop elf sht pre cb is ctx m =
    (let secs = prefixed_sections elf sht pre is
     in Some (m + length secs, fold (\<lambda>(sfx, off, sz). cb sfx off sz) secs ctx))"
  using "is"
proof (induction "is" arbitrary: ctx m)
  case (Cons i js)
  note ld = section_loads [OF wf, of i]
  note IH = Cons.IH
  let ?n = "section_field elf sht i 0"
  let ?cand = "strtab sht + unat ?n" and ?av = "unat (strtab_size sht - ?n)"
  show ?case
  proof (cases "?n \<ge> strtab_size sht")
    case True
    then have "section_name elf sht i = None" by (simp add: section_name_def)
    then show ?thesis using IH Cons.prems ld True
      by (simp add: elf_consts prefixed_sections_def List.map_filter_simps)
  next
    case False
    then have w: "?cand + ?av \<le> length elf" using name_window [OF wf, of ?n] by simp
    from match_name_spec [OF w nz, of 0] obtain k where
      k: "match_name elf ?cand ?av pre 0 = Some k" "k \<le> ?av" "k \<le> length pre"
      "take k (slice ?cand ?av elf) = take k pre"
      "k < ?av \<longrightarrow> k < length pre \<longrightarrow> elf ! (?cand + k) \<noteq> pre ! k" by auto
    note cp = cstring_prefix [OF w nz k(2-5)]
    have z: "cstr_at pre k \<noteq> 0 \<longleftrightarrow> k < length pre" using nz k(3) by (auto simp: cstr_at_def in_set_conv_nth)
    have sn: "section_name elf sht i = cstring elf ?cand ?av" using False by (simp add: section_name_def Let_def)
    have r: "section_range elf sht i = (if unat (section_field elf sht i 16) + unat (section_field elf sht i 20) > length elf
        then None else Some (section_field elf sht i 16, section_field elf sht i 20))"
      by (simp add: section_range_def Let_def)
    show ?thesis
    proof (cases "k < length pre")
      case True
      then have skip: "prefixed_sections elf sht pre (i # js) = prefixed_sections elf sht pre js"
        using cp(1) sn by (auto simp: prefixed_sections_def List.map_filter_simps split: option.splits)
      show ?thesis unfolding skip using False k(1) z True ld IH Cons.prems by (simp add: elf_consts Let_def)
    next
      case no: False
      define s where "s = k + length (takeWhile (\<lambda>c. c \<noteq> 0) (slice (?cand + k) (?av - k) elf))"
      have sc: "nul_scan elf ?cand ?av k = Some s" using nul_scan_spec [OF w k(2)] by (simp add: s_def)
      have cs: "section_name elf sht i = (if s < ?av then Some (pre @ slice (?cand + k) (s - k) elf) else None)"
        unfolding sn using cp(2) [OF _ s_def] no k(3) by simp
      show ?thesis using False k(1) z no sc ld IH Cons.prems
        by (auto simp: elf_consts Let_def prefixed_sections_def List.map_filter_simps cs r)
    qed
  qed
qed (simp add: prefixed_sections_def List.map_filter_simps)

section \<open>Properties\<close>

text \<open>
  C23. The section lookup is memory safe and exact: on every image (well formed or not) and every name, no load leaves
  the image, and the result is the range of the first section in header order with exactly that
  name, or nothing when there is none, its range is not inside the image or the header is malformed.
\<close>
theorem find_section_exact:
  assumes "0 \<notin> set name"
  shows "\<exists>r. resolve_sht elf = Some r \<and>
    blyt_elf32_find_section elf name =
      Some (case r of None \<Rightarrow> None
        | Some sht \<Rightarrow>
            (case find (\<lambda>i. section_name elf sht i = Some name) [0..<unat (shnum sht)] of None \<Rightarrow> None
             | Some i \<Rightarrow> section_range elf sht i)) \<and>
    (\<forall>off sz. blyt_elf32_find_section elf name = Some (Some (off, sz)) \<longrightarrow> unat off + unat sz \<le> length elf)"
proof -
  obtain r where r: "resolve_sht elf = Some r" "\<forall>sht. r = Some sht \<longrightarrow> wf_sht elf sht"
    using resolve_sht_total by blast
  have eq: "blyt_elf32_find_section elf name =
      Some (case r of None \<Rightarrow> None
        | Some sht \<Rightarrow> (case find (\<lambda>i. section_name elf sht i = Some name) [0..<unat (shnum sht)] of None \<Rightarrow> None
             | Some i \<Rightarrow> section_range elf sht i))"
  proof (cases r)
    case (Some sht)
    then show ?thesis using r find_section_loop_spec [of elf sht name "[0..<unat (shnum sht)]"] assms
      by (simp add: blyt_elf32_find_section_def)
  qed (simp add: blyt_elf32_find_section_def r)
  have "unat off + unat sz \<le> length elf" if "blyt_elf32_find_section elf name = Some (Some (off, sz))" for off sz
    using that unfolding eq by (auto simp: section_range_def Let_def split: option.splits if_splits)
  with r eq show ?thesis by blast
qed

definition elf_sections :: "bytes \<Rightarrow> bytes \<Rightarrow> (bytes \<times> u32 \<times> u32) list" where
  "elf_sections elf prefix =
     (case resolve_sht elf of Some (Some sht) \<Rightarrow> prefixed_sections elf sht prefix [0..<unat (shnum sht)] | _ \<Rightarrow> [])"

lemma for_each_spec:
  assumes "0 \<notin> set prefix"
  shows "blyt_elf32_for_each_section_prefix elf prefix cb ctx =
    Some (length (elf_sections elf prefix), fold (\<lambda>(suffix, off, sz). cb suffix off sz) (elf_sections elf prefix) ctx)"
proof -
  obtain r where r: "resolve_sht elf = Some r" "\<forall>sht. r = Some sht \<longrightarrow> wf_sht elf sht"
    using resolve_sht_total by blast
  show ?thesis
  proof (cases r)
    case (Some sht)
    then show ?thesis using prefix_loop_spec [OF _ assms, of elf sht "[0..<unat (shnum sht)]" cb ctx 0] r
      by (simp add: blyt_elf32_for_each_section_prefix_def elf_sections_def Let_def)
  qed (simp add: blyt_elf32_for_each_section_prefix_def elf_sections_def r)
qed

lemma elf_sections_range: "(suffix, off, sz) \<in> set (elf_sections elf prefix) \<Longrightarrow> unat off + unat sz \<le> length elf"
  by (auto simp: elf_sections_def prefixed_sections_def List.map_filter_def section_range_def Let_def
      split: option.splits if_splits)

text \<open>
  C24. The enumeration of the sections with a given name prefix is memory safe, visits exactly the sections with a
  terminated name starting with the prefix and a range inside the image, in header order, and returns their number.
\<close>
theorem for_each_section_prefix_exact:
  assumes "0 \<notin> set prefix"
  shows "blyt_elf32_for_each_section_prefix elf prefix cb ctx =
      Some (length (elf_sections elf prefix), fold (\<lambda>(suffix, off, sz). cb suffix off sz) (elf_sections elf prefix) ctx) \<and>
    list_all (\<lambda>(suffix, off, sz). unat off + unat sz \<le> length elf) (elf_sections elf prefix)"
  using for_each_spec [OF assms] elf_sections_range by (auto simp: list_all_iff)

subsection \<open>Decimal ids\<close>

definition dec_value :: "bytes \<Rightarrow> nat \<Rightarrow> nat" where
  "dec_value cs v = fold (\<lambda>c v. v * 10 + (unat c - 48)) cs v"

lemma digit_range: "\<not> (c < 48 \<or> c > (57 :: u8)) \<longleftrightarrow> 48 \<le> unat c \<and> unat c \<le> 57"
  by (auto simp: word_less_nat_alt not_less)

lemma dec_value_mono: "v \<le> dec_value cs v"
proof (induction cs arbitrary: v)
  case (Cons c cs)
  have "v \<le> v * 10 + (unat c - 48)" by simp
  also have "\<dots> \<le> dec_value cs \<dots>" by (rule Cons.IH)
  finally show ?case by (simp add: dec_value_def)
qed (simp add: dec_value_def)

lemma parse_u32_loop_spec:
  "parse_u32_loop cs v =
    (if list_all (\<lambda>c. 48 \<le> unat c \<and> unat c \<le> 57) cs \<and> dec_value cs (unat v) < 2 ^ 32
     then Some (of_nat (dec_value cs (unat v))) else None)"
proof (induction cs arbitrary: v)
  case Nil
  then show ?case using unat_u32_lt [of v] by (simp add: dec_value_def)
next
  case (Cons c cs)
  show ?case
  proof (cases "c < 48 \<or> c > 57")
    case True
    then show ?thesis using digit_range [of c] by auto
  next
    case False
    then have r: "48 \<le> unat c" "unat c \<le> 57" using digit_range [of c] by auto
    have d: "unat (ucast (c - 48) :: u32) = unat c - 48"
    proof -
      have "unat (c - 48) = unat c - 48" using r by (subst unat_sub_small) (simp_all add: word_le_nat_alt)
      then show ?thesis using r by (simp add: unsigned_ucast_eq take_bit_nat_eq_self)
    qed
    let ?d = "ucast (c - 48) :: u32"
    have sub: "unat (0xFFFFFFFF - ?d) = 4294967295 - unat ?d"
      using r d by (subst unat_sub_small) (simp_all add: word_le_nat_alt)
    have gt: "v > (0xFFFFFFFF - ?d) div 10 \<longleftrightarrow> unat v * 10 + unat ?d \<ge> 2 ^ 32"
      using r d by (simp add: word_less_nat_alt unat_div sub div_less_iff_less_mult) linarith
    have dv: "dec_value (c # cs) (unat v) = dec_value cs (unat v * 10 + unat ?d)" by (simp add: dec_value_def d)
    show ?thesis
    proof (cases "unat v * 10 + unat ?d < 2 ^ 32")
      case True
      then have "unat (v * 10 + ?d) = unat v * 10 + unat ?d" by (simp add: unat_word_ariths)
      with True False r gt show ?thesis by (simp add: Let_def Cons.IH dv)
    next
      case no: False
      then have "\<not> dec_value (c # cs) (unat v) < 2 ^ 32"
        using dec_value_mono [of "unat v * 10 + unat ?d" cs] by (simp only: dv)
      with no False gt show ?thesis by (simp add: Let_def)
    qed
  qed
qed

text \<open>
  Resource ids: \<^verbatim>\<open>blyt_elf32_parse_u32\<close> accepts exactly the non-empty strings of ASCII digits whose decimal
  value is not 0 and fits 32 bits, and returns that value; the intermediate products never wrap.
\<close>
lemma parse_u32_exact:
  "blyt_elf32_parse_u32 s = Some v \<longleftrightarrow>
    s \<noteq> [] \<and> list_all (\<lambda>c. 48 \<le> unat c \<and> unat c \<le> 57) s \<and> 0 < dec_value s 0 \<and> dec_value s 0 = unat v"
proof -
  have "unat (of_nat (dec_value s 0) :: u32) = dec_value s 0" if "dec_value s 0 < 2 ^ 32"
    using that by (simp add: unsigned_of_nat take_bit_nat_eq_self)
  moreover have "unat v < 2 ^ 32" using unat_u32_lt [of v] by simp
  ultimately show ?thesis
    by (auto simp: blyt_elf32_parse_u32_def parse_u32_loop_spec unat_eq_word [symmetric] unat_eq_zero [symmetric]
        simp del: unat_eq_zero split: if_splits)
qed

section \<open>Example\<close>

text \<open>An image with one uncompressed resource, of id 7 and contents 1, 2.\<close>

definition ascii :: "string \<Rightarrow> bytes" where
  "ascii s = map of_char s"

definition demo_shdr :: "u32 \<Rightarrow> u32 \<Rightarrow> u32 \<Rightarrow> bytes" where
  "demo_shdr name off sz = le_bytes 4 name @ replicate 12 0 @ le_bytes 4 off @ le_bytes 4 sz @ replicate 16 0"

definition demo_elf :: bytes where
  "demo_elf = replicate 32 0 @ le_bytes 4 (52 :: u32) @ replicate 12 0 @ le_bytes 2 (2 :: u16) @ le_bytes 2 (1 :: u16)
     @ demo_shdr 0 154 10 @ demo_shdr 17 132 22 @ ascii ''.cart.resource.7'' @ [0] @ ascii ''.str'' @ [0]
     @ [0, 0, 0, 0, 2, 0, 0, 0, 1, 2]"

theorem find_section_exact_witness:
  "blyt_elf32_find_section demo_elf (ascii ''.str'') = Some (Some (132, 22)) \<and> unat (132 :: u32) + unat (22 :: u32) \<le> length demo_elf"
proof -
  have f: "blyt_elf32_find_section demo_elf (ascii ''.str'') = Some (Some (132, 22))" by code_simp
  have "0 \<notin> set (ascii ''.str'')" by code_simp
  from find_section_exact [OF this, of demo_elf] f show ?thesis by auto
qed

theorem for_each_section_prefix_exact_witness:
  "elf_sections demo_elf (ascii ''.cart.resource.'') = [([55], 154, 10)] \<and>
   blyt_elf32_for_each_section_prefix demo_elf (ascii ''.cart.resource.'') (\<lambda>suffix off sz l. l @ [(suffix, off, sz)]) [] =
     Some (1, [([55], 154, 10)])"
proof -
  have e: "elf_sections demo_elf (ascii ''.cart.resource.'') = [([55], 154, 10)]" by code_simp
  have "0 \<notin> set (ascii ''.cart.resource.'')" by code_simp
  from for_each_section_prefix_exact [OF this, of demo_elf "\<lambda>suffix off sz l. l @ [(suffix, off, sz)]" "[]"] e show ?thesis
    by simp
qed

end
