(* ===== verification/Resources.thy ===== *)
theory Resources
  imports Elf_Section Mem_Budget Handles
begin

text \<open>
  The host resource table (\<^verbatim>\<open>runtime/host/src/libblyt/resource.c\<close>), the compression header and decoder
  (\<^verbatim>\<open>runtime/shared/blyt_resource_codec.c\<close>) and the pin counter
  (\<^verbatim>\<open>runtime/shared/blyt_resource_lifecycle.h\<close>).  A pointer to bytes is the bytes themselves, \<open>None\<close> when it
  is null; \<^verbatim>\<open>size_t\<close> is a natural number (the host is 64-bit).  What the code takes from outside is in
  \<open>res_env\<close>: the zstd decoder, the staging files and which allocations succeed.
\<close>

section \<open>Pin counter\<close>

record blyt_rl_state =
  pin_count :: u32

definition blyt_rl_pin :: "blyt_rl_state \<Rightarrow> blyt_rl_state" where
  "blyt_rl_pin s = s\<lparr>pin_count := pin_count s + 1\<rparr>"

definition blyt_rl_unpin :: "blyt_rl_state \<Rightarrow> bool \<times> blyt_rl_state" where
  "blyt_rl_unpin s = (if pin_count s = 0 then (False, s) else (True, s\<lparr>pin_count := pin_count s - 1\<rparr>))"

definition blyt_rl_is_evictable :: "blyt_rl_state \<Rightarrow> bool" where
  "blyt_rl_is_evictable s \<longleftrightarrow> pin_count s = 0"

definition blyt_rl_force_release_pins :: "blyt_rl_state \<Rightarrow> blyt_rl_state" where
  "blyt_rl_force_release_pins s = s\<lparr>pin_count := 0\<rparr>"

section \<open>Compression header and decoder\<close>

record res_env =
  zstd :: "bytes \<Rightarrow> nat \<Rightarrow> bytes option"
  res_files :: "string \<Rightarrow> bytes option"
  alloc_ok :: "nat \<Rightarrow> bool"

definition BLYT_RES_HEADER_LEN :: nat where "BLYT_RES_HEADER_LEN = 8"
definition BLYT_RES_ALGO_NONE :: u8 where "BLYT_RES_ALGO_NONE = 0"
definition BLYT_RES_ALGO_ZSTD :: u8 where "BLYT_RES_ALGO_ZSTD = 1"

lemmas res_consts = BLYT_RES_HEADER_LEN_def BLYT_RES_ALGO_NONE_def BLYT_RES_ALGO_ZSTD_def

definition blyt_res_header_parse :: "bytes \<Rightarrow> (u8 \<times> u32 \<times> bytes) option" where
  "blyt_res_header_parse section =
     (if length section < BLYT_RES_HEADER_LEN then None
      else
        let a = section ! 0
        in if a \<noteq> BLYT_RES_ALGO_NONE \<and> a \<noteq> BLYT_RES_ALGO_ZSTD then None
           else Some (a, le_of (slice 4 4 section), drop BLYT_RES_HEADER_LEN section))"

text \<open>Result: the \<open>out_len\<close> bytes written to the output buffer.\<close>

definition blyt_res_decode :: "res_env \<Rightarrow> u8 \<Rightarrow> bytes \<Rightarrow> nat \<Rightarrow> bytes option" where
  "blyt_res_decode env algo body out_len =
     (if algo = BLYT_RES_ALGO_NONE then if length body \<noteq> out_len then None else Some body
      else if algo = BLYT_RES_ALGO_ZSTD then
        case zstd env body out_len of None \<Rightarrow> None
        | Some got \<Rightarrow> if length got \<noteq> out_len then None else Some got
      else None)"

section \<open>Table\<close>

record blyt_resource_entry =
  re_id :: u32
  re_data :: "bytes option"
  re_len :: nat
  re_owned :: "bytes option"
  re_algo :: u8
  re_cdata :: "bytes option"
  re_src_path :: "string option"
  re_rl :: blyt_rl_state
  re_persistent :: bool
  re_last_access :: u32

record blyt_resource_table =
  entries :: "blyt_resource_entry list"
  cap :: nat
  lru_clock :: u32

definition blyt_resource_table_init :: blyt_resource_table where
  "blyt_resource_table_init = \<lparr>entries = [], cap = 0, lru_clock = 0\<rparr>"

definition blyt_resource_table_clear :: "blyt_resource_table \<Rightarrow> blyt_resource_table" where
  "blyt_resource_table_clear t = t\<lparr>entries := [], cap := 0\<rparr>"

fun find_index :: "('a \<Rightarrow> bool) \<Rightarrow> 'a list \<Rightarrow> nat option" where
  "find_index P [] = None"
| "find_index P (x # xs) = (if P x then Some 0 else map_option Suc (find_index P xs))"

definition blyt_resource_table_find :: "blyt_resource_table \<Rightarrow> u32 \<Rightarrow> blyt_resource_entry option" where
  "blyt_resource_table_find t rid = find (\<lambda>e. re_id e = rid) (entries t)"

definition blyt_resource_table_find_mut :: "blyt_resource_table \<Rightarrow> u32 \<Rightarrow> nat option" where
  "blyt_resource_table_find_mut t rid = find_index (\<lambda>e. re_id e = rid) (entries t)"

definition blyt_resource_table_force_release_pins :: "blyt_resource_table \<Rightarrow> blyt_resource_table" where
  "blyt_resource_table_force_release_pins t =
     t\<lparr>entries := map (\<lambda>e. e\<lparr>re_rl := blyt_rl_force_release_pins (re_rl e)\<rparr>) (entries t)\<rparr>"

definition blank_entry :: blyt_resource_entry where
  "blank_entry = \<lparr>re_id = 0, re_data = None, re_len = 0, re_owned = None, re_algo = BLYT_RES_ALGO_NONE,
     re_cdata = None, re_src_path = None, re_rl = \<lparr>pin_count = 0\<rparr>, re_persistent = False, re_last_access = 0\<rparr>"

text \<open>The new entry is the last one; \<open>None\<close> when the array cannot grow.\<close>

definition table_push :: "res_env \<Rightarrow> blyt_resource_table \<Rightarrow> blyt_resource_table option" where
  "table_push env t =
     (let ncap = (if length (entries t) = cap t then if cap t \<noteq> 0 then cap t * 2 else 8 else cap t)
      in if length (entries t) = cap t \<and> \<not> alloc_ok env (ncap * 80) then None
         else Some (t\<lparr>entries := entries t @ [blank_entry], cap := ncap\<rparr>))"

definition set_last :: "(blyt_resource_entry \<Rightarrow> blyt_resource_entry) \<Rightarrow> blyt_resource_table \<Rightarrow> blyt_resource_table" where
  "set_last f t = t\<lparr>entries := (entries t)[length (entries t) - 1 := f (entries t ! (length (entries t) - 1))]\<rparr>"

definition set_entry :: "nat \<Rightarrow> blyt_resource_entry \<Rightarrow> blyt_resource_table \<Rightarrow> blyt_resource_table" where
  "set_entry i e t = t\<lparr>entries := (entries t)[i := e]\<rparr>"

section \<open>Bytes of an entry\<close>

definition read_whole_file :: "res_env \<Rightarrow> string \<Rightarrow> bytes option" where
  "read_whole_file env path =
     (case res_files env path of None \<Rightarrow> None
      | Some content \<Rightarrow> if alloc_ok env (length content + 1) then Some content else None)"

definition blyt_resource_entry_data :: "res_env \<Rightarrow> blyt_resource_entry \<Rightarrow> bytes option \<times> blyt_resource_entry" where
  "blyt_resource_entry_data env e =
     (case re_data e of Some d \<Rightarrow> (Some d, e)
      | None \<Rightarrow>
          (case re_src_path e of
             Some path \<Rightarrow>
               (case read_whole_file env path of None \<Rightarrow> (None, e)
                | Some buf \<Rightarrow> (Some buf, e\<lparr>re_owned := Some buf, re_data := Some buf, re_len := length buf\<rparr>))
           | None \<Rightarrow>
               if re_algo e \<noteq> BLYT_RES_ALGO_ZSTD then (None, e)
               else if \<not> alloc_ok env (if re_len e \<noteq> 0 then re_len e else 1) then (None, e)
               else case blyt_res_decode env (re_algo e) (case re_cdata e of Some c \<Rightarrow> c | None \<Rightarrow> []) (re_len e) of
                 None \<Rightarrow> (None, e)
               | Some buf \<Rightarrow> (Some buf, e\<lparr>re_owned := Some buf, re_data := Some buf\<rparr>)))"

section \<open>Eviction\<close>

definition blyt_resource_entry_evict :: "blyt_resource_entry \<Rightarrow> nat \<times> blyt_resource_entry" where
  "blyt_resource_entry_evict e =
     (if re_persistent e \<or> \<not> blyt_rl_is_evictable (re_rl e) then (0, e)
      else if re_owned e = None then (0, e)
      else (re_len e, e\<lparr>re_owned := None, re_data := None\<rparr>))"

definition blyt_resource_table_evict_all_evictable :: "blyt_resource_table \<Rightarrow> nat \<times> blyt_resource_table" where
  "blyt_resource_table_evict_all_evictable t =
     (sum_list (map (fst \<circ> blyt_resource_entry_evict) (entries t)),
      t\<lparr>entries := map (snd \<circ> blyt_resource_entry_evict) (entries t)\<rparr>)"

text \<open>The three 32-bit sums: \<^verbatim>\<open>total += (uint32_t)e->len\<close> over the entries that satisfy a condition.\<close>

definition len_sum :: "(blyt_resource_entry \<Rightarrow> bool) \<Rightarrow> blyt_resource_entry list \<Rightarrow> u32" where
  "len_sum P es = fold (\<lambda>e total. if P e then total + of_nat (re_len e) else total) es 0"

definition blyt_resource_table_footprint :: "blyt_resource_table \<Rightarrow> u32" where
  "blyt_resource_table_footprint t = len_sum (\<lambda>e. re_persistent e \<or> \<not> blyt_rl_is_evictable (re_rl e)) (entries t)"

definition resident_evictable :: "blyt_resource_entry \<Rightarrow> bool" where
  "resident_evictable e \<longleftrightarrow> re_owned e \<noteq> None \<and> \<not> re_persistent e \<and> blyt_rl_is_evictable (re_rl e)"

definition blyt_resource_table_resident_evictable :: "blyt_resource_table \<Rightarrow> u32" where
  "blyt_resource_table_resident_evictable t = len_sum resident_evictable (entries t)"

definition blyt_resource_table_resident_decompressed :: "blyt_resource_table \<Rightarrow> u32" where
  "blyt_resource_table_resident_decompressed t = len_sum (\<lambda>e. re_owned e \<noteq> None) (entries t)"

definition blyt_resource_table_touch :: "nat \<Rightarrow> blyt_resource_table \<Rightarrow> blyt_resource_table" where
  "blyt_resource_table_touch i t =
     (let clk = lru_clock t + 1
      in t\<lparr>lru_clock := clk, entries := (entries t)[i := (entries t ! i)\<lparr>re_last_access := clk\<rparr>]\<rparr>)"

fun victim_scan :: "blyt_resource_entry list \<Rightarrow> nat \<Rightarrow> (nat \<times> u32) option \<Rightarrow> nat option" where
  "victim_scan [] i best = map_option fst best"
| "victim_scan (e # es) i best =
     (if \<not> resident_evictable e then victim_scan es (Suc i) best
      else victim_scan es (Suc i)
        (case best of None \<Rightarrow> Some (i, re_last_access e)
         | Some (j, la) \<Rightarrow> if re_last_access e < la then Some (i, re_last_access e) else best))"

lemma victim_scan_Some:
  "victim_scan es i best = Some v \<Longrightarrow>
   (\<exists>la. best = Some (v, la) \<and> (\<forall>e \<in> set es. resident_evictable e \<longrightarrow> la \<le> re_last_access e)) \<or>
   (i \<le> v \<and> v < i + length es \<and> resident_evictable (es ! (v - i)) \<and>
     (\<forall>e \<in> set es. resident_evictable e \<longrightarrow> re_last_access (es ! (v - i)) \<le> re_last_access e) \<and>
     (\<forall>j la. best = Some (j, la) \<longrightarrow> re_last_access (es ! (v - i)) < la))"
proof (induction es arbitrary: i best)
  case Nil
  then show ?case by auto
next
  case (Cons e es)
  define best' where "best' = (if \<not> resident_evictable e then best
    else case best of None \<Rightarrow> Some (i, re_last_access e)
         | Some (j, la) \<Rightarrow> if re_last_access e < la then Some (i, re_last_access e) else best)"
  have v: "victim_scan es (Suc i) best' = Some v" using Cons.prems by (auto simp: best'_def split: if_splits)
  have b: "best' = Some (j, la) \<Longrightarrow> (best = Some (j, la) \<and> (resident_evictable e \<longrightarrow> la \<le> re_last_access e)) \<or>
      (j = i \<and> la = re_last_access e \<and> resident_evictable e \<and> (\<forall>j' la'. best = Some (j', la') \<longrightarrow> re_last_access e < la'))" for j la
    by (auto simp: best'_def split: if_splits option.splits)
  have b2: "best = Some (j, la) \<Longrightarrow> \<exists>j' la'. best' = Some (j', la') \<and> la' \<le> la \<and> (resident_evictable e \<longrightarrow> la' \<le> re_last_access e)" for j la
    by (auto simp: best'_def split: if_splits)
  have b3: "resident_evictable e \<Longrightarrow> \<exists>j' la'. best' = Some (j', la') \<and> la' \<le> re_last_access e"
    by (auto simp: best'_def split: option.splits)
  from Cons.IH [OF v] show ?case
  proof
    assume "\<exists>la. best' = Some (v, la) \<and> (\<forall>e \<in> set es. resident_evictable e \<longrightarrow> la \<le> re_last_access e)"
    then obtain la where la: "best' = Some (v, la)" "\<forall>e \<in> set es. resident_evictable e \<longrightarrow> la \<le> re_last_access e" by auto
    from b [OF la(1)] show ?thesis
    proof
      assume "best = Some (v, la) \<and> (resident_evictable e \<longrightarrow> la \<le> re_last_access e)"
      with la(2) show ?thesis by simp
    next
      assume "v = i \<and> la = re_last_access e \<and> resident_evictable e \<and> (\<forall>j' la'. best = Some (j', la') \<longrightarrow> re_last_access e < la')"
      with la(2) show ?thesis by simp
    qed
  next
    assume h: "Suc i \<le> v \<and> v < Suc i + length es \<and> resident_evictable (es ! (v - Suc i)) \<and>
     (\<forall>e \<in> set es. resident_evictable e \<longrightarrow> re_last_access (es ! (v - Suc i)) \<le> re_last_access e) \<and>
     (\<forall>j la. best' = Some (j, la) \<longrightarrow> re_last_access (es ! (v - Suc i)) < la)"
    then have n: "(e # es) ! (v - i) = es ! (v - Suc i)" by (simp add: nth_Cons' Suc_diff_le)
    have "resident_evictable e \<longrightarrow> re_last_access (es ! (v - Suc i)) \<le> re_last_access e"
    proof
      assume "resident_evictable e"
      from b3 [OF this] obtain j' la' where "best' = Some (j', la')" "la' \<le> re_last_access e" by auto
      with h show "re_last_access (es ! (v - Suc i)) \<le> re_last_access e" by auto
    qed
    moreover have "\<forall>j la. best = Some (j, la) \<longrightarrow> re_last_access (es ! (v - Suc i)) < la"
    proof (intro allI impI)
      fix j la assume "best = Some (j, la)"
      from b2 [OF this] obtain j' la' where "best' = Some (j', la')" "la' \<le> la" by auto
      with h show "re_last_access (es ! (v - Suc i)) < la" by auto
    qed
    ultimately show ?thesis using h n by auto
  qed
qed

lemma victim_scan_None: "victim_scan es i best = None \<longleftrightarrow> best = None \<and> (\<forall>e \<in> set es. \<not> resident_evictable e)"
  by (induction es arbitrary: i best) (auto split: option.splits if_splits)

lemma victimD:
  assumes "victim_scan es 0 None = Some v"
  shows "v < length es" "resident_evictable (es ! v)"
    "\<And>e. e \<in> set es \<Longrightarrow> resident_evictable e \<Longrightarrow> re_last_access (es ! v) \<le> re_last_access e"
  using victim_scan_Some [OF assms] by auto

lemma evict_not_resident: "\<not> resident_evictable (snd (blyt_resource_entry_evict e))"
  by (auto simp: blyt_resource_entry_evict_def resident_evictable_def)

lemma filter_update_less:
  "v < length es \<Longrightarrow> P (es ! v) \<Longrightarrow> \<not> P e' \<Longrightarrow> length (filter P (es[v := e'])) < length (filter P es)"
proof (induction es arbitrary: v)
  case (Cons a es)
  then show ?case by (cases v) auto
qed simp

function evict_to_fit_loop :: "blyt_resource_entry list \<Rightarrow> u32 \<Rightarrow> nat \<Rightarrow> nat \<times> blyt_resource_entry list" where
  "evict_to_fit_loop es max_resident_evictable freed =
     (if len_sum resident_evictable es \<le> max_resident_evictable then (freed, es)
      else case victim_scan es 0 None of None \<Rightarrow> (freed, es)
      | Some v \<Rightarrow>
          let (r, e') = blyt_resource_entry_evict (es ! v)
          in evict_to_fit_loop (es[v := e']) max_resident_evictable (freed + r))"
  by auto
termination
proof (relation "measure (\<lambda>(es, m, f). length (filter resident_evictable es))")
  fix es :: "blyt_resource_entry list" and m :: u32 and freed v x r e'
  assume "victim_scan es 0 None = Some v" and x: "x = blyt_resource_entry_evict (es ! v)" "(r, e') = x"
  then have v: "v < length es" "resident_evictable (es ! v)" using victimD by blast+
  have "\<not> resident_evictable e'" using evict_not_resident [of "es ! v"] x by (metis snd_conv)
  from filter_update_less [OF v this]
  show "((es[v := e'], m, freed + r), es, m, freed) \<in> measure (\<lambda>(es, m, f). length (filter resident_evictable es))" by simp
qed simp
declare evict_to_fit_loop.simps [simp del]

definition blyt_resource_table_evict_to_fit :: "blyt_resource_table \<Rightarrow> u32 \<Rightarrow> nat \<times> blyt_resource_table" where
  "blyt_resource_table_evict_to_fit t max_resident_evictable =
     (let (freed, es) = evict_to_fit_loop (entries t) max_resident_evictable 0 in (freed, t\<lparr>entries := es\<rparr>))"

section \<open>Loading a packed cart\<close>

definition RESOURCE_SECTION_PREFIX :: bytes where "RESOURCE_SECTION_PREFIX = ascii ''.cart.resource.''"
definition PERSISTENT_SECTION :: bytes where "PERSISTENT_SECTION = ascii ''.cart.persistent''"

text \<open>The entry of one resource section.\<close>

definition fill_entry :: "u32 \<Rightarrow> bytes \<Rightarrow> blyt_resource_entry \<Rightarrow> blyt_resource_entry" where
  "fill_entry rid section e =
     (case blyt_res_header_parse section of
        None \<Rightarrow> e\<lparr>re_id := rid, re_owned := None, re_algo := BLYT_RES_ALGO_NONE, re_data := Some section,
                  re_len := length section, re_cdata := None\<rparr>
      | Some (algo, dsize, body) \<Rightarrow>
          if algo = BLYT_RES_ALGO_ZSTD then
            e\<lparr>re_id := rid, re_owned := None, re_algo := algo, re_len := unat dsize, re_data := None, re_cdata := Some body\<rparr>
          else
            e\<lparr>re_id := rid, re_owned := None, re_algo := algo, re_len := unat dsize, re_data := Some body, re_cdata := None\<rparr>)"

definition load_resource_section ::
    "res_env \<Rightarrow> bytes \<Rightarrow> bytes \<Rightarrow> u32 \<Rightarrow> u32 \<Rightarrow> blyt_resource_table \<Rightarrow> blyt_resource_table" where
  "load_resource_section env cmap suffix off sz t =
     (case blyt_elf32_parse_u32 suffix of None \<Rightarrow> t
      | Some rid \<Rightarrow>
          (case table_push env t of None \<Rightarrow> t
           | Some t' \<Rightarrow> set_last (fill_entry rid (slice (unat off) (unat sz) cmap)) t'))"

text \<open>\<open>None\<close>: a load outside of the image, which never happens (see \<open>for_each_spec\<close>).\<close>

definition blyt_resource_table_load_from_cart ::
    "res_env \<Rightarrow> blyt_resource_table \<Rightarrow> bytes option \<Rightarrow> (nat \<times> blyt_resource_table) option" where
  "blyt_resource_table_load_from_cart env t cart =
     (let t0 = blyt_resource_table_clear t
      in case cart of None \<Rightarrow> Some (0, t0)
      | Some cmap \<Rightarrow>
          map_option (\<lambda>(_, t'). (length (entries t'), t'))
            (blyt_elf32_for_each_section_prefix cmap RESOURCE_SECTION_PREFIX (load_resource_section env cmap) t0))"

section \<open>Persistent resources\<close>

definition read_u32_le :: "bytes \<Rightarrow> u32" where
  "read_u32_le p = ucast (p ! 0) OR push_bit 8 (ucast (p ! 1)) OR push_bit 16 (ucast (p ! 2)) OR push_bit 24 (ucast (p ! 3))"

fun mark_persistent_loop :: "blyt_resource_table \<Rightarrow> bytes \<Rightarrow> blyt_resource_table" where
  "mark_persistent_loop t (a # b # c # d # rest) =
     (let t' = (case blyt_resource_table_find_mut t (read_u32_le [a, b, c, d]) of None \<Rightarrow> t
                | Some i \<Rightarrow> set_entry i ((entries t ! i)\<lparr>re_persistent := True\<rparr>) t)
      in mark_persistent_loop t' rest)"
| "mark_persistent_loop t _ = t"

definition blyt_resource_table_mark_persistent :: "blyt_resource_table \<Rightarrow> bytes option \<Rightarrow> blyt_resource_table" where
  "blyt_resource_table_mark_persistent t ids_le = (case ids_le of None \<Rightarrow> t | Some ids \<Rightarrow> mark_persistent_loop t ids)"

definition blyt_resource_table_load_persistent_from_cart ::
    "blyt_resource_table \<Rightarrow> bytes option \<Rightarrow> blyt_resource_table option" where
  "blyt_resource_table_load_persistent_from_cart t cart =
     (case cart of None \<Rightarrow> Some t
      | Some cmap \<Rightarrow>
          map_option (\<lambda>r. case r of None \<Rightarrow> t
              | Some (off, sz) \<Rightarrow> blyt_resource_table_mark_persistent t (Some (slice (unat off) (unat sz) cmap)))
            (blyt_elf32_find_section cmap PERSISTENT_SECTION))"

fun preload_loop :: "res_env \<Rightarrow> blyt_resource_entry list \<Rightarrow> bool \<times> blyt_resource_entry list" where
  "preload_loop env [] = (True, [])"
| "preload_loop env (e # es) =
     (if \<not> re_persistent e then let (ok, es') = preload_loop env es in (ok, e # es')
      else
        let (d, e') = blyt_resource_entry_data env e
        in if d = None then (False, e' # es) else let (ok, es') = preload_loop env es in (ok, e' # es'))"

definition blyt_resource_table_preload_persistent :: "res_env \<Rightarrow> blyt_resource_table \<Rightarrow> int \<times> blyt_resource_table" where
  "blyt_resource_table_preload_persistent env t =
     (if blyt_resource_table_footprint t > BLYT_MEM_BUDGET_BYTES then (- 1, t)
      else let (ok, es) = preload_loop env (entries t) in (if ok then 0 else - 1, t\<lparr>entries := es\<rparr>))"

section \<open>Loading a development directory\<close>

text \<open>\<^verbatim>\<open>fgets\<close> with a buffer of 4096 bytes, as the list of its results; \<^verbatim>\<open>strchr\<close>; \<^verbatim>\<open>strtoul\<close> in base 10.\<close>

fun fgets_line :: "nat \<Rightarrow> bytes \<Rightarrow> bytes \<times> bytes" where
  "fgets_line 0 bs = ([], bs)"
| "fgets_line (Suc n) [] = ([], [])"
| "fgets_line (Suc n) (b # bs) =
     (if b = 10 then ([b], bs) else let (l, rest) = fgets_line n bs in (b # l, rest))"

lemma fgets_line_length: "fgets_line n bs = (l, rest) \<Longrightarrow> length rest \<le> length bs \<and> (0 < n \<and> bs \<noteq> [] \<longrightarrow> length rest < length bs)"
  by (induction n bs arbitrary: l rest rule: fgets_line.induct) (auto split: if_splits prod.splits)

function fgets_lines :: "bytes \<Rightarrow> bytes list" where
  "fgets_lines bs = (if bs = [] then [] else let (l, rest) = fgets_line 4095 bs in l # fgets_lines rest)"
  by auto
termination
proof (relation "measure length")
  fix bs :: bytes and x l rest
  assume "bs \<noteq> []" "x = fgets_line 4095 bs" "(l, rest) = x"
  then show "(rest, bs) \<in> measure length" using fgets_line_length [of 4095 bs l rest] by simp
qed simp
declare fgets_lines.simps [simp del]

definition c_string :: "bytes \<Rightarrow> bytes" where
  "c_string = takeWhile (\<lambda>b. b \<noteq> 0)"

definition isspace :: "u8 \<Rightarrow> bool" where
  "isspace c \<longleftrightarrow> c = 32 \<or> 9 \<le> c \<and> c \<le> 13"

definition isdigit :: "u8 \<Rightarrow> bool" where
  "isdigit c \<longleftrightarrow> 48 \<le> c \<and> c \<le> 57"

text \<open>The value and the unparsed rest; nothing is consumed when there is no digit.\<close>

definition strtoul10 :: "bytes \<Rightarrow> u64 \<times> bytes" where
  "strtoul10 s =
     (let s1 = dropWhile isspace s;
          neg = (s1 \<noteq> [] \<and> hd s1 = 45);
          s2 = (if s1 \<noteq> [] \<and> (hd s1 = 45 \<or> hd s1 = 43) then tl s1 else s1);
          ds = takeWhile isdigit s2;
          v = dec_value ds 0
      in if ds = [] then (0, s)
         else (if v \<ge> 2 ^ 64 then - 1 else if neg then - of_nat v else of_nat v, dropWhile isdigit s2))"

definition strip_newline :: "bytes \<Rightarrow> bytes" where
  "strip_newline s = rev (dropWhile (\<lambda>b. b = 10 \<or> b = 13) (rev s))"

definition to_string :: "bytes \<Rightarrow> string" where
  "to_string = map (\<lambda>b. char_of (unat b))"

text \<open>One line \<^verbatim>\<open><id> <relpath>\<close> of the index: the id and the path, or nothing when the line is skipped.\<close>

definition index_line :: "string \<Rightarrow> bytes \<Rightarrow> (u32 \<times> string) option" where
  "index_line dir line =
     (let s = c_string line; before = takeWhile (\<lambda>b. b \<noteq> 32) s
      in if length before = length s then None
         else
           let rel = strip_newline (drop (length before + 1) s); (rid, endp) = strtoul10 before
           in if endp = before \<or> endp \<noteq> [] \<or> rid = 0 \<or> rel = [] then None
              else Some (ucast rid, take 4095 (dir @ ''/'' @ to_string rel)))"

text \<open>\<^verbatim>\<open>strdup_ok\<close>: whether the copy of the path could be allocated; the loop stops when the table cannot grow.\<close>

fun load_index_lines :: "res_env \<Rightarrow> (string \<Rightarrow> bool) \<Rightarrow> string \<Rightarrow> bytes list \<Rightarrow> bool \<Rightarrow> blyt_resource_table \<Rightarrow> bool \<times> blyt_resource_table" where
  "load_index_lines env strdup_ok dir [] ok t = (ok, t)"
| "load_index_lines env strdup_ok dir (l # ls) ok t =
     (case index_line dir l of None \<Rightarrow> load_index_lines env strdup_ok dir ls ok t
      | Some (rid, path) \<Rightarrow>
          (case read_whole_file env path of None \<Rightarrow> load_index_lines env strdup_ok dir ls ok t
           | Some content \<Rightarrow>
               (case table_push env t of None \<Rightarrow> (ok, t)
                | Some t' \<Rightarrow>
                    load_index_lines env strdup_ok dir ls True
                      (set_last (\<lambda>e. e\<lparr>re_id := rid, re_data := Some content, re_len := length content,
                                       re_owned := Some content,
                                       re_src_path := (if strdup_ok path then Some path else None)\<rparr>) t'))))"

definition blyt_resource_table_load_from_index ::
    "res_env \<Rightarrow> (string \<Rightarrow> bool) \<Rightarrow> blyt_resource_table \<Rightarrow> string option \<Rightarrow> int \<times> blyt_resource_table" where
  "blyt_resource_table_load_from_index env strdup_ok t dir =
     (let t0 = blyt_resource_table_clear t
      in case dir of None \<Rightarrow> (- 1, t0)
      | Some d \<Rightarrow>
          (case res_files env (take 4095 (d @ ''/resource-id-index'')) of None \<Rightarrow> (- 1, t0)
           | Some index \<Rightarrow>
               let (ok, t') = load_index_lines env strdup_ok d (fgets_lines index) False t0
               in (if ok then 0 else - 1, t')))"

section \<open>Contents are independent of residency\<close>

text \<open>The bytes an entry stands for, resident or not, and the consistency of a resident copy with its source.\<close>

definition entry_content :: "res_env \<Rightarrow> blyt_resource_entry \<Rightarrow> bytes option" where
  "entry_content env e =
     (case re_data e of Some d \<Rightarrow> Some d
      | None \<Rightarrow>
          (case re_src_path e of Some path \<Rightarrow> res_files env path
           | None \<Rightarrow> if re_algo e \<noteq> BLYT_RES_ALGO_ZSTD then None
                     else blyt_res_decode env (re_algo e) (case re_cdata e of Some c \<Rightarrow> c | None \<Rightarrow> []) (re_len e)))"

definition wf_entry :: "res_env \<Rightarrow> blyt_resource_entry \<Rightarrow> bool" where
  "wf_entry env e \<longleftrightarrow>
     (re_owned e = None \<or> re_data e = re_owned e) \<and>
     (case re_src_path e of
        Some path \<Rightarrow> (case res_files env path of None \<Rightarrow> False
          | Some b \<Rightarrow> length b = re_len e \<and> (re_data e = None \<or> re_data e = Some b))
      | None \<Rightarrow> re_owned e = None \<or>
          (re_algo e = BLYT_RES_ALGO_ZSTD \<and>
           blyt_res_decode env (re_algo e) (case re_cdata e of Some c \<Rightarrow> c | None \<Rightarrow> []) (re_len e) = re_owned e))"

text \<open>The contract of a cached object: fetching gives its contents, and neither fetching nor dropping changes them.\<close>

locale cached_bytes =
  fixes fetch :: "'e \<Rightarrow> bytes option \<times> 'e" and discard :: "'e \<Rightarrow> 'n \<times> 'e"
    and content :: "'e \<Rightarrow> bytes option" and good :: "'e \<Rightarrow> bool"
  assumes fetch_content: "good e \<Longrightarrow> fst (fetch e) = content e"
    and fetch_keeps: "good e \<Longrightarrow> good (snd (fetch e)) \<and> content (snd (fetch e)) = content e"
    and discard_keeps: "good e \<Longrightarrow> good (snd (discard e)) \<and> content (snd (discard e)) = content e"
begin

lemma history:
  "good e \<Longrightarrow> e' = fold (\<lambda>b x. if b then snd (fetch x) else snd (discard x)) ops e \<Longrightarrow>
   good e' \<and> content e' = content e \<and> fst (fetch e') = content e"
proof (induction ops arbitrary: e)
  case Nil
  then show ?case using fetch_content by simp
next
  case (Cons b ops)
  then show ?case using fetch_keeps [of e] discard_keeps [of e] by (cases b) auto
qed

end

section \<open>Steps of the table\<close>

inductive cache_step :: "res_env \<Rightarrow> blyt_resource_table \<Rightarrow> blyt_resource_table \<Rightarrow> bool" for env where
  cs_data: "i < length (entries t) \<Longrightarrow> cache_step env t (set_entry i (snd (blyt_resource_entry_data env (entries t ! i))) t)"
| cs_touch: "i < length (entries t) \<Longrightarrow> cache_step env t (blyt_resource_table_touch i t)"
| cs_evict: "i < length (entries t) \<Longrightarrow> cache_step env t (set_entry i (snd (blyt_resource_entry_evict (entries t ! i))) t)"
| cs_evict_all: "cache_step env t (snd (blyt_resource_table_evict_all_evictable t))"
| cs_fit: "cache_step env t (snd (blyt_resource_table_evict_to_fit t m))"

inductive res_step :: "res_env \<Rightarrow> blyt_resource_table \<Rightarrow> blyt_resource_table \<Rightarrow> bool" for env where
  rs_cache: "cache_step env t t' \<Longrightarrow> res_step env t t'"
| rs_pin: "i < length (entries t) \<Longrightarrow> res_step env t (set_entry i ((entries t ! i)\<lparr>re_rl := blyt_rl_pin (re_rl (entries t ! i))\<rparr>) t)"
| rs_unpin: "i < length (entries t) \<Longrightarrow>
    res_step env t (set_entry i ((entries t ! i)\<lparr>re_rl := snd (blyt_rl_unpin (re_rl (entries t ! i)))\<rparr>) t)"
| rs_release: "res_step env t (blyt_resource_table_force_release_pins t)"

text \<open>What such a step keeps of an entry.\<close>

definition keeps :: "res_env \<Rightarrow> blyt_resource_entry \<Rightarrow> blyt_resource_entry \<Rightarrow> bool" where
  "keeps env e e' \<longleftrightarrow>
     re_id e' = re_id e \<and> re_persistent e' = re_persistent e \<and>
     (wf_entry env e \<longrightarrow> wf_entry env e' \<and> entry_content env e' = entry_content env e \<and> re_len e' = re_len e) \<and>
     (re_persistent e \<and> re_data e \<noteq> None \<longrightarrow> re_data e' = re_data e)"

lemma keeps_refl [simp]: "keeps env e e"
  by (simp add: keeps_def)

lemma keeps_trans: "keeps env a b \<Longrightarrow> keeps env b c \<Longrightarrow> keeps env a c"
  by (auto simp: keeps_def)

lemma data_cases:
  obtains "snd (blyt_resource_entry_data env e) = e"
  | path b where "re_data e = None" "re_src_path e = Some path" "res_files env path = Some b"
      "snd (blyt_resource_entry_data env e) = e\<lparr>re_owned := Some b, re_data := Some b, re_len := length b\<rparr>"
  | b where "re_data e = None" "re_src_path e = None" "re_algo e = BLYT_RES_ALGO_ZSTD"
      "blyt_res_decode env (re_algo e) (case re_cdata e of Some c \<Rightarrow> c | None \<Rightarrow> []) (re_len e) = Some b"
      "snd (blyt_resource_entry_data env e) = e\<lparr>re_owned := Some b, re_data := Some b\<rparr>"
proof (cases "re_data e")
  case None
  show ?thesis
  proof (cases "re_src_path e")
    case (Some path)
    show ?thesis
    proof (cases "read_whole_file env path")
      case (Some b)
      then have "res_files env path = Some b" by (auto simp: read_whole_file_def split: option.splits if_splits)
      then show ?thesis using that(2) None Some \<open>re_src_path e = Some path\<close> by (simp add: blyt_resource_entry_data_def)
    qed (use that(1) None Some in \<open>simp add: blyt_resource_entry_data_def\<close>)
  next
    case np: None
    let ?d = "blyt_res_decode env (re_algo e) (case re_cdata e of Some c \<Rightarrow> c | None \<Rightarrow> []) (re_len e)"
    show ?thesis
    proof (cases "snd (blyt_resource_entry_data env e) = e")
      case False
      then have z: "re_algo e = BLYT_RES_ALGO_ZSTD" "alloc_ok env (if re_len e \<noteq> 0 then re_len e else 1)" "?d \<noteq> None"
        using None np by (auto simp: blyt_resource_entry_data_def split: if_splits option.splits)
      then obtain b where "?d = Some b" by auto
      then show ?thesis using that(3) [of b] None np z(1,2) by (simp add: blyt_resource_entry_data_def)
    qed (rule that(1))
  qed
qed (use that(1) in \<open>simp add: blyt_resource_entry_data_def\<close>)

lemma keeps_data: "keeps env e (snd (blyt_resource_entry_data env e)) \<and> re_rl (snd (blyt_resource_entry_data env e)) = re_rl e"
proof (cases rule: data_cases [where env = env and e = e])
  case 1
  then show ?thesis by simp
next
  case (2 path b)
  then show ?thesis by (simp add: keeps_def wf_entry_def entry_content_def)
next
  case (3 b)
  then show ?thesis by (simp add: keeps_def wf_entry_def entry_content_def)
qed

lemma keeps_evict: "keeps env e (snd (blyt_resource_entry_evict e)) \<and> re_rl (snd (blyt_resource_entry_evict e)) = re_rl e"
  by (auto simp: keeps_def blyt_resource_entry_evict_def wf_entry_def entry_content_def split: option.splits)

lemma keeps_fields: "keeps env e (e\<lparr>re_rl := r\<rparr>)" "keeps env e (e\<lparr>re_last_access := a\<rparr>)"
  by (simp_all add: keeps_def wf_entry_def entry_content_def cong: option.case_cong)

lemma data_content: "wf_entry env e \<Longrightarrow> \<forall>n. alloc_ok env n \<Longrightarrow> fst (blyt_resource_entry_data env e) = entry_content env e"
  by (auto simp: blyt_resource_entry_data_def entry_content_def read_whole_file_def split: option.splits)

interpretation host_entry: cached_bytes "blyt_resource_entry_data env" blyt_resource_entry_evict "entry_content env"
  "\<lambda>e. wf_entry env e \<and> (\<forall>n. alloc_ok env n)" for env
proof unfold_locales
  fix e assume "wf_entry env e \<and> (\<forall>n. alloc_ok env n)"
  then show "fst (blyt_resource_entry_data env e) = entry_content env e"
    "(wf_entry env (snd (blyt_resource_entry_data env e)) \<and> (\<forall>n. alloc_ok env n)) \<and>
      entry_content env (snd (blyt_resource_entry_data env e)) = entry_content env e"
    "(wf_entry env (snd (blyt_resource_entry_evict e)) \<and> (\<forall>n. alloc_ok env n)) \<and>
      entry_content env (snd (blyt_resource_entry_evict e)) = entry_content env e"
    using data_content keeps_data [of env e] keeps_evict [of env e] by (auto simp: keeps_def)
qed

definition table_keeps :: "res_env \<Rightarrow> bool \<Rightarrow> blyt_resource_entry list \<Rightarrow> blyt_resource_entry list \<Rightarrow> bool" where
  "table_keeps env pins es es' \<longleftrightarrow> list_all2 (\<lambda>e e'. keeps env e e' \<and> (pins \<longrightarrow> re_rl e' = re_rl e)) es es'"

lemma table_keeps_refl [simp]: "table_keeps env p es es"
  by (simp add: table_keeps_def list_all2_refl)

lemma table_keeps_trans: "table_keeps env p a b \<Longrightarrow> table_keeps env p b c \<Longrightarrow> table_keeps env p a c"
  unfolding table_keeps_def by (erule (1) list_all2_trans [rotated]) (auto intro: keeps_trans)

lemma table_keeps_update:
  "i < length es \<Longrightarrow> keeps env (es ! i) e \<Longrightarrow> (p \<longrightarrow> re_rl e = re_rl (es ! i)) \<Longrightarrow> table_keeps env p es (es[i := e])"
  by (auto simp: table_keeps_def list_all2_conv_all_nth nth_list_update)

lemma table_keeps_map:
  "(\<And>e. keeps env e (f e) \<and> (p \<longrightarrow> re_rl (f e) = re_rl e)) \<Longrightarrow> table_keeps env p es (map f es)"
  by (auto simp: table_keeps_def list_all2_conv_all_nth)

lemma fit_keeps: "evict_to_fit_loop es m f = (f', es') \<Longrightarrow> table_keeps env True es es'"
proof (induction es m f arbitrary: f' es' rule: evict_to_fit_loop.induct)
  case (1 es m f)
  show ?case
  proof (cases "len_sum resident_evictable es \<le> m \<or> victim_scan es 0 None = None")
    case True
    then show ?thesis using 1(2) by (subst (asm) evict_to_fit_loop.simps) (auto split: if_splits)
  next
    case False
    then obtain v where v: "victim_scan es 0 None = Some v" by auto
    obtain r e' where e': "blyt_resource_entry_evict (es ! v) = (r, e')" by fastforce
    have l: "evict_to_fit_loop (es[v := e']) m (f + r) = (f', es')"
      using 1(2) False v e' by (subst (asm) evict_to_fit_loop.simps) simp
    have "table_keeps env True es (es[v := e'])"
      using victimD [OF v] keeps_evict [of env "es ! v"] e' by (intro table_keeps_update) auto
    moreover have "table_keeps env True (es[v := e']) es'" using 1(1) [OF _ v refl e' [symmetric] l] False by simp
    ultimately show ?thesis by (rule table_keeps_trans)
  qed
qed

lemma cache_step_keeps: "cache_step env t t' \<Longrightarrow> table_keeps env True (entries t) (entries t')"
proof (induction rule: cache_step.induct)
  case (cs_data i t)
  then show ?case using keeps_data [of env "entries t ! i"] by (auto simp: set_entry_def intro: table_keeps_update)
next
  case (cs_touch i t)
  then show ?case by (auto simp: blyt_resource_table_touch_def Let_def intro!: table_keeps_update keeps_fields)
next
  case (cs_evict i t)
  then show ?case using keeps_evict [of env "entries t ! i"] by (auto simp: set_entry_def intro: table_keeps_update)
next
  case (cs_evict_all t)
  show ?case using keeps_evict by (auto simp: blyt_resource_table_evict_all_evictable_def intro!: table_keeps_map)
next
  case (cs_fit t m)
  show ?case using fit_keeps by (auto simp: blyt_resource_table_evict_to_fit_def split: prod.splits)
qed

lemma table_keeps_weaken: "table_keeps env p es es' \<Longrightarrow> table_keeps env False es es'"
  by (auto simp: table_keeps_def elim: list_all2_mono)

lemma res_step_keeps: "res_step env t t' \<Longrightarrow> table_keeps env False (entries t) (entries t')"
proof (induction rule: res_step.induct)
  case (rs_cache t t')
  then show ?case using cache_step_keeps table_keeps_weaken by blast
next
  case (rs_release t)
  show ?case by (auto simp: blyt_resource_table_force_release_pins_def intro!: table_keeps_map keeps_fields)
qed (auto simp: set_entry_def intro!: table_keeps_update keeps_fields)

lemma res_steps_keep: "(res_step env)\<^sup>*\<^sup>* t t' \<Longrightarrow> table_keeps env False (entries t) (entries t')"
  by (induction rule: rtranclp_induct) (auto intro: table_keeps_trans dest: res_step_keeps)

lemma cache_steps_keep: "(cache_step env)\<^sup>*\<^sup>* t t' \<Longrightarrow> table_keeps env True (entries t) (entries t')"
  by (induction rule: rtranclp_induct) (auto intro: table_keeps_trans dest: cache_step_keeps)

lemma len_sum_fold: "fold (\<lambda>e total. if P e then total + of_nat (re_len e) else total) es (a + b) =
    a + fold (\<lambda>e total. if P e then total + of_nat (re_len e) else total) es (b :: u32)"
  by (induction es arbitrary: b) (auto simp: add.assoc)

lemma len_sum_simps [simp]: "len_sum P [] = 0" "len_sum P (e # es) = (if P e then of_nat (re_len e) else 0) + len_sum P es"
  using len_sum_fold [of P es "of_nat (re_len e)" 0] by (simp_all add: len_sum_def)

lemma len_sum_cong: "list_all2 (\<lambda>e e'. P e = Q e' \<and> re_len e = re_len e') es es' \<Longrightarrow> len_sum P es = len_sum Q es'"
  by (induction es es' rule: list_all2_induct) auto

lemma len_sum_none: "\<forall>e \<in> set es. \<not> P e \<Longrightarrow> len_sum P es = 0"
  by (induction es) auto

lemma len_sum_total: "len_sum P es = of_nat (sum_list (map re_len (filter P es)))"
  by (induction es) auto

lemma footprint_keeps:
  assumes "table_keeps env True (entries t) (entries t')" "\<forall>e \<in> set (entries t). wf_entry env e"
  shows "blyt_resource_table_footprint t' = blyt_resource_table_footprint t"
  unfolding blyt_resource_table_footprint_def
  using assms
  by (intro len_sum_cong [symmetric]) (auto simp: table_keeps_def keeps_def list_all2_conv_all_nth)


text \<open>
  C18. Memory admission does not depend on the cache: materialising, touching and evicting entries leave the
  non-evictable footprint as it is, so an allocation or a pin is admitted or refused the same way whatever is resident.
\<close>
theorem admission_independent_of_cache:
  assumes wf: "\<forall>e \<in> set (entries t). wf_entry env e" and steps: "(cache_step env)\<^sup>*\<^sup>* t t'"
  shows "blyt_mem_alloc_fits heap (blyt_resource_table_footprint t') n = blyt_mem_alloc_fits heap (blyt_resource_table_footprint t) n"
  using footprint_keeps [OF cache_steps_keep [OF steps] wf] by simp

text \<open>Eviction to fit.\<close>

definition evicted :: "blyt_resource_entry \<Rightarrow> blyt_resource_entry" where
  "evicted e = e\<lparr>re_owned := None, re_data := None\<rparr>"

lemma evict_resident: "resident_evictable e \<Longrightarrow> blyt_resource_entry_evict e = (re_len e, evicted e)"
  by (auto simp: resident_evictable_def blyt_resource_entry_evict_def evicted_def)

lemma evicted_not_resident [simp]: "\<not> resident_evictable (evicted e)"
  by (simp add: resident_evictable_def evicted_def)

lemma fit_effect:
  "evict_to_fit_loop es m f = (f', es') \<Longrightarrow>
   len_sum resident_evictable es' \<le> m \<and> length es' = length es \<and>
   (\<forall>i < length es. es' ! i = es ! i \<or> (resident_evictable (es ! i) \<and> es' ! i = evicted (es ! i) \<and>
      (\<forall>j < length es. resident_evictable (es' ! j) \<longrightarrow> re_last_access (es ! i) \<le> re_last_access (es' ! j))))"
proof (induction es m f arbitrary: f' es' rule: evict_to_fit_loop.induct)
  case (1 es m f)
  show ?case
  proof (cases "len_sum resident_evictable es \<le> m \<or> victim_scan es 0 None = None")
    case True
    then have "es' = es" using 1(2) by (subst (asm) evict_to_fit_loop.simps) (auto split: if_splits)
    moreover have "len_sum resident_evictable es \<le> m"
      using True victim_scan_None [of es 0 None] len_sum_none [of es resident_evictable] by auto
    ultimately show ?thesis by simp
  next
    case False
    then obtain v where v: "victim_scan es 0 None = Some v" by auto
    note vD = victimD [OF v]
    let ?es1 = "es[v := evicted (es ! v)]"
    have e': "blyt_resource_entry_evict (es ! v) = (re_len (es ! v), evicted (es ! v))" using evict_resident vD(2) .
    have l: "evict_to_fit_loop ?es1 m (f + re_len (es ! v)) = (f', es')"
      using 1(2) False v e' by (subst (asm) evict_to_fit_loop.simps) simp
    have IH: "len_sum resident_evictable es' \<le> m" "length es' = length es"
      "\<And>i. i < length es \<Longrightarrow> es' ! i = ?es1 ! i \<or> (resident_evictable (?es1 ! i) \<and> es' ! i = evicted (?es1 ! i) \<and>
        (\<forall>j < length es. resident_evictable (es' ! j) \<longrightarrow> re_last_access (?es1 ! i) \<le> re_last_access (es' ! j)))"
      using 1(1) [OF _ v refl e' [symmetric] l] False by auto
    have old: "es' ! j = es ! j \<and> resident_evictable (es ! j)" if "j < length es" "resident_evictable (es' ! j)" for j
      using IH(3) [OF that(1)] that by (cases "j = v") auto
    have "es' ! i = es ! i \<or> (resident_evictable (es ! i) \<and> es' ! i = evicted (es ! i) \<and>
      (\<forall>j < length es. resident_evictable (es' ! j) \<longrightarrow> re_last_access (es ! i) \<le> re_last_access (es' ! j)))"
      if i: "i < length es" for i
    proof (cases "i = v")
      case True
      have "re_last_access (es ! v) \<le> re_last_access (es' ! j)" if "j < length es" "resident_evictable (es' ! j)" for j
        using old [OF that] vD(3) [of "es ! j"] that(1) by simp
      moreover have "es' ! v = evicted (es ! v)" using IH(3) [OF vD(1)] vD(1) by simp
      ultimately show ?thesis using True vD by simp
    next
      case False
      then show ?thesis using IH(3) [OF i] by simp
    qed
    with IH show ?thesis by simp
  qed
qed


section \<open>Loading\<close>

definition cart_entries :: "bytes \<Rightarrow> blyt_resource_entry list" where
  "cart_entries cmap =
     List.map_filter (\<lambda>(suffix, off, sz). map_option (\<lambda>rid. fill_entry rid (slice (unat off) (unat sz) cmap) blank_entry)
         (blyt_elf32_parse_u32 suffix))
       (elf_sections cmap RESOURCE_SECTION_PREFIX)"

lemma section_names_nul_free: "0 \<notin> set RESOURCE_SECTION_PREFIX" "0 \<notin> set PERSISTENT_SECTION"
  by code_simp+

lemma push_ok: "\<forall>n. alloc_ok env n \<Longrightarrow> \<exists>t'. table_push env t = Some t' \<and> entries t' = entries t @ [blank_entry]"
  by (auto simp: table_push_def Let_def)

lemma set_last_push: "entries t = es @ [e] \<Longrightarrow> entries (set_last f t) = es @ [f e]"
  by (simp add: set_last_def)

lemma load_section:
  assumes "\<forall>n. alloc_ok env n"
  shows "entries (load_resource_section env cmap suffix off sz t) = entries t @
    (case blyt_elf32_parse_u32 suffix of None \<Rightarrow> []
     | Some rid \<Rightarrow> [fill_entry rid (slice (unat off) (unat sz) cmap) blank_entry])"
  using push_ok [OF assms, of t] by (auto simp: load_resource_section_def set_last_push split: option.splits)

lemma load_sections:
  assumes "\<forall>n. alloc_ok env n"
  shows "entries (fold (\<lambda>(suffix, off, sz). load_resource_section env cmap suffix off sz) secs t) = entries t @
    List.map_filter (\<lambda>(suffix, off, sz). map_option (\<lambda>rid. fill_entry rid (slice (unat off) (unat sz) cmap) blank_entry)
      (blyt_elf32_parse_u32 suffix)) secs"
proof (induction secs arbitrary: t)
  case (Cons s secs)
  obtain suffix off sz where s: "s = (suffix, off, sz)" by (cases s)
  show ?case
    by (cases "blyt_elf32_parse_u32 suffix") (simp_all add: s Cons.IH load_section [OF assms] List.map_filter_simps)
qed (simp add: List.map_filter_simps)

lemma fill_entry_wf: "wf_entry env (fill_entry rid section blank_entry)"
  by (auto simp: fill_entry_def blank_entry_def wf_entry_def split: option.splits prod.splits)

text \<open>
  C22. Loading a packed cart is memory safe on every image and yields exactly one entry per section named
  \<^verbatim>\<open>.cart.resource.<id>\<close> with a valid id, in header order, each consistent with its source.
\<close>
theorem load_from_cart_exact:
  assumes "\<forall>n. alloc_ok env n"
  shows "\<exists>t'. blyt_resource_table_load_from_cart env t (Some cmap) = Some (length (cart_entries cmap), t') \<and>
    entries t' = cart_entries cmap \<and> list_all (wf_entry env) (entries t')"
proof -
  define t' where "t' = fold (\<lambda>(suffix, off, sz). load_resource_section env cmap suffix off sz)
    (elf_sections cmap RESOURCE_SECTION_PREFIX) (blyt_resource_table_clear t)"
  have e: "entries t' = cart_entries cmap"
    unfolding t'_def load_sections [OF assms] by (simp add: cart_entries_def blyt_resource_table_clear_def)
  have "blyt_resource_table_load_from_cart env t (Some cmap) = Some (length (entries t'), t')"
    using for_each_spec [OF section_names_nul_free(1), of cmap "load_resource_section env cmap" "blyt_resource_table_clear t"]
    by (simp add: blyt_resource_table_load_from_cart_def t'_def)
  moreover have "list_all (wf_entry env) (cart_entries cmap)"
    by (auto simp: list_all_iff cart_entries_def List.map_filter_def fill_entry_wf)
  ultimately show ?thesis using e by simp
qed

section \<open>Persistent entries\<close>

lemma preload_spec:
  "preload_loop env es = (ok, es') \<Longrightarrow> list_all2 (keeps env) es es' \<and>
   (ok \<longrightarrow> (\<forall>e \<in> set es'. re_persistent e \<longrightarrow> re_data e \<noteq> None))"
proof (induction es arbitrary: ok es')
  case (Cons e es)
  obtain d e' where d: "blyt_resource_entry_data env e = (d, e')" by fastforce
  obtain ok2 es2 where r: "preload_loop env es = (ok2, es2)" by fastforce
  note IH = Cons.IH [OF r]
  have k: "keeps env e e'" using keeps_data [of env e] d by simp
  have "d = re_data e'" if "d \<noteq> None"
    using d that by (auto simp: blyt_resource_entry_data_def split: option.splits if_splits)
  then show ?case using Cons.prems IH k d r
    by (auto simp: Let_def list_all2_refl split: if_splits)
qed simp

lemma footprint_total:
  "unat (blyt_resource_table_footprint t) =
     sum_list (map re_len (filter (\<lambda>e. re_persistent e \<or> \<not> blyt_rl_is_evictable (re_rl e)) (entries t))) mod 2 ^ 32"
  by (simp add: blyt_resource_table_footprint_def len_sum_total unsigned_of_nat take_bit_eq_mod)


section \<open>Example\<close>

definition demo_env :: res_env where
  "demo_env = \<lparr>zstd = (\<lambda>bs n. if length bs \<le> n then Some (bs @ replicate (n - length bs) 7) else None),
     res_files = (\<lambda>_. None), alloc_ok = (\<lambda>_. True)\<rparr>"

definition demo_packed :: "u32 \<Rightarrow> u32 \<Rightarrow> bool \<Rightarrow> bytes \<Rightarrow> blyt_resource_entry" where
  "demo_packed rid la pers body =
     (fill_entry rid ([1, 0, 0, 0, 4, 0, 0, 0] @ body) blank_entry)\<lparr>re_last_access := la, re_persistent := pers\<rparr>"

definition demo_table :: blyt_resource_table where
  "demo_table = \<lparr>entries = map (snd \<circ> blyt_resource_entry_data demo_env)
     [demo_packed 1 5 False [1, 2], demo_packed 2 3 False [3], demo_packed 3 1 True [4]], cap = 8, lru_clock = 5\<rparr>"

lemma demo_alloc_ok: "\<forall>n. alloc_ok demo_env n"
  by (simp add: demo_env_def)

lemma demo_table_wf: "\<forall>e \<in> set (entries demo_table). wf_entry demo_env e"
  by code_simp


theorem admission_independent_of_cache_witness:
  "blyt_mem_alloc_fits 0 (blyt_resource_table_footprint (snd (blyt_resource_table_evict_all_evictable demo_table))) 16777212 \<and>
   blyt_resource_table_resident_evictable demo_table = 8"
proof -
  have "(cache_step demo_env)\<^sup>*\<^sup>* demo_table (snd (blyt_resource_table_evict_all_evictable demo_table))"
    by (intro r_into_rtranclp cs_evict_all)
  moreover have "blyt_mem_alloc_fits 0 (blyt_resource_table_footprint demo_table) 16777212"
    "blyt_resource_table_resident_evictable demo_table = 8" by code_simp+
  ultimately show ?thesis using admission_independent_of_cache [OF demo_table_wf] by metis
qed


theorem load_from_cart_exact_witness:
  "\<exists>t'. blyt_resource_table_load_from_cart demo_env blyt_resource_table_init (Some demo_elf) = Some (1, t') \<and>
     map (\<lambda>e. (re_id e, re_data e)) (entries t') = [(7, Some [1, 2])]"
proof -
  have "map (\<lambda>e. (re_id e, re_data e)) (cart_entries demo_elf) = [(7, Some [1, 2])]" by code_simp
  moreover have "length (cart_entries demo_elf) = 1" by code_simp
  ultimately show ?thesis
    using load_from_cart_exact [OF demo_alloc_ok, of blyt_resource_table_init demo_elf] by auto
qed


end
