(* ===== verification/Raster.thy ===== *)
theory Raster
  imports Handles
begin

text \<open>
  The integer rasteriser (\<^verbatim>\<open>runtime/shared/blyt_raster.c\<close>) and the frame hash
  (\<^verbatim>\<open>blyt_frame_hash.c\<close>).  A buffer pointer is an optional byte list, \<open>None\<close> when null.  A
  write is a \<open>splice\<close>, which keeps the length of the list exactly when it lies inside the
  buffer.  Coordinates of the clipped primitives are integers (their 64-bit
  intermediates cannot overflow for 32-bit arguments); the line walk, which the code does in
  \<^verbatim>\<open>int\<close> with wrap-around, works on 32-bit words read as signed numbers.
\<close>

section \<open>Primitives\<close>

definition blyt_raster_clear :: "bytes option \<Rightarrow> int \<Rightarrow> int \<Rightarrow> int \<Rightarrow> u8 \<Rightarrow> bytes option" where
  "blyt_raster_clear fb stride width height color =
     (case fb of None \<Rightarrow> None
      | Some p \<Rightarrow>
          if width \<le> 0 \<or> height \<le> 0 \<or> stride \<le> 0 then fb
          else Some (fold (\<lambda>y p. splice (nat y * nat stride) (replicate (nat width) color) p) [0..height - 1] p))"

definition blyt_raster_pixel :: "bytes option \<Rightarrow> int \<Rightarrow> int \<Rightarrow> int \<Rightarrow> int \<Rightarrow> int \<Rightarrow> u8 \<Rightarrow> bytes option" where
  "blyt_raster_pixel fb stride width height x y color =
     (case fb of None \<Rightarrow> None
      | Some p \<Rightarrow>
          if stride \<le> 0 then fb
          else if x < 0 \<or> x \<ge> width \<or> y < 0 \<or> y \<ge> height then fb
          else Some (splice (nat y * nat stride + nat x) [color] p))"

definition blyt_raster_rect_fill ::
    "bytes option \<Rightarrow> int \<Rightarrow> int \<Rightarrow> int \<Rightarrow> int \<Rightarrow> int \<Rightarrow> int \<Rightarrow> int \<Rightarrow> u8 \<Rightarrow> bytes option" where
  "blyt_raster_rect_fill fb stride width height x y w h color =
     (case fb of None \<Rightarrow> None
      | Some p \<Rightarrow>
          if stride \<le> 0 \<or> w \<le> 0 \<or> h \<le> 0 then fb
          else
            let x0 = (if x < 0 then 0 else x); y0 = (if y < 0 then 0 else y);
                x1 = (if x + w > width then width else x + w); y1 = (if y + h > height then height else y + h)
            in if x1 \<le> x0 \<or> y1 \<le> y0 then fb
               else Some (fold (\<lambda>row p. splice (nat row * nat stride + nat x0) (replicate (nat (x1 - x0)) color) p)
                            [y0..y1 - 1] p))"

text \<open>
  \<open>same\<close>: the source and the destination are the same buffer, so the rows already copied are what later
  rows read.
\<close>

definition blyt_raster_blit ::
    "bytes option \<Rightarrow> int \<Rightarrow> int \<Rightarrow> int \<Rightarrow> bool \<Rightarrow> bytes option \<Rightarrow> int \<Rightarrow> int \<Rightarrow> int \<Rightarrow> int \<Rightarrow> int \<Rightarrow> bytes option" where
  "blyt_raster_blit dst dstride dwidth dheight same src sstride swidth sheight x y =
     (case (dst, src) of
        (Some d, Some s) \<Rightarrow>
          if dstride \<le> 0 \<or> sstride \<le> 0 \<or> swidth \<le> 0 \<or> sheight \<le> 0 then dst
          else
            let sox = (if x < 0 then - x else 0); dx0 = (if x < 0 then 0 else x);
                soy = (if y < 0 then - y else 0); dy0 = (if y < 0 then 0 else y);
                dx1 = (if x + swidth > dwidth then dwidth else x + swidth);
                dy1 = (if y + sheight > dheight then dheight else y + sheight)
            in if dx1 \<le> dx0 \<or> dy1 \<le> dy0 then dst
               else
                 let run = nat (dx1 - dx0)
                 in Some (fold (\<lambda>row d. splice (nat row * nat dstride + nat dx0)
                            (slice (nat (soy + (row - dy0)) * nat sstride + nat sox) run (if same then d else s)) d)
                          [dy0..dy1 - 1] d)
      | _ \<Rightarrow> dst)"

text \<open>The loop of the line; words are the C \<^verbatim>\<open>int\<close> variables.  It may run forever: \<open>None\<close>.\<close>

partial_function (option) line_loop ::
    "int \<Rightarrow> int \<Rightarrow> int \<Rightarrow> u8 \<Rightarrow> u32 \<Rightarrow> u32 \<Rightarrow> u32 \<Rightarrow> u32 \<Rightarrow> u32 \<Rightarrow> u32 \<Rightarrow> u32 \<Rightarrow> u32 \<Rightarrow> u32 \<Rightarrow> bytes option
     \<Rightarrow> bytes option option" where
  "line_loop stride width height color dx dy sx sy x1 y1 x0 y0 err fb =
     (let fb' = blyt_raster_pixel fb stride width height (sint x0) (sint y0) color
      in if x0 = x1 \<and> y0 = y1 then Some fb'
         else
           let e2 = 2 * err;
               cx = sint e2 > sint (- dy); cy = sint e2 < sint dx;
               err1 = (if cx then err - dy else err); x = (if cx then x0 + sx else x0);
               err2 = (if cy then err1 + dx else err1); y = (if cy then y0 + sy else y0)
           in line_loop stride width height color dx dy sx sy x1 y1 x y err2 fb')"
declare line_loop.simps [code]

definition blyt_raster_line ::
    "bytes option \<Rightarrow> int \<Rightarrow> int \<Rightarrow> int \<Rightarrow> u32 \<Rightarrow> u32 \<Rightarrow> u32 \<Rightarrow> u32 \<Rightarrow> u8 \<Rightarrow> bytes option option" where
  "blyt_raster_line fb stride width height x0 y0 x1 y1 color =
     (if fb = None \<or> stride \<le> 0 then Some fb
      else
        let dx = (if sint x1 > sint x0 then x1 - x0 else x0 - x1);
            dy = (if sint y1 > sint y0 then y1 - y0 else y0 - y1);
            sx = (if sint x0 < sint x1 then 1 else - 1);
            sy = (if sint y0 < sint y1 then 1 else - 1)
        in line_loop stride width height color dx dy sx sy x1 y1 x0 y0 (dx - dy) fb)"

section \<open>Frame hash\<close>

definition blyt_frame_hash :: "bytes option \<Rightarrow> u64" where
  "blyt_frame_hash pixels =
     (case pixels of None \<Rightarrow> 0xcbf29ce484222325
      | Some ps \<Rightarrow> fold (\<lambda>b h. (h XOR ucast b) * 0x100000001b3) ps 0xcbf29ce484222325)"

section \<open>Row writes\<close>

definition pixel_at :: "bytes \<Rightarrow> nat \<Rightarrow> int \<Rightarrow> int \<Rightarrow> u8" where
  "pixel_at p stride x y = p ! (nat y * stride + nat x)"

definition inside :: "bytes \<Rightarrow> int \<Rightarrow> int \<Rightarrow> int \<Rightarrow> bool" where
  "inside p stride width height \<longleftrightarrow> 0 < width \<and> 0 < height \<and> width \<le> stride \<and> nat stride * nat height \<le> length p"

lemma row_index_eq:
  fixes s a b x y :: nat
  assumes "x < s" "y < s"
  shows "a * s + x = b * s + y \<longleftrightarrow> a = b \<and> x = y"
  using assms by (metis add.commute div_mult_self3 div_less mod_mult_self2 mod_less add_0 mult.commute less_nat_zero_code neq0_conv)

lemma row_in:
  fixes s h a x :: nat
  assumes "a < h" "x + n \<le> s"
  shows "a * s + x + n \<le> s * h"
proof -
  have "a * s + x + n \<le> (a + 1) * s" using assms(2) by simp
  also have "\<dots> \<le> h * s" using assms(1) by (intro mult_le_mono1) simp
  finally show ?thesis by (simp add: mult.commute)
qed

text \<open>Writing one run of \<open>n\<close> pixels in each row of a range of rows.\<close>

lemma rows_write:
  assumes "\<And>row q. length (f row q) = n" "x0 + n \<le> s" "s * nat h \<le> length p" "set rows \<subseteq> {0..<h}" "distinct rows"
    and frame: "\<And>row q q'. row \<in> set rows \<Longrightarrow> f row q = g row"
  defines "r \<equiv> fold (\<lambda>row p. splice (nat row * s + x0) (f row p) p) rows p"
  shows "length r = length p \<and> (\<forall>x y. x < s \<longrightarrow> 0 \<le> y \<longrightarrow> y < h \<longrightarrow>
     r ! (nat y * s + x) = (if y \<in> set rows \<and> x0 \<le> x \<and> x < x0 + n then g y ! (x - x0) else p ! (nat y * s + x)))"
  unfolding r_def using assms(3-5) frame
proof (induction rows arbitrary: p)
  case (Cons a rows)
  let ?p1 = "splice (nat a * s + x0) (f a p) p"
  have a: "0 \<le> a" "a < h" "a \<notin> set rows" using Cons.prems by auto
  have fits: "nat a * s + x0 + n \<le> length p"
    using row_in [of "nat a" "nat h" x0 n s] a assms(2) Cons.prems(1) by simp
  have len: "length ?p1 = length p" using fits assms(1) by simp
  have IH: "length (fold (\<lambda>row p. splice (nat row * s + x0) (f row p) p) rows ?p1) = length ?p1 \<and>
    (\<forall>x y. x < s \<longrightarrow> 0 \<le> y \<longrightarrow> y < h \<longrightarrow> fold (\<lambda>row p. splice (nat row * s + x0) (f row p) p) rows ?p1 ! (nat y * s + x) =
      (if y \<in> set rows \<and> x0 \<le> x \<and> x < x0 + n then g y ! (x - x0) else ?p1 ! (nat y * s + x)))"
    using Cons.prems len by (intro Cons.IH) auto
  have one: "?p1 ! (nat y * s + x) = (if y = a \<and> x0 \<le> x \<and> x < x0 + n then g a ! (x - x0) else p ! (nat y * s + x))"
    if "x < s" "0 \<le> y" "y < h" for x y
  proof -
    have i: "nat y * s + x < length p" using row_in [of "nat y" "nat h" x 1 s] that Cons.prems(1) by simp
    have iff: "nat a * s + x0 \<le> nat y * s + x \<and> nat y * s + x < nat a * s + x0 + n \<longleftrightarrow> y = a \<and> x0 \<le> x \<and> x < x0 + n"
    proof
      assume b: "nat a * s + x0 \<le> nat y * s + x \<and> nat y * s + x < nat a * s + x0 + n"
      then obtain k where "k < n" "nat y * s + x = nat a * s + (x0 + k)"
        by (metis add.assoc le_add_diff_inverse nat_add_left_cancel_less)
      moreover have "x0 + k < s" using \<open>k < n\<close> assms(2) by simp
      ultimately have "nat y = nat a" "x = x0 + k" using row_index_eq [OF that(1), of "x0 + k" "nat y" "nat a"] by auto
      then show "y = a \<and> x0 \<le> x \<and> x < x0 + n" using that a \<open>k < n\<close> by auto
    qed auto
    have "f a p = g a" using Cons.prems(4) by simp
    have "?p1 ! (nat y * s + x) = (if nat a * s + x0 \<le> nat y * s + x \<and> nat y * s + x < nat a * s + x0 + n
        then f a p ! (nat y * s + x - (nat a * s + x0)) else p ! (nat y * s + x))"
      using nth_splice [of "nat a * s + x0" "f a p" p "nat y * s + x"] fits i assms(1) by simp
    then show ?thesis unfolding iff \<open>f a p = g a\<close> by auto
  qed
  show ?case using IH len one a(3) by auto
qed simp

text \<open>The same over integer windows.\<close>

lemma window_write:
  assumes x: "0 \<le> x0" "x0 < x1" "x1 \<le> stride" and y: "0 \<le> y0" "y1 \<le> height" and p: "nat stride * nat height \<le> length p"
    and f: "\<And>row q. length (f row q) = nat (x1 - x0)" "\<And>row q. y0 \<le> row \<Longrightarrow> row < y1 \<Longrightarrow> f row q = g row"
  defines "r \<equiv> fold (\<lambda>row p. splice (nat row * nat stride + nat x0) (f row p) p) [y0..y1 - 1] p"
  shows "length r = length p"
    and "0 \<le> px \<Longrightarrow> px < stride \<Longrightarrow> 0 \<le> py \<Longrightarrow> py < height \<Longrightarrow> pixel_at r (nat stride) px py =
      (if x0 \<le> px \<and> px < x1 \<and> y0 \<le> py \<and> py < y1 then g py ! nat (px - x0) else pixel_at p (nat stride) px py)"
proof -
  have rows: "set [y0..y1 - 1] \<subseteq> {0..<height}" using y by auto
  have n: "nat x0 + nat (x1 - x0) \<le> nat stride" using x by simp
  have w: "length r = length p \<and> (\<forall>x y. x < nat stride \<longrightarrow> 0 \<le> y \<longrightarrow> y < height \<longrightarrow>
     r ! (nat y * nat stride + x) = (if y \<in> set [y0..y1 - 1] \<and> nat x0 \<le> x \<and> x < nat x0 + nat (x1 - x0)
       then g y ! (x - nat x0) else p ! (nat y * nat stride + x)))"
    unfolding r_def by (rule rows_write [OF f(1) n p rows]) (auto intro: f(2))
  then show "length r = length p" by simp
  assume px: "0 \<le> px" "px < stride" "0 \<le> py" "py < height"
  then have "r ! (nat py * nat stride + nat px) = (if py \<in> set [y0..y1 - 1] \<and> nat x0 \<le> nat px \<and> nat px < nat x0 + nat (x1 - x0)
       then g py ! (nat px - nat x0) else p ! (nat py * nat stride + nat px))"
    using w by simp
  moreover have "nat x0 \<le> nat px \<longleftrightarrow> x0 \<le> px" "nat px < nat x0 + nat (x1 - x0) \<longleftrightarrow> px < x1"
    using px x by auto
  moreover have "nat px - nat x0 = nat (px - x0)" if "x0 \<le> px" using that x px by (simp add: nat_diff_distrib)
  ultimately show "pixel_at r (nat stride) px py =
      (if x0 \<le> px \<and> px < x1 \<and> y0 \<le> py \<and> py < y1 then g py ! nat (px - x0) else pixel_at p (nat stride) px py)"
    by (auto simp: pixel_at_def)
qed

lemma pixel_effect:
  assumes "inside p stride width height" "0 \<le> px" "px < stride" "0 \<le> py" "py < height"
  shows "\<exists>q. blyt_raster_pixel (Some p) stride width height x y color = Some q \<and> length q = length p \<and>
    pixel_at q (nat stride) px py = (if px = x \<and> py = y \<and> px < width then color else pixel_at p (nat stride) px py)"
proof (cases "x < 0 \<or> x \<ge> width \<or> y < 0 \<or> y \<ge> height")
  case True
  then show ?thesis using assms by (auto simp: blyt_raster_pixel_def)
next
  case False
  have r: "0 \<le> x" "x < x + 1" "x + 1 \<le> stride" "0 \<le> y" "y + 1 \<le> height" "nat stride * nat height \<le> length p"
    using False assms by (auto simp: inside_def)
  have e: "fold (\<lambda>row p. splice (nat row * nat stride + nat x) [color] p) [y..y + 1 - 1] p = splice (nat y * nat stride + nat x) [color] p"
    by (simp add: upto.simps)
  have "blyt_raster_pixel (Some p) stride width height x y color = Some (splice (nat y * nat stride + nat x) [color] p)"
    using False assms by (auto simp: blyt_raster_pixel_def inside_def)
  moreover have "length (splice (nat y * nat stride + nat x) [color] p) = length p"
    using window_write(1) [OF r, of "\<lambda>_ _. [color]" "\<lambda>_. [color]"] unfolding e by simp
  moreover have "pixel_at (splice (nat y * nat stride + nat x) [color] p) (nat stride) px py =
      (if x \<le> px \<and> px < x + 1 \<and> y \<le> py \<and> py < y + 1 then [color] ! nat (px - x) else pixel_at p (nat stride) px py)"
    using window_write(2) [OF r, of "\<lambda>_ _. [color]" "\<lambda>_. [color]" px py] assms unfolding e by simp
  moreover have "x \<le> px \<and> px < x + 1 \<and> y \<le> py \<and> py < y + 1 \<longleftrightarrow> px = x \<and> py = y \<and> px < width" using False by auto
  ultimately show ?thesis by auto
qed

text \<open>
  C26. Filling a rectangle changes exactly the pixels of the rectangle that lie on the surface, whatever the (possibly
  negative or off-screen) coordinates, and writes nowhere outside of the buffer.
\<close>
theorem rect_fill_exact:
  assumes fb: "inside p stride width height" and xy: "0 \<le> px" "px < stride" "0 \<le> py" "py < height"
  shows "\<exists>q. blyt_raster_rect_fill (Some p) stride width height x y w h color = Some q \<and> length q = length p \<and>
    pixel_at q (nat stride) px py =
      (if x \<le> px \<and> px < x + w \<and> px < width \<and> y \<le> py \<and> py < y + h then color else pixel_at p (nat stride) px py)"
proof -
  define x0 where "x0 = (if x < 0 then 0 else x)"
  define y0 where "y0 = (if y < 0 then 0 else y)"
  define x1 where "x1 = (if x + w > width then width else x + w)"
  define y1 where "y1 = (if y + h > height then height else y + h)"
  have in_iff: "x \<le> px \<and> px < x + w \<and> px < width \<and> y \<le> py \<and> py < y + h \<longleftrightarrow> x0 \<le> px \<and> px < x1 \<and> y0 \<le> py \<and> py < y1"
    using xy by (auto simp: x0_def x1_def y0_def y1_def)
  show ?thesis
  proof (cases "w \<le> 0 \<or> h \<le> 0 \<or> x1 \<le> x0 \<or> y1 \<le> y0")
    case True
    then have "blyt_raster_rect_fill (Some p) stride width height x y w h color = Some p"
      by (auto simp: blyt_raster_rect_fill_def Let_def x0_def x1_def y0_def y1_def)
    then show ?thesis using True in_iff by auto
  next
    case False
    let ?n = "nat (x1 - x0)"
    let ?q = "fold (\<lambda>row p. splice (nat row * nat stride + nat x0) (replicate ?n color) p) [y0..y1 - 1] p"
    have q: "blyt_raster_rect_fill (Some p) stride width height x y w h color = Some ?q"
      using False fb by (auto simp: blyt_raster_rect_fill_def Let_def x0_def x1_def y0_def y1_def inside_def)
    have r: "0 \<le> x0" "x0 < x1" "x1 \<le> stride" "0 \<le> y0" "y1 \<le> height" "nat stride * nat height \<le> length p"
      using False fb by (auto simp: x0_def y0_def x1_def y1_def inside_def)
    have "length ?q = length p" using window_write(1) [OF r, of "\<lambda>_ _. replicate ?n color" "\<lambda>_. replicate ?n color"] by simp
    moreover have "pixel_at ?q (nat stride) px py = (if x0 \<le> px \<and> px < x1 \<and> y0 \<le> py \<and> py < y1
        then replicate ?n color ! nat (px - x0) else pixel_at p (nat stride) px py)"
      using window_write(2) [OF r, of "\<lambda>_ _. replicate ?n color" "\<lambda>_. replicate ?n color" px py] xy by simp
    ultimately show ?thesis using q in_iff by auto
  qed
qed

text \<open>
  Clearing sets every pixel of the \<^verbatim>\<open>width x height\<close> rectangle and nothing else.
\<close>
lemma clear_exact:
  assumes fb: "inside p stride width height" and xy: "0 \<le> px" "px < stride" "0 \<le> py" "py < height"
  shows "\<exists>q. blyt_raster_clear (Some p) stride width height color = Some q \<and> length q = length p \<and>
    pixel_at q (nat stride) px py = (if px < width then color else pixel_at p (nat stride) px py)"
proof -
  let ?q = "fold (\<lambda>y p. splice (nat y * nat stride + nat 0) (replicate (nat (width - 0)) color) p) [0..height - 1] p"
  have q: "blyt_raster_clear (Some p) stride width height color = Some ?q"
    using fb by (auto simp: blyt_raster_clear_def inside_def)
  have r: "0 \<le> (0 :: int)" "0 < width" "width \<le> stride" "0 \<le> (0 :: int)" "height \<le> height" "nat stride * nat height \<le> length p"
    using fb by (auto simp: inside_def)
  show ?thesis unfolding q
    using window_write(1) [OF r, of "\<lambda>_ _. replicate (nat (width - 0)) color" "\<lambda>_. replicate (nat (width - 0)) color"]
      window_write(2) [OF r, of "\<lambda>_ _. replicate (nat (width - 0)) color" "\<lambda>_. replicate (nat (width - 0)) color" px py] xy
    by auto
qed


section \<open>Lines\<close>

lemma sint_of_int32: "- 2147483648 \<le> v \<Longrightarrow> v < 2147483648 \<Longrightarrow> sint (word_of_int v :: u32) = v"
  by (simp add: signed_of_int signed_take_bit_int_eq_self)

lemma line_step:
  assumes "- 2147483648 \<le> x" "x < 2147483648" "- 2147483648 \<le> y" "y < 2147483648"
    "- 2147483648 \<le> X1" "X1 < 2147483648" "- 2147483648 \<le> Y1" "Y1 < 2147483648"
    "0 \<le> dx" "dx < 2147483648" "0 \<le> dy" "dy < 2147483648" "- 2147483648 \<le> 2 * e" "2 * e < 2147483648"
  shows "line_loop stride width height c (word_of_int dx) (word_of_int dy) (word_of_int sx) (word_of_int sy)
      (word_of_int X1) (word_of_int Y1) (word_of_int x) (word_of_int y) (word_of_int e) fb =
    (let fb' = blyt_raster_pixel fb stride width height x y c; cx = 2 * e > - dy; cy = 2 * e < dx
     in if x = X1 \<and> y = Y1 then Some fb'
        else line_loop stride width height c (word_of_int dx) (word_of_int dy) (word_of_int sx) (word_of_int sy)
          (word_of_int X1) (word_of_int Y1) (word_of_int (if cx then x + sx else x)) (word_of_int (if cy then y + sy else y))
          (word_of_int (e - (if cx then dy else 0) + (if cy then dx else 0))) fb')"
proof -
  have eq: "(word_of_int x :: u32) = word_of_int X1 \<longleftrightarrow> x = X1" "(word_of_int y :: u32) = word_of_int Y1 \<longleftrightarrow> y = Y1"
    using assms by (metis sint_of_int32)+
  have e2: "sint (2 * word_of_int e :: u32) = 2 * e"
    using sint_of_int32 [of "2 * e"] assms by (simp add: wi_hom_mult [symmetric])
  have d: "sint (- (word_of_int dy :: u32)) = - dy" "sint (word_of_int dx :: u32) = dx"
    using sint_of_int32 [of "- dy"] sint_of_int32 [of dx] assms by (simp_all add: wi_hom_neg [symmetric])
  have s: "sint (word_of_int x :: u32) = x" "sint (word_of_int y :: u32) = y" using assms by (simp_all add: sint_of_int32)
  show ?thesis
    by (subst line_loop.simps)
      (simp add: Let_def eq e2 d s wi_hom_add [symmetric] wi_hom_sub [symmetric] if_distrib [of word_of_int])
qed

text \<open>One step of the walk in terms of the numbers \<open>i\<close> and \<open>j\<close> of steps made along each axis.\<close>

definition near :: "int \<Rightarrow> int \<Rightarrow> int \<Rightarrow> int \<Rightarrow> bool" where
  "near dx dy i j \<longleftrightarrow> 0 \<le> i \<and> i \<le> dx \<and> 0 \<le> j \<and> j \<le> dy \<and> 2 * \<bar>j * dx - i * dy\<bar> \<le> max dx dy"

lemma near_step:
  assumes n: "near dx dy i j" and go: "\<not> (i = dx \<and> j = dy)" and e: "e = (j + 1) * dx - (i + 1) * dy"
  defines "i' \<equiv> if 2 * e > - dy then i + 1 else i" and "j' \<equiv> if 2 * e < dx then j + 1 else j"
  shows "near dx dy i' j'" "i' + j' > i + j"
    and "e - (if 2 * e > - dy then dy else 0) + (if 2 * e < dx then dx else 0) = (j' + 1) * dx - (i' + 1) * dy"
    and "\<bar>e\<bar> \<le> 2 * max dx dy"
proof -
  define D where "D = j * dx - i * dy"
  have d: "0 \<le> dx" "0 \<le> dy" "0 \<le> i" "i \<le> dx" "0 \<le> j" "j \<le> dy" "2 * \<bar>D\<bar> \<le> max dx dy" using n by (auto simp: near_def D_def)
  have eD: "e = D + dx - dy" by (simp add: e D_def algebra_simps)
  have cx: "2 * e > - dy \<longleftrightarrow> 2 * D + 2 * dx - dy > 0" and cy: "2 * e < dx \<longleftrightarrow> 2 * D + dx - 2 * dy < 0" by (auto simp: eD)
  have nx: "\<not> 2 * e > - dy" if "i = dx"
  proof -
    have "j + 1 \<le> dy" using go that d by auto
    then have "(j + 1) * dx \<le> dy * dx" using d by (intro mult_right_mono) auto
    then have "D \<le> - dx" by (simp add: D_def that algebra_simps)
    then show ?thesis using d cx by linarith
  qed
  have ny: "\<not> 2 * e < dx" if "j = dy"
  proof -
    have "i + 1 \<le> dx" using go that d by auto
    then have "(i + 1) * dy \<le> dx * dy" using d by (intro mult_right_mono) auto
    then have "D \<ge> dy" by (simp add: D_def that algebra_simps)
    then show ?thesis using d cy by linarith
  qed
  have some: "2 * e > - dy \<or> 2 * e < dx"
  proof (rule ccontr)
    assume "\<not> ?thesis"
    then have "dx = 0" "dy = 0" using d cx cy by linarith+
    then show False using go d by auto
  qed
  have "j' * dx - i' * dy = D + (if 2 * e < dx then dx else 0) - (if 2 * e > - dy then dy else 0)"
    by (simp add: i'_def j'_def D_def algebra_simps)
  moreover have "2 * \<bar>D + (if 2 * e < dx then dx else 0) - (if 2 * e > - dy then dy else 0)\<bar> \<le> max dx dy"
    using d some cx cy by (cases "dx \<le> dy") (auto simp: max_def abs_if split: if_splits)
  moreover have "0 \<le> i'" "i' \<le> dx" using d nx by (cases "i = dx"; auto simp: i'_def)+
  moreover have "0 \<le> j'" "j' \<le> dy" using d ny by (cases "j = dy"; auto simp: j'_def)+
  ultimately show "near dx dy i' j'" by (simp add: near_def)
  show "i' + j' > i + j" using some by (auto simp: i'_def j'_def)
  show "e - (if 2 * e > - dy then dy else 0) + (if 2 * e < dx then dx else 0) = (j' + 1) * dx - (i' + 1) * dy"
    by (auto simp: e i'_def j'_def algebra_simps)
  show "\<bar>e\<bar> \<le> 2 * max dx dy" using d by (auto simp: eD max_def abs_if split: if_splits)
qed

lemma near_end_error: "near dx dy dx dy \<Longrightarrow> \<bar>(dy + 1) * dx - (dx + 1) * dy\<bar> \<le> 2 * max dx dy"
  by (auto simp: near_def max_def abs_if algebra_simps)

definition adjacent :: "int \<times> int \<Rightarrow> int \<times> int \<Rightarrow> bool" where
  "adjacent p q \<longleftrightarrow> p \<noteq> q \<and> \<bar>fst q - fst p\<bar> \<le> 1 \<and> \<bar>snd q - snd p\<bar> \<le> 1"

text \<open>The walk from \<open>(i, j)\<close> to the end.\<close>

lemma line_walk:
  fixes X0 Y0 sx sy :: int
  assumes s: "sx \<in> {1, - 1}" "sy \<in> {1, - 1}" and d: "dx \<le> 268435456" "dy \<le> 268435456"
    and X: "- 2147483648 \<le> X0" "X0 < 2147483648" "- 2147483648 \<le> X0 + sx * dx" "X0 + sx * dx < 2147483648"
    and Y: "- 2147483648 \<le> Y0" "Y0 < 2147483648" "- 2147483648 \<le> Y0 + sy * dy" "Y0 + sy * dy < 2147483648"
    and n: "near dx dy i j"
  shows "\<exists>ps. line_loop stride width height c (word_of_int dx) (word_of_int dy) (word_of_int sx) (word_of_int sy)
      (word_of_int (X0 + sx * dx)) (word_of_int (Y0 + sy * dy)) (word_of_int (X0 + sx * i)) (word_of_int (Y0 + sy * j))
      (word_of_int ((j + 1) * dx - (i + 1) * dy)) fb =
        Some (fold (\<lambda>(x, y) fb. blyt_raster_pixel fb stride width height x y c) (map (\<lambda>(i, j). (X0 + sx * i, Y0 + sy * j)) ps) fb) \<and>
    ps \<noteq> [] \<and> hd ps = (i, j) \<and> last ps = (dx, dy) \<and> successively adjacent ps \<and> (\<forall>(i, j) \<in> set ps. near dx dy i j)"
  using n
proof (induction "nat (dx - i + (dy - j))" arbitrary: i j fb rule: less_induct)
  case less
  note n = less.prems
  have ij: "0 \<le> i" "i \<le> dx" "0 \<le> j" "j \<le> dy" using n by (auto simp: near_def)
  let ?e = "(j + 1) * dx - (i + 1) * dy"
  have e: "\<bar>?e\<bar> \<le> 2 * max dx dy"
    using near_step(4) [OF n _ refl] near_end_error n by (cases "i = dx \<and> j = dy") auto
  have x: "- 2147483648 \<le> X0 + sx * i" "X0 + sx * i < 2147483648" "- 2147483648 \<le> Y0 + sy * j" "Y0 + sy * j < 2147483648"
    using s X Y ij by auto
  have step: "line_loop stride width height c (word_of_int dx) (word_of_int dy) (word_of_int sx) (word_of_int sy)
      (word_of_int (X0 + sx * dx)) (word_of_int (Y0 + sy * dy)) (word_of_int (X0 + sx * i)) (word_of_int (Y0 + sy * j))
      (word_of_int ?e) fb =
    (let fb' = blyt_raster_pixel fb stride width height (X0 + sx * i) (Y0 + sy * j) c; cx = 2 * ?e > - dy; cy = 2 * ?e < dx
     in if X0 + sx * i = X0 + sx * dx \<and> Y0 + sy * j = Y0 + sy * dy then Some fb'
        else line_loop stride width height c (word_of_int dx) (word_of_int dy) (word_of_int sx) (word_of_int sy)
          (word_of_int (X0 + sx * dx)) (word_of_int (Y0 + sy * dy)) (word_of_int (if cx then X0 + sx * i + sx else X0 + sx * i))
          (word_of_int (if cy then Y0 + sy * j + sy else Y0 + sy * j))
          (word_of_int (?e - (if cx then dy else 0) + (if cy then dx else 0))) fb')"
    by (rule line_step) (use x X Y d ij e in \<open>auto simp: max_def abs_le_iff split: if_splits\<close>)
  have fin: "X0 + sx * i = X0 + sx * dx \<and> Y0 + sy * j = Y0 + sy * dy \<longleftrightarrow> i = dx \<and> j = dy" using s by auto
  show ?case
  proof (cases "i = dx \<and> j = dy")
    case True
    then show ?thesis unfolding step fin using n by (intro exI [of _ "[(dx, dy)]"]) (simp add: Let_def)
  next
    case False
    define i' where "i' = (if 2 * ?e > - dy then i + 1 else i)"
    define j' where "j' = (if 2 * ?e < dx then j + 1 else j)"
    note ns = near_step [OF n False refl, folded i'_def j'_def]
    have ij': "i' \<le> dx" "j' \<le> dy" using ns(1) by (auto simp: near_def)
    have ce: "(if 2 * ?e > - dy then X0 + sx * i + sx else X0 + sx * i) = X0 + sx * i'"
      "(if 2 * ?e < dx then Y0 + sy * j + sy else Y0 + sy * j) = Y0 + sy * j'"
      by (simp_all add: i'_def j'_def algebra_simps)
    let ?fb = "blyt_raster_pixel fb stride width height (X0 + sx * i) (Y0 + sy * j) c"
    obtain ps where ps: "line_loop stride width height c (word_of_int dx) (word_of_int dy) (word_of_int sx) (word_of_int sy)
      (word_of_int (X0 + sx * dx)) (word_of_int (Y0 + sy * dy)) (word_of_int (X0 + sx * i')) (word_of_int (Y0 + sy * j'))
      (word_of_int ((j' + 1) * dx - (i' + 1) * dy)) ?fb =
        Some (fold (\<lambda>(x, y) fb. blyt_raster_pixel fb stride width height x y c) (map (\<lambda>(i, j). (X0 + sx * i, Y0 + sy * j)) ps) ?fb)"
      "ps \<noteq> []" "hd ps = (i', j')" "last ps = (dx, dy)" "successively adjacent ps" "\<forall>(i, j) \<in> set ps. near dx dy i j"
      using less.hyps [OF _ ns(1), of ?fb] ns(2) ij ij' by auto
    have "adjacent (i, j) (i', j')" using ns(2) by (auto simp: adjacent_def i'_def j'_def)
    then have "successively adjacent ((i, j) # ps)" using ps(2,3,5) by (cases ps) auto
    then show ?thesis unfolding step fin ns(3) Let_def ce using False ps n
      by (intro exI [of _ "(i, j) # ps"]) auto
  qed
qed

text \<open>The walk of a call, in steps from the first end point.\<close>

lemma line_start:
  fixes x0 y0 x1 y1 :: u32
  assumes stride: "0 < stride"
    and d: "\<bar>sint x1 - sint x0\<bar> \<le> 268435456" "\<bar>sint y1 - sint y0\<bar> \<le> 268435456"
  defines "dx \<equiv> \<bar>sint x1 - sint x0\<bar>" and "dy \<equiv> \<bar>sint y1 - sint y0\<bar>"
    and "sx \<equiv> if sint x0 < sint x1 then 1 else - 1" and "sy \<equiv> if sint y0 < sint y1 then 1 else - 1"
  shows "\<exists>ps. blyt_raster_line (Some p) stride width height x0 y0 x1 y1 color =
        Some (fold (\<lambda>(x, y) fb. blyt_raster_pixel fb stride width height x y color)
          (map (\<lambda>(i, j). (sint x0 + sx * i, sint y0 + sy * j)) ps) (Some p)) \<and>
    ps \<noteq> [] \<and> hd ps = (0, 0) \<and> last ps = (dx, dy) \<and> successively adjacent ps \<and> (\<forall>(i, j) \<in> set ps. near dx dy i j)"
proof -
  define X0 where "X0 = sint x0"
  define Y0 where "Y0 = sint y0"
  have X1: "sint x1 = X0 + sx * dx" and Y1: "sint y1 = Y0 + sy * dy" by (auto simp: X0_def Y0_def dx_def dy_def sx_def sy_def)
  have rng: "- 2147483648 \<le> sint (v :: u32) \<and> sint v < 2147483648" for v
    using sint_ge [of v] sint_lt [of v] by simp
  have w: "x0 = word_of_int X0" "y0 = word_of_int Y0" "x1 = word_of_int (X0 + sx * dx)" "y1 = word_of_int (Y0 + sy * dy)"
    unfolding X1 [symmetric] Y1 [symmetric] by (simp_all add: X0_def Y0_def)
  have dw: "(if sint x1 > sint x0 then x1 - x0 else x0 - x1) = word_of_int dx"
    "(if sint y1 > sint y0 then y1 - y0 else y0 - y1) = word_of_int dy"
    by (auto simp: dx_def dy_def wi_hom_sub [symmetric])
  have sw: "(if sint x0 < sint x1 then 1 else - 1) = (word_of_int sx :: u32)" "(if sint y0 < sint y1 then 1 else - 1) = (word_of_int sy :: u32)"
    by (simp_all add: sx_def sy_def)
  have e: "word_of_int dx - word_of_int dy = (word_of_int ((0 + 1) * dx - (0 + 1) * dy) :: u32)" by simp
  have start: "near dx dy 0 0" by (simp add: near_def dx_def dy_def)
  have call: "blyt_raster_line (Some p) stride width height x0 y0 x1 y1 color =
    line_loop stride width height color (word_of_int dx) (word_of_int dy) (word_of_int sx) (word_of_int sy)
      (word_of_int (X0 + sx * dx)) (word_of_int (Y0 + sy * dy)) (word_of_int (X0 + sx * 0)) (word_of_int (Y0 + sy * 0))
      (word_of_int ((0 + 1) * dx - (0 + 1) * dy)) (Some p)"
    unfolding blyt_raster_line_def dw sw Let_def e using stride w by simp
  have h: "sx \<in> {1, - 1}" "sy \<in> {1, - 1}" "dx \<le> 268435456" "dy \<le> 268435456"
    "- 2147483648 \<le> X0" "X0 < 2147483648" "- 2147483648 \<le> X0 + sx * dx" "X0 + sx * dx < 2147483648"
    "- 2147483648 \<le> Y0" "Y0 < 2147483648" "- 2147483648 \<le> Y0 + sy * dy" "Y0 + sy * dy < 2147483648"
    unfolding X1 [symmetric] Y1 [symmetric] using d rng by (simp_all add: sx_def sy_def dx_def dy_def X0_def Y0_def)
  show ?thesis unfolding call X0_def [symmetric] Y0_def [symmetric]
    by (rule line_walk [OF h start, of stride width height color "Some p"])
qed

text \<open>
  C27. Lines: between end points at most 2^28 apart on each axis (far beyond any surface), the walk terminates and
  paints exactly a chain of neighbouring pixels from the first end point to the second, each within half a pixel of
  the ideal line along the shorter axis; pixels outside of the surface are clipped one by one.
\<close>
theorem line_exact:
  assumes stride: "0 < stride"
    and d: "\<bar>sint x1 - sint x0\<bar> \<le> 268435456" "\<bar>sint y1 - sint y0\<bar> \<le> 268435456"
  shows "\<exists>ps. blyt_raster_line (Some p) stride width height x0 y0 x1 y1 color =
      Some (fold (\<lambda>(x, y) fb. blyt_raster_pixel fb stride width height x y color) ps (Some p)) \<and>
    ps \<noteq> [] \<and> hd ps = (sint x0, sint y0) \<and> last ps = (sint x1, sint y1) \<and> successively adjacent ps \<and>
    (\<forall>(x, y) \<in> set ps. 2 * \<bar>(y - sint y0) * (sint x1 - sint x0) - (x - sint x0) * (sint y1 - sint y0)\<bar>
      \<le> max \<bar>sint x1 - sint x0\<bar> \<bar>sint y1 - sint y0\<bar>)"
proof -
  define X0 where "X0 = sint x0"
  define Y0 where "Y0 = sint y0"
  define dx where "dx = \<bar>sint x1 - sint x0\<bar>"
  define dy where "dy = \<bar>sint y1 - sint y0\<bar>"
  define sx :: int where "sx = (if sint x0 < sint x1 then 1 else - 1)"
  define sy :: int where "sy = (if sint y0 < sint y1 then 1 else - 1)"
  have X1: "sint x1 = X0 + sx * dx" and Y1: "sint y1 = Y0 + sy * dy" by (auto simp: X0_def Y0_def dx_def dy_def sx_def sy_def)
  obtain ps where ps: "blyt_raster_line (Some p) stride width height x0 y0 x1 y1 color =
        Some (fold (\<lambda>(x, y) fb. blyt_raster_pixel fb stride width height x y color) (map (\<lambda>(i, j). (X0 + sx * i, Y0 + sy * j)) ps) (Some p))"
    "ps \<noteq> []" "hd ps = (0, 0)" "last ps = (dx, dy)" "successively adjacent ps" "\<forall>(i, j) \<in> set ps. near dx dy i j"
    unfolding X0_def Y0_def dx_def dy_def sx_def sy_def using line_start [OF stride d] by blast
  let ?m = "\<lambda>(i, j). (X0 + sx * i, Y0 + sy * j)"
  have "adjacent (?m a) (?m b)" if "adjacent a b" for a b
    using that by (cases a; cases b) (auto simp: adjacent_def sx_def sy_def)
  then have "successively adjacent (map ?m ps)" using ps(5) by (auto simp: successively_map elim: successively_mono)
  moreover have "2 * \<bar>(y - sint y0) * (sint x1 - sint x0) - (x - sint x0) * (sint y1 - sint y0)\<bar> \<le> max dx dy"
    if xy: "(x, y) \<in> set (map ?m ps)" for x y
  proof -
    obtain i j where ij: "(i, j) \<in> set ps" "x = X0 + sx * i" "y = Y0 + sy * j" using xy by auto
    have "(y - sint y0) * (sint x1 - sint x0) - (x - sint x0) * (sint y1 - sint y0) = sx * sy * (j * dx - i * dy)"
      unfolding X1 Y1 X0_def [symmetric] Y0_def [symmetric] ij by (simp add: algebra_simps)
    moreover have "\<bar>sx * sy * (j * dx - i * dy)\<bar> = \<bar>j * dx - i * dy\<bar>" by (auto simp: sx_def sy_def abs_mult)
    ultimately show ?thesis using ps(6) ij(1) by (auto simp: near_def)
  qed
  moreover have "hd (map ?m ps) = (sint x0, sint y0)" "last (map ?m ps) = (sint x1, sint y1)"
    unfolding X1 Y1 using ps(2-4) by (simp_all add: hd_map last_map X0_def Y0_def)
  ultimately show ?thesis using ps(1,2) unfolding dx_def dy_def by (intro exI [of _ "map ?m ps"]) blast
qed

section \<open>Frame hash\<close>

definition fnv_step :: "u8 \<Rightarrow> u64 \<Rightarrow> u64" where
  "fnv_step b h = (h XOR ucast b) * 0x100000001b3"

text \<open>The FNV prime is odd, so it has an inverse modulo 2^64.\<close>

lemma fnv_mult_inj: "a * 0x100000001b3 = b * (0x100000001b3 :: u64) \<Longrightarrow> a = b"
proof -
  assume "a * 0x100000001b3 = b * (0x100000001b3 :: u64)"
  then have "a * 0x100000001b3 * 0xce965057aff6957b = b * 0x100000001b3 * (0xce965057aff6957b :: u64)" by simp
  moreover have "0x100000001b3 * (0xce965057aff6957b :: u64) = 1" by simp
  ultimately show "a = b" by (simp only: mult.assoc mult_1_right)
qed

lemma xor_cancel: "a XOR c = b XOR c \<Longrightarrow> a = (b :: 'a::len word)"
  by (metis xor.assoc xor.right_neutral xor_self_eq)

lemma fnv_step_inj: "fnv_step b h = fnv_step b h' \<Longrightarrow> h = h'"
  unfolding fnv_step_def by (drule fnv_mult_inj) (rule xor_cancel)

lemma fnv_fold_inj: "fold fnv_step bs h = fold fnv_step bs h' \<Longrightarrow> h = h'"
  by (induction bs arbitrary: h h') (auto dest: fnv_step_inj)

lemma ucast_u8_inj: "(ucast (a :: u8) :: u64) = ucast b \<Longrightarrow> a = b"
proof (rule bit_word_eqI)
  fix n assume e: "(ucast a :: u64) = ucast b" and "n < LENGTH(8)"
  have "bit (ucast a :: u64) n \<longleftrightarrow> bit (ucast b :: u64) n" by (simp only: e)
  with \<open>n < LENGTH(8)\<close> show "bit a n = bit b n" by (simp add: bit_simps)
qed

text \<open>
  C39. The frame hash distinguishes frames that differ in a single pixel.
\<close>
theorem frame_hash_single_pixel:
  assumes "blyt_frame_hash (Some (pre @ a # post)) = blyt_frame_hash (Some (pre @ b # post))"
  shows "a = b"
proof -
  have f: "(\<lambda>b h. (h XOR ucast b) * 0x100000001b3) = fnv_step" by (intro ext) (simp add: fnv_step_def)
  define h where "h = fold fnv_step pre 0xcbf29ce484222325"
  have "fold fnv_step post (fnv_step a h) = fold fnv_step post (fnv_step b h)"
    using assms unfolding blyt_frame_hash_def f by (simp add: h_def)
  then have "fnv_step a h = fnv_step b h" by (rule fnv_fold_inj)
  then have "h XOR ucast a = h XOR ucast b" unfolding fnv_step_def by (rule fnv_mult_inj)
  then have "(ucast a :: u64) = ucast b" by (metis xor.commute xor_cancel)
  then show ?thesis by (rule ucast_u8_inj)
qed

section \<open>Every primitive keeps the size of the buffer\<close>

lemma fold_splice_length:
  assumes "\<And>row q. row \<in> set rows \<Longrightarrow> length q = length p \<Longrightarrow> off row + length (f row q) \<le> length p"
  shows "length (fold (\<lambda>row p. splice (off row) (f row p) p) rows p) = length p"
  using assms
proof (induction rows arbitrary: p)
  case (Cons row rows)
  have "length (splice (off row) (f row p) p) = length p" using Cons.prems [of row p] by simp
  moreover have "length (fold (\<lambda>row p. splice (off row) (f row p) p) rows (splice (off row) (f row p) p)) =
      length (splice (off row) (f row p) p)"
    using Cons.prems calculation by (intro Cons.IH) auto
  ultimately show ?case by simp
qed simp

lemma window_length:
  fixes p :: bytes
  assumes "0 \<le> x0" "x0 \<le> x1" "x1 \<le> stride" "0 \<le> y0" "y1 \<le> height" "nat stride * nat height \<le> length p"
    and f: "\<And>row q. length (f row q) \<le> nat (x1 - x0)"
  shows "length (fold (\<lambda>row p. splice (nat row * nat stride + nat x0) (f row p) p) [y0..y1 - 1] p) = length p"
proof (rule fold_splice_length)
  fix row and q :: bytes
  assume row: "row \<in> set [y0..y1 - 1]"
  have "nat row * nat stride + nat x0 + length (f row q) \<le> nat stride * nat height"
    using row assms(1-5) f [of row q] by (intro row_in) auto
  then show "nat row * nat stride + nat x0 + length (f row q) \<le> length p" using assms(6) by simp
qed

lemma raster_sizes:
  assumes "inside p stride width height"
  shows "\<exists>q. blyt_raster_clear (Some p) stride width height c = Some q \<and> length q = length p"
    and "\<exists>q. blyt_raster_pixel (Some p) stride width height x y c = Some q \<and> length q = length p"
    and "\<exists>q. blyt_raster_rect_fill (Some p) stride width height x y w h c = Some q \<and> length q = length p"
    and "\<exists>q. blyt_raster_blit (Some p) stride width height same (Some s) sstride swidth sheight x y = Some q \<and> length q = length p"
proof -
  have p: "nat stride * nat height \<le> length p" "0 < width" "0 < height" "width \<le> stride" using assms by (auto simp: inside_def)
  show "\<exists>q. blyt_raster_clear (Some p) stride width height c = Some q \<and> length q = length p"
    using window_length [of 0 width stride 0 height height p "\<lambda>_ _. replicate (nat width) c"] p
    by (auto simp: blyt_raster_clear_def)
  show "\<exists>q. blyt_raster_pixel (Some p) stride width height x y c = Some q \<and> length q = length p"
  proof (cases "x < 0 \<or> x \<ge> width \<or> y < 0 \<or> y \<ge> height")
    case False
    then have "nat y * nat stride + nat x + 1 \<le> nat stride * nat height" using p by (intro row_in) auto
    then show ?thesis using False p by (auto simp: blyt_raster_pixel_def)
  qed (use p in \<open>auto simp: blyt_raster_pixel_def\<close>)
  have clip: "\<exists>q. (if x1 \<le> x0 \<or> y1 \<le> y0 then Some p
        else Some (fold (\<lambda>row p. splice (nat row * nat stride + nat x0) (f row p) p) [y0..y1 - 1] p)) = Some q \<and> length q = length p"
    if "0 \<le> x0" "x1 \<le> width" "0 \<le> y0" "y1 \<le> height" "\<And>row q. length (f row q) \<le> nat (x1 - x0)" for x0 x1 y0 y1 f
    using window_length [of x0 x1 stride y0 y1 height p f] that p by auto
  show "\<exists>q. blyt_raster_rect_fill (Some p) stride width height x y w h c = Some q \<and> length q = length p"
  proof (cases "stride \<le> 0 \<or> w \<le> 0 \<or> h \<le> 0")
    case False
    show ?thesis unfolding blyt_raster_rect_fill_def option.case Let_def if_not_P [OF False]
      by (rule clip) auto
  qed (simp add: blyt_raster_rect_fill_def)
  show "\<exists>q. blyt_raster_blit (Some p) stride width height same (Some s) sstride swidth sheight x y = Some q \<and> length q = length p"
  proof (cases "stride \<le> 0 \<or> sstride \<le> 0 \<or> swidth \<le> 0 \<or> sheight \<le> 0")
    case False
    show ?thesis unfolding blyt_raster_blit_def option.case prod.case Let_def if_not_P [OF False]
      by (rule clip) (auto simp: length_slice_le)
  qed (simp add: blyt_raster_blit_def)
qed

lemma line_loop_size:
  assumes "line_loop stride width height c dx dy sx sy x1 y1 x0 y0 err fb = Some r"
  shows "\<forall>p. inside p stride width height \<longrightarrow> fb = Some p \<longrightarrow> (\<exists>q. r = Some q \<and> length q = length p)"
proof (rule line_loop.raw_induct [OF _ assms, of "\<lambda>stride width height c dx dy sx sy x1 y1 x0 y0 err fb r.
    \<forall>p. inside p stride width height \<longrightarrow> fb = Some p \<longrightarrow> (\<exists>q. r = Some q \<and> length q = length p)"], intro allI impI)
  fix loop stride width height color dx dy sx sy x1 y1 x0 y0 err fb r and p :: bytes
  assume IH: "\<And>stride width height color dx dy sx sy x1 y1 x0 y0 err fb r.
      loop stride width height color dx dy sx sy x1 y1 x0 y0 err fb = Some r \<Longrightarrow>
      \<forall>p. inside p stride width height \<longrightarrow> fb = Some p \<longrightarrow> (\<exists>q. r = Some q \<and> length q = length p)"
    and step: "(let fb' = blyt_raster_pixel fb stride width height (sint x0) (sint y0) color
      in if x0 = x1 \<and> y0 = y1 then Some fb'
         else
           let e2 = 2 * err;
               cx = sint e2 > sint (- dy); cy = sint e2 < sint dx;
               err1 = (if cx then err - dy else err); x = (if cx then x0 + sx else x0);
               err2 = (if cy then err1 + dx else err1); y = (if cy then y0 + sy else y0)
           in loop stride width height color dx dy sx sy x1 y1 x y err2 fb') = Some r"
    and p: "inside p stride width height" "fb = Some p"
  obtain q where q: "blyt_raster_pixel fb stride width height (sint x0) (sint y0) color = Some q" "length q = length p"
    using raster_sizes(2) [OF p(1)] p(2) by blast
  have "inside q stride width height" using p(1) q(2) by (simp add: inside_def)
  show "\<exists>q. r = Some q \<and> length q = length p"
  proof (cases "x0 = x1 \<and> y0 = y1")
    case True
    then show ?thesis using step q by (simp add: Let_def)
  next
    case False
    with step have "\<exists>x y e. loop stride width height color dx dy sx sy x1 y1 x y e (Some q) = Some r"
      unfolding Let_def q if_not_P [OF False] by blast
    then show ?thesis using IH \<open>inside q stride width height\<close> q(2) by (metis option.inject)
  qed
qed

lemma line_size:
  assumes "blyt_raster_line (Some p) stride width height x0 y0 x1 y1 c = Some r" "inside p stride width height"
  shows "\<exists>q. r = Some q \<and> length q = length p"
  using assms line_loop_size by (auto simp: blyt_raster_line_def Let_def split: if_splits)

lemma line_returns:
  fixes x0 y0 x1 y1 :: u32
  assumes "\<bar>sint x1 - sint x0\<bar> \<le> 268435456" "\<bar>sint y1 - sint y0\<bar> \<le> 268435456"
  shows "\<exists>r. blyt_raster_line fb stride width height x0 y0 x1 y1 c = Some r"
proof (cases "fb = None \<or> stride \<le> 0")
  case False
  then obtain p where p: "fb = Some p" "0 < stride" by auto
  show ?thesis unfolding p(1) using line_start [OF p(2) assms, of p width height c] by blast
qed (simp add: blyt_raster_line_def)

section \<open>Examples\<close>

definition demo_fb :: bytes where
  "demo_fb = [1, 2, 3, 4, 5, 6, 7, 8, 9, 10, 11, 12]"

lemma demo_inside: "inside demo_fb 4 3 3"
  by code_simp

theorem rect_fill_exact_witness:
  "\<exists>q. blyt_raster_rect_fill (Some demo_fb) 4 3 3 (- 5) 1 7 100 0 = Some q \<and> length q = 12 \<and> pixel_at q 4 1 2 = 0"
proof -
  have "length demo_fb = 12" by (simp add: demo_fb_def)
  then show ?thesis using rect_fill_exact [OF demo_inside, of 1 2 "- 5" 1 7 100 0] by simp
qed


theorem line_exact_witness:
  "\<exists>ps. blyt_raster_line (Some demo_fb) 4 3 3 0 0 2 1 0 =
     Some (fold (\<lambda>(x, y) fb. blyt_raster_pixel fb 4 3 3 x y 0) ps (Some demo_fb)) \<and> hd ps = (0, 0) \<and> last ps = (2, 1)"
proof -
  have "sint (2 :: u32) = 2" "sint (1 :: u32) = 1" "sint (0 :: u32) = 0" by code_simp+
  then show ?thesis using line_exact [of 4 2 0 1 0 demo_fb 3 3 0] by auto
qed

theorem frame_hash_single_pixel_witness:
  "blyt_frame_hash (Some [1, 2, 3]) \<noteq> blyt_frame_hash (Some [1, 7, 3])"
  using frame_hash_single_pixel [of "[1]" 2 "[3]" 7] by auto

end
