(* ===== verification/Palettes.thy ===== *)
theory Palettes
  imports Handles
begin

text \<open>
  The four built-in palettes and the nearest-colour search (\<^verbatim>\<open>runtime/shared/blyt_palettes.c\<close>).
\<close>

section \<open>Tables\<close>

definition BLYT_PAL_AURORA :: "u32 list" where
  "BLYT_PAL_AURORA = [0, 0x111111, 0x222222, 0x333333, 0x444444, 0x555555, 0x666666, 0x777777,
     0x888888, 0x999999, 0xAAAAAA, 0xBBBBBB, 0xCCCCCC, 0xDDDDDD, 0xEEEEEE, 0xFFFFFF,
     0x007F7F, 0x3FBFBF, 0x00FFFF, 0xBFFFFF, 0x8181FF, 0x0000FF, 0x3F3FBF, 0x00007F,
     0x0F0F50, 0x7F007F, 0xBF3FBF, 0xF500F5, 0xFD81FF, 0xFFC0CB, 0xFF8181, 0xFF0000,
     0xBF3F3F, 0x7F0000, 0x551414, 0x7F3F00, 0xBF7F3F, 0xFF7F00, 0xFFBF81, 0xFFFFBF,
     0xFFFF00, 0xBFBF3F, 0x7F7F00, 0x007F00, 0x3FBF3F, 0x00FF00, 0xAFFFAF, 0x00BFFF,
     0x007FFF, 0x4B7DC8, 0xBCAFC0, 0xCBAA89, 0xA6A090, 0x7E9494, 0x6E8287, 0x7E6E60,
     0xA0695F, 0xC07872, 0xD08A74, 0xE19B7D, 0xEBAA8C, 0xF5B99B, 0xF6C8AF, 0xF5E1D2,
     0x7F00FF, 0x573B3B, 0x73413C, 0x8E5555, 0xAB7373, 0xC78F8F, 0xE3ABAB, 0xF8D2DA,
     0xE3C7AB, 0xC49E73, 0x8F7357, 0x73573B, 0x3B2D1F, 0x414123, 0x73733B, 0x8F8F57,
     0xA2A255, 0xB5B572, 0xC7C78F, 0xDADAAB, 0xEDEDC7, 0xC7E3AB, 0xABC78F, 0x8EBE55,
     0x738F57, 0x587D3E, 0x465032, 0x191E0F, 0x235037, 0x3B573B, 0x506450, 0x3B7349,
     0x578F57, 0x73AB73, 0x64C082, 0x8FC78F, 0xA2D8A2, 0xE1F8FA, 0xB4EECA, 0xABE3C5,
     0x87B48E, 0x507D5F, 0x0F6946, 0x1E2D23, 0x234146, 0x3B7373, 0x64ABAB, 0x8FC7C7,
     0xABE3E3, 0xC7F1F1, 0xBED2F0, 0xABC7E3, 0xA8B9DC, 0x8FABC7, 0x578FC7, 0x57738F,
     0x3B5773, 0x0F192D, 0x1F1F3B, 0x3B3B57, 0x494973, 0x57578F, 0x736EAA, 0x7676CA,
     0x8F8FC7, 0xABABE3, 0xD0DAF8, 0xE3E3FF, 0xAB8FC7, 0x8F57C7, 0x73578F, 0x573B73,
     0x3C233C, 0x463246, 0x724072, 0x8F578F, 0xAB57AB, 0xAB73AB, 0xEBACE1, 0xFFDCF5,
     0xE3C7E3, 0xE1B9D2, 0xD7A0BE, 0xC78FB9, 0xC87DA0, 0xC35A91, 0x4B2837, 0x321623,
     0x280A1E, 0x401811, 0x621800, 0xA5140A, 0xDA2010, 0xD5524A, 0xFF3C0A, 0xF55A32,
     0xFF6262, 0xF6BD31, 0xFFA53C, 0xD79B0F, 0xDA6E0A, 0xB45A00, 0xA04B05, 0x5F3214,
     0x53500A, 0x626200, 0x8C805A, 0xAC9400, 0xB1B10A, 0xE6D55A, 0xFFD510, 0xFFEA4A,
     0xC8FF41, 0x9BF046, 0x96DC19, 0x73C805, 0x6AA805, 0x3C6E14, 0x283405, 0x204608,
     0x0C5C0C, 0x149605, 0x0AD70A, 0x14E60A, 0x7DFF73, 0x4BF05A, 0x00C514, 0x05B450,
     0x1C8C4E, 0x123832, 0x129880, 0x06C491, 0x00DE6A, 0x2DEBA8, 0x3CFEA5, 0x6AFFCD,
     0x91EBFF, 0x55E6FF, 0x7DD7F0, 0x08DED5, 0x109CDE, 0x055A5C, 0x162C52, 0x0F377D,
     0x004A9C, 0x326496, 0x0052F6, 0x186ABD, 0x2378DC, 0x699DC3, 0x4AA4FF, 0x90B0FF,
     0x5AC5FF, 0xBEB9FA, 0x786EF0, 0x4A5AFF, 0x6241F6, 0x3C3CF5, 0x101CDA, 0x0010BD,
     0x231094, 0x0C2148, 0x5010B0, 0x6010D0, 0x8732D2, 0x9C41FF, 0xBD62FF, 0xB991FF,
     0xD7A5FF, 0xD7C3FA, 0xF8C6FC, 0xE673FF, 0xFF52FF, 0xDA20E0, 0xBD29FF, 0xBD10C5,
     0x8C14BE, 0x5A187B, 0x641464, 0x410062, 0x320A46, 0x551937, 0xA01982, 0xC80078,
     0xFF50BF, 0xFF6AC5, 0xFAA0B9, 0xFC3A8C, 0xE61E78, 0xBD1039, 0x98344D, 0x911437]"

definition BLYT_PAL_VGA :: "u32 list" where
  "BLYT_PAL_VGA = [0, 0x0000AA, 0x00AA00, 0x00AAAA, 0xAA0000, 0xAA00AA, 0xAA5500, 0xAAAAAA,
     0x555555, 0x5555FF, 0x55FF55, 0x55FFFF, 0xFF5555, 0xFF55FF, 0xFFFF55, 0xFFFFFF,
     0, 0x141414, 0x202020, 0x2D2D2D, 0x393939, 0x454545, 0x515151, 0x616161,
     0x717171, 0x828282, 0x929292, 0xA2A2A2, 0xB6B6B6, 0xCACACA, 0xE3E3E3, 0xFFFFFF,
     0xFF0000, 0xFF4100, 0xFF8200, 0xFFBE00, 0xFFFF00, 0xBEFF00, 0x82FF00, 0x41FF00,
     0x00FF00, 0x00FF41, 0x00FF82, 0x00FFBE, 0x00FFFF, 0x00BEFF, 0x0082FF, 0x0041FF,
     0x0000FF, 0x4100FF, 0x8200FF, 0xBE00FF, 0xFF00FF, 0xFF00BE, 0xFF0082, 0xFF0041,
     0xFF5555, 0xFF8255, 0xFFAA55, 0xFFD255, 0xFFFF55, 0xD2FF55, 0xAAFF55, 0x82FF55,
     0x55FF55, 0x55FF82, 0x55FFAA, 0x55FFD2, 0x55FFFF, 0x55D2FF, 0x55AAFF, 0x5582FF,
     0x5555FF, 0x8255FF, 0xAA55FF, 0xD255FF, 0xFF55FF, 0xFF55D2, 0xFF55AA, 0xFF5582,
     0xFFAAAA, 0xFFBEAA, 0xFFD2AA, 0xFFEBAA, 0xFFFFAA, 0xEBFFAA, 0xD2FFAA, 0xBEFFAA,
     0xAAFFAA, 0xAAFFBE, 0xAAFFD2, 0xAAFFEB, 0xAAFFFF, 0xAAEBFF, 0xAAD2FF, 0xAABEFF,
     0xAAAAFF, 0xBEAAFF, 0xD2AAFF, 0xEBAAFF, 0xFFAAFF, 0xFFAAEB, 0xFFAAD2, 0xFFAABE,
     0xAA0000, 0xAA2800, 0xAA5500, 0xAA8200, 0xAAAA00, 0x82AA00, 0x55AA00, 0x28AA00,
     0x00AA00, 0x00AA28, 0x00AA55, 0x00AA82, 0x00AAAA, 0x0082AA, 0x0055AA, 0x0028AA,
     0x0000AA, 0x2800AA, 0x5500AA, 0x8200AA, 0xAA00AA, 0xAA0082, 0xAA0055, 0xAA0028,
     0xAA3939, 0xAA5539, 0xAA7139, 0xAA8E39, 0xAAAA39, 0x8EAA39, 0x71AA39, 0x55AA39,
     0x39AA39, 0x39AA55, 0x39AA71, 0x39AA8E, 0x39AAAA, 0x398EAA, 0x3971AA, 0x3955AA,
     0x3939AA, 0x5539AA, 0x7139AA, 0x8E39AA, 0xAA39AA, 0xAA398E, 0xAA3971, 0xAA3955,
     0xAA7171, 0xAA8271, 0xAA8E71, 0xAA9A71, 0xAAAA71, 0x9AAA71, 0x8EAA71, 0x82AA71,
     0x71AA71, 0x71AA82, 0x71AA8E, 0x71AA9A, 0x71AAAA, 0x719AAA, 0x718EAA, 0x7182AA,
     0x7171AA, 0x8271AA, 0x8E71AA, 0x9A71AA, 0xAA71AA, 0xAA719A, 0xAA718E, 0xAA7182,
     0x550000, 0x551400, 0x552800, 0x554100, 0x555500, 0x415500, 0x285500, 0x145500,
     0x005500, 0x005514, 0x005528, 0x005541, 0x005555, 0x004155, 0x002855, 0x001455,
     0x000055, 0x140055, 0x280055, 0x410055, 0x550055, 0x550041, 0x550028, 0x550014,
     0x551C1C, 0x55281C, 0x55391C, 0x55491C, 0x55551C, 0x49551C, 0x39551C, 0x28551C,
     0x1C551C, 0x1C5528, 0x1C5539, 0x1C5549, 0x1C5555, 0x1C4955, 0x1C3955, 0x1C2855,
     0x1C1C55, 0x281C55, 0x391C55, 0x491C55, 0x551C55, 0x551C49, 0x551C39, 0x551C28,
     0x553939, 0x554139, 0x554939, 0x554D39, 0x555539, 0x4D5539, 0x495539, 0x415539,
     0x395539, 0x395541, 0x395549, 0x39554D, 0x395555, 0x394D55, 0x394955, 0x394155,
     0x393955, 0x413955, 0x493955, 0x4D3955, 0x553955, 0x55394D, 0x553949, 0x553941] @ replicate 8 0"

definition BLYT_PAL_EGA :: "u32 list" where
  "BLYT_PAL_EGA = [0, 0x0000AA, 0x00AA00, 0x00AAAA, 0xAA0000, 0xAA00AA, 0xAA5500, 0xAAAAAA,
     0x555555, 0x5555FF, 0x55FF55, 0x55FFFF, 0xFF5555, 0xFF55FF, 0xFFFF55, 0xFFFFFF] @ replicate 240 0"

definition BLYT_PAL_CGA :: "u32 list" where
  "BLYT_PAL_CGA = [0, 0x55FFFF, 0xFF55FF, 0xFFFFFF] @ replicate 252 0"

section \<open>Resolution\<close>

definition BLYT_PAL_ID_AURORA :: u32 where "BLYT_PAL_ID_AURORA = 1"
definition BLYT_PAL_ID_VGA :: u32 where "BLYT_PAL_ID_VGA = 2"
definition BLYT_PAL_ID_EGA :: u32 where "BLYT_PAL_ID_EGA = 3"
definition BLYT_PAL_ID_CGA :: u32 where "BLYT_PAL_ID_CGA = 4"

definition blyt_builtin_palette :: "u32 \<Rightarrow> u32 list option" where
  "blyt_builtin_palette handle =
     (if \<not> blyt_handle_is_resource handle then None
      else if blyt_resource_decode_provenance handle \<noteq> BLYT_RESOURCE_PROV_RUNTIME then None
      else
        let rid = blyt_resource_decode_id handle
        in if rid = BLYT_PAL_ID_AURORA then Some BLYT_PAL_AURORA
           else if rid = BLYT_PAL_ID_VGA then Some BLYT_PAL_VGA
           else if rid = BLYT_PAL_ID_EGA then Some BLYT_PAL_EGA
           else if rid = BLYT_PAL_ID_CGA then Some BLYT_PAL_CGA
           else None)"

section \<open>Nearest colour\<close>

definition channel :: "nat \<Rightarrow> u32 \<Rightarrow> int" where
  "channel sh rgb = uint (drop_bit sh rgb AND 0xFF)"

definition colour_dist :: "u32 \<Rightarrow> u32 \<Rightarrow> u32" where
  "colour_dist p rgb =
     (let dr = channel 16 p - channel 16 rgb; dg = channel 8 p - channel 8 rgb; db = channel 0 p - channel 0 rgb
      in word_of_int (dr * dr + dg * dg + db * db))"

fun nearest_loop :: "u32 \<Rightarrow> u32 list \<Rightarrow> nat \<Rightarrow> u32 \<Rightarrow> u8 \<Rightarrow> u8" where
  "nearest_loop rgb [] i best_d best_i = best_i"
| "nearest_loop rgb (p # ps) i best_d best_i =
     (let d = colour_dist p rgb
      in if d < best_d then if d = 0 then of_nat i else nearest_loop rgb ps (Suc i) d (of_nat i)
         else nearest_loop rgb ps (Suc i) best_d best_i)"

definition blyt_palette_nearest :: "u32 list \<Rightarrow> u32 \<Rightarrow> u8" where
  "blyt_palette_nearest palette rgb = nearest_loop rgb (take 256 palette) 0 0xFFFFFFFF 0"

section \<open>Properties\<close>

lemma channel_range: "0 \<le> channel sh x \<and> channel sh x \<le> 255"
proof -
  have "drop_bit sh x AND 0xFF \<le> (0xFF :: u32)" by (rule word_and_le1)
  then show ?thesis by (simp add: channel_def word_le_def)
qed

lemma square_diff: "0 \<le> a \<Longrightarrow> a \<le> 255 \<Longrightarrow> 0 \<le> b \<Longrightarrow> b \<le> 255 \<Longrightarrow> 0 \<le> (a - b) * (a - b) \<and> (a - b) * (a - b) \<le> (65025 :: int)"
proof -
  assume "0 \<le> a" "a \<le> 255" "0 \<le> b" "b \<le> 255"
  then have "\<bar>a - b\<bar> \<le> 255" by auto
  then have "\<bar>a - b\<bar> * \<bar>a - b\<bar> \<le> 255 * 255" by (intro mult_mono) auto
  then show ?thesis by (simp add: abs_mult_self_eq)
qed

definition colour_distance :: "u32 \<Rightarrow> u32 \<Rightarrow> int" where
  "colour_distance p rgb =
     (channel 16 p - channel 16 rgb)\<^sup>2 + (channel 8 p - channel 8 rgb)\<^sup>2 + (channel 0 p - channel 0 rgb)\<^sup>2"

lemma colour_dist_exact: "uint (colour_dist p rgb) = colour_distance p rgb \<and> colour_distance p rgb \<le> 195075"
proof -
  have sq: "0 \<le> (channel sh p - channel sh rgb)\<^sup>2 \<and> (channel sh p - channel sh rgb)\<^sup>2 \<le> 65025" for sh
    using square_diff [of "channel sh p" "channel sh rgb"] channel_range by (simp add: power2_eq_square)
  then have r: "0 \<le> colour_distance p rgb" "colour_distance p rgb \<le> 195075"
    unfolding colour_distance_def using sq [of 16] sq [of 8] sq [of 0] by linarith+
  have "colour_dist p rgb = word_of_int (colour_distance p rgb)"
    by (simp add: colour_dist_def colour_distance_def Let_def power2_eq_square)
  then show ?thesis using r by (simp add: unsigned_of_int take_bit_int_eq_self)
qed

lemma nearest_loop_spec:
  assumes "i + length ps \<le> 256" "best = nearest_loop rgb ps i best_d best_i"
  shows "(best = best_i \<and> (\<forall>p \<in> set ps. best_d \<le> colour_dist p rgb)) \<or>
    (\<exists>k < length ps. best = of_nat (i + k) \<and> colour_dist (ps ! k) rgb < best_d \<and>
      (\<forall>p \<in> set ps. colour_dist (ps ! k) rgb \<le> colour_dist p rgb) \<and>
      (\<forall>j < k. colour_dist (ps ! k) rgb < colour_dist (ps ! j) rgb))"
  using assms
proof (induction ps arbitrary: i best_d best_i)
  case (Cons p ps)
  let ?d = "colour_dist p rgb"
  show ?case
  proof (cases "?d < best_d")
    case False
    have "best = nearest_loop rgb ps (Suc i) best_d best_i" using Cons.prems False by (simp add: Let_def)
    note ih = Cons.IH [OF _ this]
    have "Suc i + length ps \<le> 256" using Cons.prems(1) by simp
    from ih [OF this] show ?thesis
    proof (elim disjE exE conjE)
      fix k assume "k < length ps" "best = of_nat (Suc i + k)" "colour_dist (ps ! k) rgb < best_d"
        "\<forall>p \<in> set ps. colour_dist (ps ! k) rgb \<le> colour_dist p rgb" "\<forall>j < k. colour_dist (ps ! k) rgb < colour_dist (ps ! j) rgb"
      then show ?thesis using False by (intro disjI2 exI [of _ "Suc k"]) (auto simp: All_less_Suc2)
    qed (use False in auto)
  next
    case lt: True
    show ?thesis
    proof (cases "?d = 0")
      case True
      then have "best = of_nat i" using Cons.prems lt by (simp add: Let_def)
      then show ?thesis using lt True by (intro disjI2 exI [of _ 0]) auto
    next
      case False
      have "best = nearest_loop rgb ps (Suc i) ?d (of_nat i)" using Cons.prems lt False by (simp add: Let_def)
      note ih = Cons.IH [OF _ this]
      have "Suc i + length ps \<le> 256" using Cons.prems(1) by simp
      from ih [OF this] show ?thesis
      proof (elim disjE exE conjE)
        assume "best = of_nat i" "\<forall>p \<in> set ps. ?d \<le> colour_dist p rgb"
        then show ?thesis using lt by (intro disjI2 exI [of _ 0]) auto
      next
        fix k assume "k < length ps" "best = of_nat (Suc i + k)" "colour_dist (ps ! k) rgb < ?d"
          "\<forall>p \<in> set ps. colour_dist (ps ! k) rgb \<le> colour_dist p rgb" "\<forall>j < k. colour_dist (ps ! k) rgb < colour_dist (ps ! j) rgb"
        then show ?thesis using lt by (intro disjI2 exI [of _ "Suc k"]) (auto simp: All_less_Suc2)
      qed
    qed
  qed
qed simp

text \<open>
  C40. The nearest-colour search returns the lowest index among the palette entries at the smallest squared RGB
  distance from the target; the 32-bit distances do not overflow and the early exit does not change the answer.
\<close>
theorem palette_nearest_exact:
  assumes "length palette = 256"
  shows "let k = unat (blyt_palette_nearest palette rgb)
    in (\<forall>j < 256. colour_distance (palette ! k) rgb \<le> colour_distance (palette ! j) rgb) \<and>
       (\<forall>j < k. colour_distance (palette ! k) rgb < colour_distance (palette ! j) rgb)"
proof -
  have le: "colour_dist a rgb \<le> colour_dist b rgb \<longleftrightarrow> colour_distance a rgb \<le> colour_distance b rgb"
    and less: "colour_dist a rgb < colour_dist b rgb \<longleftrightarrow> colour_distance a rgb < colour_distance b rgb" for a b
    using colour_dist_exact by (simp_all add: word_le_def word_less_def)
  have big: "colour_dist p rgb < 0xFFFFFFFF" for p
    using colour_dist_exact [of p rgb] by (simp add: word_less_def)
  obtain k where k: "k < 256" "blyt_palette_nearest palette rgb = of_nat k"
    "\<forall>p \<in> set palette. colour_dist (palette ! k) rgb \<le> colour_dist p rgb" "\<forall>j < k. colour_dist (palette ! k) rgb < colour_dist (palette ! j) rgb"
    using nearest_loop_spec [of 0 palette "blyt_palette_nearest palette rgb" rgb "0xFFFFFFFF" 0] assms big [of "palette ! 0"]
    by (auto simp: blyt_palette_nearest_def linorder_not_le [symmetric] dest: bspec [of _ _ "palette ! 0"])
  have "unat (of_nat k :: u8) = k" using k(1) by (simp add: unsigned_of_nat take_bit_nat_eq_self)
  then show ?thesis using k assms by (auto simp: Let_def le less)
qed

text \<open>
  The built-in palettes: a handle resolves to a table exactly for the four runtime-provenance ids, and every table
  has 256 entries of 24-bit colours.
\<close>
lemma builtin_palette_tables:
  "(case blyt_builtin_palette handle of
      None \<Rightarrow> \<not> (blyt_handle_is_resource handle \<and> blyt_resource_decode_provenance handle = BLYT_RESOURCE_PROV_RUNTIME \<and>
                  blyt_resource_decode_id handle \<in> {1, 2, 3, 4})
    | Some t \<Rightarrow> length t = 256 \<and> list_all (\<lambda>c. c < 0x1000000) t)"
proof -
  have t: "length BLYT_PAL_AURORA = 256 \<and> list_all (\<lambda>c. c < 0x1000000) BLYT_PAL_AURORA"
    "length BLYT_PAL_VGA = 256 \<and> list_all (\<lambda>c. c < 0x1000000) BLYT_PAL_VGA"
    "length BLYT_PAL_EGA = 256 \<and> list_all (\<lambda>c. c < 0x1000000) BLYT_PAL_EGA"
    "length BLYT_PAL_CGA = 256 \<and> list_all (\<lambda>c. c < 0x1000000) BLYT_PAL_CGA"
    by code_simp+
  show ?thesis using t
    by (auto simp: blyt_builtin_palette_def Let_def BLYT_PAL_ID_AURORA_def BLYT_PAL_ID_VGA_def BLYT_PAL_ID_EGA_def BLYT_PAL_ID_CGA_def)
qed

theorem palette_nearest_exact_witness:
  "blyt_palette_nearest BLYT_PAL_EGA 0xAA0001 = 4 \<and>
   colour_distance (BLYT_PAL_EGA ! unat (4 :: u8)) 0xAA0001 \<le> colour_distance (BLYT_PAL_EGA ! 12) 0xAA0001"
proof -
  have l: "length BLYT_PAL_EGA = 256" and n: "blyt_palette_nearest BLYT_PAL_EGA 0xAA0001 = 4" by code_simp+
  then show ?thesis using palette_nearest_exact [OF l, of "0xAA0001"] by (simp add: Let_def)
qed

end
