(* ===== verification/Surfaces.thy ===== *)
theory Surfaces
  imports Resources Raster Palettes Save
begin

text \<open>
  The run context of the emulated session and its surface registry (\<^verbatim>\<open>runtime/host/src/libblyt/cart_run.c\<close>): slot 0 is
  the screen, slots 1 to 63 are off-screen surfaces that live until the frame boundary.  A slot holds its canonical
  pixel buffer; the screen buffer of slot 0 is also what \<^verbatim>\<open>ctx->fb\<close> and \<^verbatim>\<open>session->pixels\<close> point to, so it is stored
  once, in slot 0.  The guest memory belongs to the emulator rv32emu, which is not part of this repository: its two access
  functions are parameters (\<open>guest_ops\<close>), and \<open>guest_memory\<close> states that they read and write a flat byte memory.
\<close>

section \<open>Guest memory\<close>

record 'm guest_ops =
  memory_read :: "'m \<Rightarrow> u32 \<Rightarrow> nat \<Rightarrow> bytes"
  memory_write :: "'m \<Rightarrow> u32 \<Rightarrow> bytes \<Rightarrow> 'm"
  GUEST_RAM_CONTAINS :: "'m \<Rightarrow> u32 \<Rightarrow> nat \<Rightarrow> bool"

definition BLYT_EMU_MEM_SIZE :: u32 where "BLYT_EMU_MEM_SIZE = 256 * 1024 * 1024"
definition BLYT_RESOURCE_SCRATCH_BASE :: u32 where "BLYT_RESOURCE_SCRATCH_BASE = 0x06000000"
definition BLYT_RESOURCE_SCRATCH_SIZE :: u32 where "BLYT_RESOURCE_SCRATCH_SIZE = 16 * 1024 * 1024"
definition BLYT_GFX_FB_BASE :: u32 where "BLYT_GFX_FB_BASE = 0x02000000"
definition BLYT_FRAME_W :: int where "BLYT_FRAME_W = 320"
definition BLYT_FRAME_H :: int where "BLYT_FRAME_H = 240"

definition guest_bytes :: "'m guest_ops \<Rightarrow> 'm \<Rightarrow> mem" where
  "guest_bytes M m = (\<lambda>x. hd (memory_read M m (of_nat x) 1))"

definition guest_memory :: "'m guest_ops \<Rightarrow> bool" where
  "guest_memory M \<longleftrightarrow>
     (\<forall>m a n. unat a + n \<le> 268435456 \<longrightarrow> memory_read M m a n = mem_read (guest_bytes M m) (unat a) n) \<and>
     (\<forall>m a bs x. unat a + length bs \<le> 268435456 \<longrightarrow> x < 268435456 \<longrightarrow>
        guest_bytes M (memory_write M m a bs) x = mem_write (guest_bytes M m) (unat a) bs x)"

definition write_u32_le :: "u32 \<Rightarrow> bytes" where
  "write_u32_le val = [ucast val, ucast (drop_bit 8 val), ucast (drop_bit 16 val), ucast (drop_bit 24 val)]"

definition mem_acct_read_u32 :: "'m guest_ops \<Rightarrow> 'm \<Rightarrow> u32 \<Rightarrow> u32" where
  "mem_acct_read_u32 M m vaddr =
     (let b = memory_read M m vaddr 4
      in ucast (b ! 0) OR push_bit 8 (ucast (b ! 1)) OR push_bit 16 (ucast (b ! 2)) OR push_bit 24 (ucast (b ! 3)))"

section \<open>Registry and run context\<close>

definition BLYT_SURFACE_MAX :: nat where "BLYT_SURFACE_MAX = 64"
definition BLYT_SURFACE_LOCK_ARENA_BASE :: u32 where "BLYT_SURFACE_LOCK_ARENA_BASE = BLYT_GFX_FB_BASE"
definition BLYT_SURFACE_LOCK_ARENA_SIZE :: u32 where "BLYT_SURFACE_LOCK_ARENA_SIZE = 0x02000000"
definition BLYT_SURFACE_MAX_DIM :: int where "BLYT_SURFACE_MAX_DIM = 8192"

record blyt_surface_slot =
  sf_pixels :: "bytes option"
  sf_w :: int
  sf_h :: int
  sf_gen :: u16
  sf_in_use :: bool
  sf_is_screen :: bool
  sf_owned :: bool
  sf_locked :: bool
  sf_lock_phantom :: bool
  sf_lock_direct :: bool
  sf_lock_gen :: u16
  sf_lock_vaddr :: u32
  sf_lock_len :: u32

record blyt_surface_registry =
  slots :: "blyt_surface_slot list"
  surface_bytes :: u32
  lock_bump :: u32
  active_locks :: int

record blyt_run_ctx =
  log_fn :: bool
  logged :: "bytes list"
  ecall_trapped :: bool
  ecall_aborted :: bool
  frame_done :: bool
  cart_exited :: bool
  fn_return_done :: bool
  state_ctx :: "blyt_state_ctx option"
  save_dir :: "string option"
  cart_name :: string
  save_version :: u32
  resources :: blyt_resource_table
  resource_scratch_off :: u32
  cart_has_drawn :: bool
  palette :: "u32 list"
  surfaces :: blyt_surface_registry
  phase :: u32
  cart_is_debug :: bool
  dev_fault :: bool
  mem_acct_vaddr :: u32
  peer_heap :: u32

definition empty_slot :: blyt_surface_slot where
  "empty_slot = \<lparr>sf_pixels = None, sf_w = 0, sf_h = 0, sf_gen = 0, sf_in_use = False, sf_is_screen = False,
     sf_owned = False, sf_locked = False, sf_lock_phantom = False, sf_lock_direct = False, sf_lock_gen = 0,
     sf_lock_vaddr = 0, sf_lock_len = 0\<rparr>"

definition init_surfaces :: "bytes \<Rightarrow> blyt_surface_registry" where
  "init_surfaces pixels =
     \<lparr>slots = (replicate BLYT_SURFACE_MAX empty_slot)[0 := empty_slot\<lparr>sf_pixels := Some pixels, sf_w := BLYT_FRAME_W,
        sf_h := BLYT_FRAME_H, sf_gen := 0, sf_in_use := True, sf_is_screen := True, sf_owned := False\<rparr>],
      surface_bytes = 0, lock_bump = 0, active_locks = 0\<rparr>"

definition set_slot :: "nat \<Rightarrow> blyt_surface_slot \<Rightarrow> blyt_surface_registry \<Rightarrow> blyt_surface_registry" where
  "set_slot i s reg = reg\<lparr>slots := (slots reg)[i := s]\<rparr>"

section \<open>Unified budget bridge\<close>

definition mem_acct_guest_heap_used :: "'m guest_ops \<Rightarrow> blyt_run_ctx \<Rightarrow> 'm \<Rightarrow> u32" where
  "mem_acct_guest_heap_used M ctx m =
     (if mem_acct_vaddr ctx = 0 then 0 else mem_acct_read_u32 M m (mem_acct_vaddr ctx))"

definition ctx_non_evictable_footprint :: "blyt_run_ctx \<Rightarrow> u32" where
  "ctx_non_evictable_footprint ctx =
     blyt_resource_table_footprint (resources ctx) + surface_bytes (surfaces ctx) + peer_heap ctx"

definition mem_acct_publish_footprint :: "'m guest_ops \<Rightarrow> blyt_run_ctx \<Rightarrow> 'm \<Rightarrow> blyt_run_ctx \<times> 'm" where
  "mem_acct_publish_footprint M ctx m =
     (if mem_acct_vaddr ctx = 0 then (ctx, m)
      else
        let footprint = ctx_non_evictable_footprint ctx;
            m1 = memory_write M m (mem_acct_vaddr ctx + 4) (write_u32_le footprint);
            heap_used = mem_acct_guest_heap_used M ctx m1;
            (_, t) = blyt_resource_table_evict_to_fit (resources ctx) (blyt_mem_cache_room heap_used footprint)
        in (ctx\<lparr>resources := t\<rparr>,
            memory_write M m1 (mem_acct_vaddr ctx + 8) (write_u32_le (blyt_resource_table_resident_decompressed t))))"

definition mem_acct_reference_fits :: "'m guest_ops \<Rightarrow> blyt_run_ctx \<Rightarrow> 'm \<Rightarrow> blyt_resource_entry \<Rightarrow> bool \<Rightarrow> bool" where
  "mem_acct_reference_fits M ctx m e was_evictable =
     (if mem_acct_vaddr ctx = 0 then True
      else
        let incoming = (if was_evictable then of_nat (re_len e) else 0)
        in blyt_mem_alloc_fits (mem_acct_guest_heap_used M ctx m) (ctx_non_evictable_footprint ctx) incoming)"

section \<open>Resolution of handles\<close>

definition blyt_resolve_resource :: "blyt_resource_table \<Rightarrow> u32 \<Rightarrow> nat option" where
  "blyt_resolve_resource t handle =
     (if \<not> blyt_handle_is_resource handle \<or> blyt_resource_decode_provenance handle \<noteq> BLYT_RESOURCE_PROV_CART then None
      else blyt_resource_table_find_mut t (blyt_resource_decode_id handle))"

fun words_of_bytes :: "bytes \<Rightarrow> u32 list" where
  "words_of_bytes (a # b # c # d # bs) = le_of [a, b, c, d] # words_of_bytes bs"
| "words_of_bytes _ = []"

text \<open>Result: the 256 colours and the table, in which the entry may have been materialised.\<close>

definition blyt_resolve_palette :: "res_env \<Rightarrow> blyt_resource_table \<Rightarrow> u32 \<Rightarrow> u32 list option \<times> blyt_resource_table" where
  "blyt_resolve_palette env t handle =
     (if blyt_resource_decode_provenance handle = BLYT_RESOURCE_PROV_RUNTIME then (blyt_builtin_palette handle, t)
      else case blyt_resolve_resource t handle of None \<Rightarrow> (None, t)
      | Some i \<Rightarrow>
          if re_len (entries t ! i) \<noteq> 256 * 4 then (None, t)
          else
            let (d, e) = blyt_resource_entry_data env (entries t ! i)
            in (map_option words_of_bytes d, set_entry i e t))"

definition blyt_resolve_surface :: "blyt_surface_registry \<Rightarrow> u32 \<Rightarrow> nat option" where
  "blyt_resolve_surface reg handle =
     (if \<not> blyt_handle_is_surface handle then None
      else
        let idx = unat (blyt_dyn_decode_index handle)
        in if idx \<ge> BLYT_SURFACE_MAX then None
           else
             let s = slots reg ! idx
             in if \<not> sf_in_use s \<or> ucast (blyt_dyn_decode_gen handle) \<noteq> sf_gen s then None else Some idx)"

definition blyt_resolve_lockview :: "blyt_surface_registry \<Rightarrow> u32 \<Rightarrow> nat option" where
  "blyt_resolve_lockview reg token =
     (if \<not> blyt_handle_is_lockview token then None
      else
        let idx = unat (blyt_dyn_decode_index token)
        in if idx \<ge> BLYT_SURFACE_MAX then None
           else
             let s = slots reg ! idx
             in if \<not> sf_locked s \<or> ucast (blyt_dyn_decode_gen token) \<noteq> sf_lock_gen s then None else Some idx)"

section \<open>Surface life cycle\<close>

definition surface_size :: "blyt_surface_slot \<Rightarrow> u32" where
  "surface_size s = of_int (sf_w s) * of_int (sf_h s)"

definition blyt_surface_free_slot :: "nat \<Rightarrow> blyt_surface_registry \<Rightarrow> blyt_surface_registry" where
  "blyt_surface_free_slot i reg =
     (let s = slots reg ! i
      in if \<not> sf_in_use s \<or> sf_is_screen s then reg
         else
           (set_slot i (s\<lparr>sf_pixels := None, sf_in_use := False, sf_owned := False, sf_gen := sf_gen s + 1\<rparr>) reg)
           \<lparr>surface_bytes := (if sf_owned s \<and> sf_pixels s \<noteq> None then surface_bytes reg - surface_size s
                              else surface_bytes reg)\<rparr>)"

definition blyt_surface_flush_lock :: "'m guest_ops \<Rightarrow> 'm \<Rightarrow> nat \<Rightarrow> blyt_surface_registry \<Rightarrow> blyt_surface_registry" where
  "blyt_surface_flush_lock M m i reg =
     (let s = slots reg ! i
      in if \<not> sf_locked s then reg
         else
           let p = (if \<not> sf_lock_phantom s \<and> \<not> sf_lock_direct s \<and> sf_pixels s \<noteq> None
                    then Some (memory_read M m (sf_lock_vaddr s) (unat (sf_lock_len s))) else sf_pixels s);
               locks = (if active_locks reg > 0 then active_locks reg - 1 else active_locks reg)
           in (set_slot i (s\<lparr>sf_pixels := p, sf_locked := False, sf_lock_phantom := False, sf_lock_direct := False,
                 sf_lock_gen := sf_lock_gen s + 1\<rparr>) reg)
              \<lparr>active_locks := locks, lock_bump := (if locks = 0 then 0 else lock_bump reg)\<rparr>)"

definition blyt_surface_reap_all :: "'m guest_ops \<Rightarrow> blyt_run_ctx \<Rightarrow> 'm \<Rightarrow> blyt_run_ctx \<times> 'm" where
  "blyt_surface_reap_all M ctx m =
     (let reg1 = fold (blyt_surface_flush_lock M m) [0..<BLYT_SURFACE_MAX] (surfaces ctx);
          reg2 = fold blyt_surface_free_slot [1..<BLYT_SURFACE_MAX] reg1
      in mem_acct_publish_footprint M (ctx\<lparr>surfaces := reg2\<lparr>lock_bump := 0, active_locks := 0\<rparr>\<rparr>) m)"

definition free_index :: "blyt_surface_registry \<Rightarrow> nat" where
  "free_index reg = (case find (\<lambda>i. \<not> sf_in_use (slots reg ! i)) [1..<BLYT_SURFACE_MAX] of None \<Rightarrow> 0 | Some i \<Rightarrow> i)"

definition blyt_surface_create_slot ::
    "'m guest_ops \<Rightarrow> res_env \<Rightarrow> blyt_run_ctx \<Rightarrow> 'm \<Rightarrow> int \<Rightarrow> int \<Rightarrow> u32 \<times> blyt_run_ctx \<times> 'm" where
  "blyt_surface_create_slot M env ctx m w h =
     (if w \<le> 0 \<or> h \<le> 0 \<or> w > BLYT_SURFACE_MAX_DIM \<or> h > BLYT_SURFACE_MAX_DIM then (BLYT_HANDLE_NONE, ctx, m)
      else
        let bytes = of_int w * of_int h :: u32
        in if \<not> blyt_mem_alloc_fits (mem_acct_guest_heap_used M ctx m) (ctx_non_evictable_footprint ctx) bytes
           then (BLYT_HANDLE_NONE, ctx, m)
           else
             let reg = surfaces ctx; idx = free_index reg
             in if idx = 0 then (BLYT_HANDLE_NONE, ctx, m)
                else if \<not> alloc_ok env (unat bytes) then (BLYT_HANDLE_NONE, ctx, m)
                else
                  let s = (slots reg ! idx)\<lparr>sf_pixels := Some (replicate (unat bytes) 0), sf_w := w, sf_h := h,
                            sf_in_use := True, sf_is_screen := False, sf_owned := True\<rparr>;
                      reg' = (set_slot idx s reg)\<lparr>surface_bytes := surface_bytes reg + bytes\<rparr>;
                      (ctx', m') = mem_acct_publish_footprint M (ctx\<lparr>surfaces := reg'\<rparr>) m
                  in (blyt_surface_encode (ucast (sf_gen s)) (of_nat idx), ctx', m'))"

section \<open>Pixel locks\<close>

function guest_memzero_loop :: "'m guest_ops \<Rightarrow> u32 \<Rightarrow> u32 \<Rightarrow> u32 \<Rightarrow> 'm \<Rightarrow> 'm" where
  "guest_memzero_loop M vaddr len off m =
     (if off < len then
        let n = (if len - off > 4096 then 4096 else len - off)
        in guest_memzero_loop M vaddr len (off + n) (memory_write M m (vaddr + off) (replicate (unat n) 0))
      else m)"
  by auto
termination
proof (relation "measure (\<lambda>(M, vaddr, len, off, m). unat len - unat off)")
  fix M :: "'m guest_ops" and vaddr len off :: u32 and m :: 'm and n :: u32
  assume lt: "off < len" and n: "n = (if len - off > 4096 then 4096 else len - off)"
  have le: "n \<le> len - off" and pos: "0 < n" using n lt by (auto simp: word_less_nat_alt word_le_nat_alt unat_sub_small)
  have "unat (off + n) = unat off + unat n"
    using le lt unat_u32_lt [of len] by (intro unat_add_small) (simp add: word_le_nat_alt word_less_nat_alt unat_sub_small)
  then show "((M, vaddr, len, off + n, memory_write M m (vaddr + off) (replicate (unat n) 0)), M, vaddr, len, off, m)
      \<in> measure (\<lambda>(M, vaddr, len, off, m). unat len - unat off)"
    using pos lt by (simp add: word_less_nat_alt)
qed simp
declare guest_memzero_loop.simps [simp del]

definition guest_memzero :: "'m guest_ops \<Rightarrow> 'm \<Rightarrow> u32 \<Rightarrow> u32 \<Rightarrow> 'm" where
  "guest_memzero M m vaddr len = guest_memzero_loop M vaddr len 0 m"

definition lock_aligned :: "u32 \<Rightarrow> u32" where
  "lock_aligned len = (len + 3) AND NOT 3"

definition blyt_surface_acquire_lock ::
    "'m guest_ops \<Rightarrow> blyt_run_ctx \<Rightarrow> 'm \<Rightarrow> u32 \<Rightarrow> u32 \<Rightarrow> bool \<Rightarrow> bool \<times> blyt_run_ctx \<times> 'm" where
  "blyt_surface_acquire_lock M ctx m handle out_vaddr clear_only =
     (let reg = surfaces ctx
      in case blyt_resolve_surface reg handle of None \<Rightarrow> (False, ctx, memory_write M m out_vaddr (replicate 20 0))
      | Some i \<Rightarrow>
          let s = slots reg ! i
          in if sf_locked s then (False, ctx, memory_write M m out_vaddr (replicate 20 0))
             else
               let len = surface_size s; aligned = lock_aligned len
               in if (ucast (lock_bump reg) + ucast aligned :: u64) > ucast BLYT_SURFACE_LOCK_ARENA_SIZE
                  then (False, ctx, memory_write M m out_vaddr (replicate 20 0))
                  else
                    let vaddr = BLYT_SURFACE_LOCK_ARENA_BASE + lock_bump reg;
                        m1 = (if clear_only then guest_memzero M m vaddr len
                              else memory_write M m vaddr (case sf_pixels s of Some p \<Rightarrow> take (unat len) p | None \<Rightarrow> []));
                        s' = s\<lparr>sf_locked := True, sf_lock_phantom := clear_only, sf_lock_vaddr := vaddr, sf_lock_len := len\<rparr>;
                        reg' = (set_slot i s' reg)\<lparr>lock_bump := lock_bump reg + aligned, active_locks := active_locks reg + 1\<rparr>;
                        token = blyt_lockview_encode (ucast (sf_lock_gen s)) (blyt_dyn_decode_index handle);
                        lockbuf = write_u32_le vaddr @ write_u32_le (of_int (sf_w s)) @ write_u32_le (of_int (sf_w s)) @
                                  write_u32_le (of_int (sf_h s)) @ write_u32_le token
                    in (True, ctx\<lparr>surfaces := reg'\<rparr>, memory_write M m1 out_vaddr lockbuf))"

text \<open>Result: the released slot.\<close>

definition blyt_surface_release_lock :: "'m guest_ops \<Rightarrow> blyt_run_ctx \<Rightarrow> 'm \<Rightarrow> u32 \<Rightarrow> nat option \<times> blyt_run_ctx" where
  "blyt_surface_release_lock M ctx m token =
     (case blyt_resolve_lockview (surfaces ctx) token of None \<Rightarrow> (None, ctx)
      | Some i \<Rightarrow> (Some i, ctx\<lparr>surfaces := blyt_surface_flush_lock M m i (surfaces ctx)\<rparr>))"

section \<open>Host-side access of the session\<close>

definition blyt_session_surface_create ::
    "'m guest_ops \<Rightarrow> res_env \<Rightarrow> blyt_run_ctx \<Rightarrow> 'm \<Rightarrow> int \<Rightarrow> int \<Rightarrow> u32 \<times> blyt_run_ctx \<times> 'm" where
  "blyt_session_surface_create M env ctx m w h = blyt_surface_create_slot M env ctx m w h"

definition blyt_session_surface_destroy :: "'m guest_ops \<Rightarrow> blyt_run_ctx \<Rightarrow> 'm \<Rightarrow> u32 \<Rightarrow> blyt_run_ctx \<times> 'm" where
  "blyt_session_surface_destroy M ctx m handle =
     (case blyt_resolve_surface (surfaces ctx) handle of None \<Rightarrow> (ctx, m)
      | Some i \<Rightarrow>
          let s = slots (surfaces ctx) ! i
          in if sf_locked s then (ctx, m)
             else if \<not> sf_is_screen s
             then mem_acct_publish_footprint M (ctx\<lparr>surfaces := blyt_surface_free_slot i (surfaces ctx)\<rparr>) m
             else (ctx, m))"

text \<open>The slot whose buffer is handed out for drawing.\<close>

definition blyt_session_surface_drawable :: "blyt_run_ctx \<Rightarrow> u32 \<Rightarrow> nat option" where
  "blyt_session_surface_drawable ctx handle =
     (case blyt_resolve_surface (surfaces ctx) handle of None \<Rightarrow> None
      | Some i \<Rightarrow> if sf_locked (slots (surfaces ctx) ! i) then None else Some i)"

text \<open>Result: the locked slot and its token.\<close>

definition blyt_session_surface_acquire :: "blyt_run_ctx \<Rightarrow> u32 \<Rightarrow> (nat \<times> u32) option \<times> blyt_run_ctx" where
  "blyt_session_surface_acquire ctx handle =
     (let reg = surfaces ctx
      in case blyt_resolve_surface reg handle of None \<Rightarrow> (None, ctx)
      | Some i \<Rightarrow>
          let s = slots reg ! i
          in if sf_locked s then (None, ctx)
             else
               let s' = s\<lparr>sf_locked := True, sf_lock_phantom := False, sf_lock_direct := True, sf_lock_vaddr := 0, sf_lock_len := 0\<rparr>
               in (Some (i, blyt_lockview_encode (ucast (sf_lock_gen s)) (blyt_dyn_decode_index handle)),
                   ctx\<lparr>surfaces := (set_slot i s' reg)\<lparr>active_locks := active_locks reg + 1\<rparr>\<rparr>))"

definition blyt_session_surface_release :: "'m guest_ops \<Rightarrow> blyt_run_ctx \<Rightarrow> 'm \<Rightarrow> u32 \<Rightarrow> blyt_run_ctx" where
  "blyt_session_surface_release M ctx m token =
     (case blyt_resolve_lockview (surfaces ctx) token of None \<Rightarrow> ctx
      | Some i \<Rightarrow> ctx\<lparr>surfaces := blyt_surface_flush_lock M m i (surfaces ctx)\<rparr>)"

definition blyt_session_reap_surfaces :: "'m guest_ops \<Rightarrow> blyt_run_ctx \<Rightarrow> 'm \<Rightarrow> blyt_run_ctx \<times> 'm" where
  "blyt_session_reap_surfaces M ctx m = blyt_surface_reap_all M ctx m"

definition blyt_session_set_peer_heap :: "'m guest_ops \<Rightarrow> blyt_run_ctx \<Rightarrow> 'm \<Rightarrow> u32 \<Rightarrow> blyt_run_ctx \<times> 'm" where
  "blyt_session_set_peer_heap M ctx m n = mem_acct_publish_footprint M (ctx\<lparr>peer_heap := n\<rparr>) m"

definition blyt_session_cart_heap :: "'m guest_ops \<Rightarrow> blyt_run_ctx \<Rightarrow> 'm \<Rightarrow> u32" where
  "blyt_session_cart_heap M ctx m =
     (if mem_acct_vaddr ctx = 0 then 0
      else
        let used = mem_acct_read_u32 M m (mem_acct_vaddr ctx);
            baseline = mem_acct_read_u32 M m (mem_acct_vaddr ctx + 12)
        in if used > baseline then used - baseline else 0)"

definition blyt_session_resource_evict_all :: "'m guest_ops \<Rightarrow> blyt_run_ctx \<Rightarrow> 'm \<Rightarrow> nat \<times> blyt_run_ctx \<times> 'm" where
  "blyt_session_resource_evict_all M ctx m =
     (let (freed, t) = blyt_resource_table_evict_all_evictable (resources ctx)
      in (freed, mem_acct_publish_footprint M (ctx\<lparr>resources := t\<rparr>) m))"

definition blyt_session_expand_frame :: "blyt_run_ctx \<Rightarrow> u32 list" where
  "blyt_session_expand_frame ctx =
     (case sf_pixels (slots (surfaces ctx) ! 0) of None \<Rightarrow> []
      | Some px \<Rightarrow> map (\<lambda>i. palette ctx ! unat (px ! i)) [0..<nat BLYT_FRAME_W * nat BLYT_FRAME_H])"

section \<open>Well-formed registries\<close>

lemmas surface_consts = BLYT_SURFACE_MAX_def BLYT_SURFACE_LOCK_ARENA_BASE_def BLYT_SURFACE_LOCK_ARENA_SIZE_def
  BLYT_SURFACE_MAX_DIM_def BLYT_GFX_FB_BASE_def BLYT_FRAME_W_def BLYT_FRAME_H_def

definition slot_area :: "blyt_surface_slot \<Rightarrow> nat" where
  "slot_area s = (if sf_in_use s then nat (sf_w s * sf_h s) else 0)"

definition offscreen_area :: "blyt_surface_registry \<Rightarrow> nat" where
  "offscreen_area reg = sum_list (map slot_area (drop 1 (slots reg)))"

definition slot_wf :: "nat \<Rightarrow> blyt_surface_slot \<Rightarrow> bool" where
  "slot_wf i s \<longleftrightarrow>
     (sf_is_screen s \<longleftrightarrow> i = 0) \<and>
     (i = 0 \<longrightarrow> sf_in_use s \<and> \<not> sf_owned s \<and> sf_gen s = 0 \<and> sf_w s = 320 \<and> sf_h s = 240) \<and>
     (if sf_in_use s
      then 0 < sf_w s \<and> sf_w s \<le> 8192 \<and> 0 < sf_h s \<and> sf_h s \<le> 8192 \<and> (sf_owned s \<longleftrightarrow> i \<noteq> 0) \<and>
           (\<exists>p. sf_pixels s = Some p \<and> length p = nat (sf_w s * sf_h s))
      else sf_pixels s = None \<and> \<not> sf_owned s \<and> \<not> sf_locked s)"

text \<open>The part of the lock arena that a lock of the guest occupies, as offsets.\<close>

definition guest_locked :: "blyt_surface_slot \<Rightarrow> bool" where
  "guest_locked s \<longleftrightarrow> sf_locked s \<and> \<not> sf_lock_direct s"

definition lock_off :: "blyt_surface_slot \<Rightarrow> nat" where
  "lock_off s = unat (sf_lock_vaddr s) - 33554432"

definition lock_wf :: "u32 \<Rightarrow> blyt_surface_slot \<Rightarrow> bool" where
  "lock_wf bump s \<longleftrightarrow>
     (\<not> sf_locked s \<longrightarrow> \<not> sf_lock_direct s) \<and>
     (guest_locked s \<longrightarrow> 33554432 \<le> unat (sf_lock_vaddr s) \<and> unat (sf_lock_len s) = nat (sf_w s * sf_h s) \<and>
        lock_off s + unat (sf_lock_len s) \<le> unat bump)"

definition locks_apart :: "blyt_surface_slot \<Rightarrow> blyt_surface_slot \<Rightarrow> bool" where
  "locks_apart s t \<longleftrightarrow> (guest_locked s \<longrightarrow> guest_locked t \<longrightarrow>
     lock_off s + unat (sf_lock_len s) \<le> lock_off t \<or> lock_off t + unat (sf_lock_len t) \<le> lock_off s)"

definition reg_wf :: "blyt_surface_registry \<Rightarrow> bool" where
  "reg_wf reg \<longleftrightarrow>
     length (slots reg) = 64 \<and> (\<forall>i < 64. slot_wf i (slots reg ! i)) \<and>
     unat (surface_bytes reg) = offscreen_area reg \<and>
     active_locks reg = int (length (filter sf_locked (slots reg))) \<and>
     unat (lock_bump reg) \<le> 33554432 \<and> (\<forall>i < 64. lock_wf (lock_bump reg) (slots reg ! i)) \<and>
     (\<forall>i < 64. \<forall>j < 64. i \<noteq> j \<longrightarrow> locks_apart (slots reg ! i) (slots reg ! j))"

lemma reg_wfD:
  assumes "reg_wf reg"
  shows "length (slots reg) = 64" "i < 64 \<Longrightarrow> slot_wf i (slots reg ! i)" "unat (surface_bytes reg) = offscreen_area reg"
    "active_locks reg = int (length (filter sf_locked (slots reg)))" "unat (lock_bump reg) \<le> 33554432"
    "i < 64 \<Longrightarrow> lock_wf (lock_bump reg) (slots reg ! i)"
    "i < 64 \<Longrightarrow> j < 64 \<Longrightarrow> i \<noteq> j \<Longrightarrow> locks_apart (slots reg ! i) (slots reg ! j)"
  using assms by (auto simp: reg_wf_def)

lemma resolve_surface_Some:
  assumes "blyt_resolve_surface reg handle = Some i"
  shows "i < 64" "sf_in_use (slots reg ! i)" "sf_gen (slots reg ! i) = ucast (blyt_dyn_decode_gen handle)"
    "blyt_handle_is_surface handle" "i = unat (blyt_dyn_decode_index handle)"
  using assms by (auto simp: blyt_resolve_surface_def Let_def surface_consts split: if_splits)

lemma resolve_lockview_Some:
  assumes "blyt_resolve_lockview reg token = Some i"
  shows "i < 64" "sf_locked (slots reg ! i)" "sf_lock_gen (slots reg ! i) = ucast (blyt_dyn_decode_gen token)"
    "blyt_handle_is_lockview token" "i = unat (blyt_dyn_decode_index token)"
  using assms by (auto simp: blyt_resolve_lockview_def Let_def surface_consts split: if_splits)

lemma slot_wfD:
  assumes "slot_wf i s" "sf_in_use s"
  shows "0 < sf_w s" "sf_w s \<le> 8192" "0 < sf_h s" "sf_h s \<le> 8192" "\<exists>p. sf_pixels s = Some p \<and> length p = nat (sf_w s * sf_h s)"
  using assms by (auto simp: slot_wf_def)

text \<open>The 32-bit size of a surface is its area.\<close>

lemma area_bound:
  assumes "0 < w" "w \<le> 8192" "0 < h" "h \<le> (8192 :: int)"
  shows "0 < w * h" "w * h \<le> 67108864"
  using assms mult_mono [of w 8192 h 8192] by auto

lemma unat_area:
  assumes "0 < w" "w \<le> 8192" "0 < h" "h \<le> (8192 :: int)"
  shows "unat (of_int w * of_int h :: u32) = nat (w * h)"
proof -
  have "uint (of_int (w * h) :: u32) = take_bit 32 (w * h)" by (simp only: uint_word_of_int_eq len_num1 len_bit0) simp
  also have "take_bit 32 (w * h) = w * h" using area_bound [OF assms] by (intro take_bit_int_eq_self) auto
  finally have "unat (of_int (w * h) :: u32) = nat (w * h)" by (simp only: unat_eq_nat_uint)
  then show ?thesis by simp
qed

lemma surface_size_area: "slot_wf i s \<Longrightarrow> sf_in_use s \<Longrightarrow> unat (surface_size s) = nat (sf_w s * sf_h s)"
  unfolding surface_size_def by (rule unat_area) (auto dest: slot_wfD)

lemma slot_area_update:
  assumes "0 < i" "i < length (slots reg)"
  shows "offscreen_area (set_slot i s reg) + slot_area (slots reg ! i) = offscreen_area reg + slot_area s"
proof -
  have e: "drop 1 ((slots reg)[i := s]) = (drop 1 (slots reg))[i - 1 := s]"
    using assms by (simp add: drop_update_swap)
  have "sum_list ((map slot_area (drop 1 (slots reg)))[i - 1 := slot_area s]) =
      sum_list (map slot_area (drop 1 (slots reg))) + slot_area s - map slot_area (drop 1 (slots reg)) ! (i - 1)"
    using assms by (subst sum_list_update) auto
  moreover have "map slot_area (drop 1 (slots reg)) ! (i - 1) = slot_area (slots reg ! i)"
    using assms by simp
  moreover have "map slot_area (drop 1 (slots reg)) ! (i - 1) \<le> sum_list (map slot_area (drop 1 (slots reg)))"
    using assms by (intro elem_le_sum_list) simp
  ultimately show ?thesis unfolding offscreen_area_def set_slot_def using e by (simp add: map_update)
qed

lemma offscreen_area_slot0: "offscreen_area (set_slot 0 s reg) = offscreen_area reg"
  by (cases "slots reg") (simp_all add: offscreen_area_def set_slot_def)

lemma offscreen_area_same:
  assumes "i < length (slots reg)" "slot_area s = slot_area (slots reg ! i)"
  shows "offscreen_area (set_slot i s reg) = offscreen_area reg"
  using assms slot_area_update [of i reg s] offscreen_area_slot0 [of s reg] by (cases "i = 0") auto

lemma offscreen_area_fields [simp]:
  "offscreen_area (reg\<lparr>surface_bytes := b\<rparr>) = offscreen_area reg" "offscreen_area (reg\<lparr>lock_bump := u\<rparr>) = offscreen_area reg"
  "offscreen_area (reg\<lparr>active_locks := k\<rparr>) = offscreen_area reg"
  by (simp_all add: offscreen_area_def)

lemma set_slot_fields [simp]:
  "slots (set_slot i s reg) = (slots reg)[i := s]" "surface_bytes (set_slot i s reg) = surface_bytes reg"
  "lock_bump (set_slot i s reg) = lock_bump reg" "active_locks (set_slot i s reg) = active_locks reg"
  by (simp_all add: set_slot_def)

lemma sum_list_le_bound: "(\<And>a. a \<in> set xs \<Longrightarrow> a \<le> b) \<Longrightarrow> sum_list xs \<le> length xs * (b :: nat)"
  by (induction xs) (auto intro: add_mono)

lemma offscreen_area_bound:
  assumes "length (slots reg) = 64" "\<forall>i < 64. slot_wf i (slots reg ! i)"
  shows "offscreen_area reg \<le> 63 * 67108864"
proof -
  have "a \<le> 67108864" if "a \<in> set (map slot_area (drop 1 (slots reg)))" for a
  proof -
    from that obtain s where s: "s \<in> set (slots reg)" "a = slot_area s" by (auto dest: in_set_dropD)
    then obtain i where "i < 64" "slots reg ! i = s" using assms(1) by (auto simp: in_set_conv_nth)
    then have "slot_wf i s" using assms(2) by auto
    then have "sf_in_use s \<Longrightarrow> sf_w s * sf_h s \<le> 67108864" using area_bound(2) slot_wfD(1-4) by blast
    then show ?thesis unfolding s(2) slot_area_def by auto
  qed
  then have "sum_list (map slot_area (drop 1 (slots reg))) \<le> length (map slot_area (drop 1 (slots reg))) * 67108864"
    by (rule sum_list_le_bound)
  then show ?thesis using assms(1) by (simp add: offscreen_area_def)
qed

section \<open>Every operation keeps the registry well-formed\<close>

lemma length_filter_update:
  "i < length xs \<Longrightarrow> length (filter P (xs[i := y])) + (if P (xs ! i) then 1 else 0) = length (filter P xs) + (if P y then 1 else 0)"
proof (induction xs arbitrary: i)
  case (Cons x xs)
  then show ?case by (cases i) auto
qed simp

lemma locks_apart_sym: "locks_apart s t \<Longrightarrow> locks_apart t s"
  by (auto simp: locks_apart_def)

lemma reg_wf_update:
  assumes reg: "reg_wf reg" and i: "i < 64" and s: "slot_wf i s" "lock_wf u s"
    and b: "unat b = offscreen_area (set_slot i s reg)"
    and k: "k + (if sf_locked (slots reg ! i) then 1 else 0) = active_locks reg + (if sf_locked s then 1 else 0)"
    and u: "unat u \<le> 33554432" "\<And>j. j < 64 \<Longrightarrow> j \<noteq> i \<Longrightarrow> lock_wf u (slots reg ! j)"
    and apart: "\<And>j. j < 64 \<Longrightarrow> j \<noteq> i \<Longrightarrow> locks_apart s (slots reg ! j)"
  shows "reg_wf ((set_slot i s reg)\<lparr>surface_bytes := b, lock_bump := u, active_locks := k\<rparr>)"
proof -
  note wf = reg_wfD [OF reg]
  have "k = int (length (filter sf_locked ((slots reg)[i := s])))"
    using k length_filter_update [of i "slots reg" sf_locked s] i wf(1,4) by (auto split: if_splits)
  moreover have "slot_wf j ((slots reg)[i := s] ! j)" if "j < 64" for j
    using wf(1) wf(2) [OF that] s(1) i that by (cases "j = i") auto
  moreover have "lock_wf u ((slots reg)[i := s] ! j)" if "j < 64" for j
    using wf(1) u(2) [OF that] s(2) i that by (cases "j = i") auto
  moreover have "locks_apart ((slots reg)[i := s] ! j) ((slots reg)[i := s] ! l)" if "j < 64" "l < 64" "j \<noteq> l" for j l
    using wf(1) wf(7) [OF that] apart [of j] apart [of l] locks_apart_sym i that by (cases "j = i"; cases "l = i") auto
  ultimately show ?thesis unfolding reg_wf_def using wf(1) b u(1) by simp
qed

lemma registry_self:
  "r\<lparr>surface_bytes := surface_bytes r\<rparr> = r" "r\<lparr>lock_bump := lock_bump r\<rparr> = r" "r\<lparr>active_locks := active_locks r\<rparr> = r"
  "(set_slot i s r)\<lparr>surface_bytes := surface_bytes r\<rparr> = set_slot i s r"
  "(set_slot i s r)\<lparr>lock_bump := lock_bump r\<rparr> = set_slot i s r"
  "(set_slot i s r)\<lparr>active_locks := active_locks r\<rparr> = set_slot i s r"
  by (simp_all add: set_slot_def)

text \<open>Drawing: the pixels of one surface in use are replaced.\<close>

lemma reg_wf_pixels:
  assumes reg: "reg_wf reg" and i: "i < 64" "sf_in_use (slots reg ! i)"
    and q: "length q = nat (sf_w (slots reg ! i) * sf_h (slots reg ! i))"
  shows "reg_wf (set_slot i ((slots reg ! i)\<lparr>sf_pixels := Some q\<rparr>) reg)"
proof -
  let ?s = "slots reg ! i"
  note wf = reg_wfD [OF reg]
  have "slot_wf i (?s\<lparr>sf_pixels := Some q\<rparr>)" using wf(2) [OF i(1)] i(2) q by (auto simp: slot_wf_def)
  moreover have "lock_wf (lock_bump reg) (?s\<lparr>sf_pixels := Some q\<rparr>)"
    using wf(6) [OF i(1)] by (auto simp: lock_wf_def guest_locked_def lock_off_def)
  moreover have "locks_apart (?s\<lparr>sf_pixels := Some q\<rparr>) (slots reg ! j)" if "j < 64" "j \<noteq> i" for j
    using wf(7) [OF i(1) that(1)] that(2) by (simp add: locks_apart_def guest_locked_def lock_off_def)
  moreover have "offscreen_area (set_slot i (?s\<lparr>sf_pixels := Some q\<rparr>) reg) = offscreen_area reg"
    using i wf(1) by (intro offscreen_area_same) (simp_all add: slot_area_def)
  ultimately have "reg_wf ((set_slot i (?s\<lparr>sf_pixels := Some q\<rparr>) reg)
      \<lparr>surface_bytes := surface_bytes reg, lock_bump := lock_bump reg, active_locks := active_locks reg\<rparr>)"
    using reg wf i by (intro reg_wf_update) auto
  then show ?thesis by (simp add: registry_self set_slot_def)
qed

lemma unlocked_apart: "\<not> guest_locked s \<Longrightarrow> locks_apart s t"
  by (simp add: locks_apart_def)

lemma lock_wf_unlocked: "\<not> sf_locked s \<Longrightarrow> \<not> sf_lock_direct s \<Longrightarrow> lock_wf u s"
  by (simp add: lock_wf_def guest_locked_def)

lemma lock_wf_mono: "lock_wf u s \<Longrightarrow> unat u \<le> unat v \<Longrightarrow> lock_wf v s"
  by (auto simp: lock_wf_def)

lemma no_locks:
  assumes "reg_wf reg" "active_locks reg = (if sf_locked (slots reg ! i) then 1 else 0)" "i < 64" "j < 64" "j \<noteq> i"
  shows "\<not> sf_locked (slots reg ! j)"
proof
  note wf = reg_wfD [OF assms(1)]
  assume j: "sf_locked (slots reg ! j)"
  define s where "s = (slots reg ! i)\<lparr>sf_locked := False\<rparr>"
  have "length (filter sf_locked ((slots reg)[i := s])) = 0"
    using length_filter_update [of i "slots reg" sf_locked s] assms wf(1,4) by (auto simp: s_def split: if_splits)
  moreover have "slots reg ! j \<in> set ((slots reg)[i := s])"
    using assms wf(1) by (metis length_list_update nth_list_update_neq nth_mem)
  ultimately show False using j by (auto simp: filter_empty_conv)
qed

lemma reg_wf_flush:
  assumes mem: "guest_memory M" and reg: "reg_wf reg" and i: "i < 64"
  shows "reg_wf (blyt_surface_flush_lock M m i reg)"
proof (cases "sf_locked (slots reg ! i)")
  case True
  let ?s = "slots reg ! i"
  note wf = reg_wfD [OF reg]
  have use: "sf_in_use ?s" using wf(2) [OF i] True by (auto simp: slot_wf_def split: if_splits)
  then obtain p where p: "sf_pixels ?s = Some p" "length p = nat (sf_w ?s * sf_h ?s)"
    using slot_wfD(5) [OF wf(2) [OF i]] by auto
  define q where "q = (if \<not> sf_lock_phantom ?s \<and> \<not> sf_lock_direct ?s
    then memory_read M m (sf_lock_vaddr ?s) (unat (sf_lock_len ?s)) else p)"
  define t where "t = ?s\<lparr>sf_pixels := Some q, sf_locked := False, sf_lock_phantom := False, sf_lock_direct := False,
    sf_lock_gen := sf_lock_gen ?s + 1\<rparr>"
  define locks where "locks = active_locks reg - 1"
  have pos: "active_locks reg > 0"
    using True i wf(1,4) by (auto simp: filter_empty_conv dest!: nth_mem [of i])
  have e: "blyt_surface_flush_lock M m i reg = (set_slot i t reg)
      \<lparr>surface_bytes := surface_bytes reg, lock_bump := (if locks = 0 then 0 else lock_bump reg), active_locks := locks\<rparr>"
    using True p pos by (simp add: blyt_surface_flush_lock_def Let_def t_def q_def locks_def set_slot_def)
  have "length q = nat (sf_w ?s * sf_h ?s)"
  proof (cases "\<not> sf_lock_phantom ?s \<and> \<not> sf_lock_direct ?s")
    case guest: True
    then have "33554432 \<le> unat (sf_lock_vaddr ?s)" "unat (sf_lock_len ?s) = nat (sf_w ?s * sf_h ?s)"
      "lock_off ?s + unat (sf_lock_len ?s) \<le> unat (lock_bump reg)"
      using wf(6) [OF i] True by (auto simp: lock_wf_def guest_locked_def)
    moreover from this have "unat (sf_lock_vaddr ?s) + unat (sf_lock_len ?s) \<le> 268435456"
      using wf(5) by (simp add: lock_off_def)
    ultimately show ?thesis using mem guest by (simp add: q_def guest_memory_def)
  qed (auto simp: q_def p(2))
  then have "slot_wf i t" using wf(2) [OF i] use by (auto simp: slot_wf_def t_def)
  moreover have "lock_wf v t" for v by (rule lock_wf_unlocked) (simp_all add: t_def)
  moreover have "locks_apart t x" for x by (rule unlocked_apart) (simp add: t_def guest_locked_def)
  moreover have "offscreen_area (set_slot i t reg) = offscreen_area reg"
    using i wf(1) by (intro offscreen_area_same) (simp_all add: slot_area_def t_def)
  moreover have "lock_wf (if locks = 0 then 0 else lock_bump reg) (slots reg ! j)" if j: "j < 64" "j \<noteq> i" for j
  proof (cases "locks = 0")
    case z: True
    then have "\<not> sf_locked (slots reg ! j)" using no_locks [OF reg _ i j] True by (simp add: locks_def)
    then show ?thesis using wf(6) [OF j(1)] by (intro lock_wf_unlocked) (auto simp: lock_wf_def)
  qed (simp add: wf(6) [OF j(1)])
  ultimately show ?thesis unfolding e using wf reg i True
    by (intro reg_wf_update) (auto simp: locks_def t_def)
next
  case False
  then show ?thesis using reg by (simp add: blyt_surface_flush_lock_def)
qed

lemma reg_wf_free:
  assumes reg: "reg_wf reg" and i: "i < 64" and unlocked: "\<not> sf_locked (slots reg ! i)"
  shows "reg_wf (blyt_surface_free_slot i reg)"
proof (cases "\<not> sf_in_use (slots reg ! i) \<or> sf_is_screen (slots reg ! i)")
  case False
  let ?s = "slots reg ! i"
  note wf = reg_wfD [OF reg]
  have s: "slot_wf i ?s" "sf_in_use ?s" "i \<noteq> 0" "sf_owned ?s" "sf_pixels ?s \<noteq> None"
    using wf(2) [OF i] False by (auto simp: slot_wf_def split: if_splits)
  define t where "t = ?s\<lparr>sf_pixels := None, sf_in_use := False, sf_owned := False, sf_gen := sf_gen ?s + 1\<rparr>"
  have e: "blyt_surface_free_slot i reg = (set_slot i t reg)
      \<lparr>surface_bytes := surface_bytes reg - surface_size ?s, lock_bump := lock_bump reg, active_locks := active_locks reg\<rparr>"
    using False s(4,5) by (simp add: blyt_surface_free_slot_def Let_def t_def set_slot_def)
  have area: "offscreen_area (set_slot i t reg) + nat (sf_w ?s * sf_h ?s) = offscreen_area reg"
    using slot_area_update [of i reg t] s i wf(1) by (simp add: slot_area_def t_def)
  have size: "unat (surface_size ?s) = nat (sf_w ?s * sf_h ?s)" using s by (intro surface_size_area)
  have b: "unat (surface_bytes reg - surface_size ?s) = offscreen_area (set_slot i t reg)"
    using area size wf(3) by (subst unat_sub_small) (simp_all add: word_le_nat_alt)
  have "slot_wf i t" using s unlocked False by (auto simp: slot_wf_def t_def)
  moreover have nd: "\<not> sf_lock_direct ?s" using wf(6) [OF i] unlocked by (auto simp: lock_wf_def)
  moreover have "lock_wf v t" for v by (rule lock_wf_unlocked) (use unlocked nd in \<open>simp_all add: t_def\<close>)
  moreover have "locks_apart t x" for x by (rule unlocked_apart) (use unlocked in \<open>simp add: t_def guest_locked_def\<close>)
  ultimately show ?thesis unfolding e using wf reg i unlocked b by (intro reg_wf_update) (auto simp: t_def)
qed (use reg in \<open>simp add: blyt_surface_free_slot_def Let_def\<close>)

lemma flush_slots:
  "slots (blyt_surface_flush_lock M m i reg) ! j = (if j = i \<and> sf_locked (slots reg ! i) \<and> i < length (slots reg)
     then (slots reg ! i)\<lparr>sf_pixels := (if \<not> sf_lock_phantom (slots reg ! i) \<and> \<not> sf_lock_direct (slots reg ! i) \<and> sf_pixels (slots reg ! i) \<noteq> None
              then Some (memory_read M m (sf_lock_vaddr (slots reg ! i)) (unat (sf_lock_len (slots reg ! i)))) else sf_pixels (slots reg ! i)),
            sf_locked := False, sf_lock_phantom := False, sf_lock_direct := False, sf_lock_gen := sf_lock_gen (slots reg ! i) + 1\<rparr>
     else slots reg ! j)"
  by (cases "i < length (slots reg)") (auto simp: blyt_surface_flush_lock_def Let_def nth_list_update list_update_beyond not_less)

lemma free_slots:
  "slots (blyt_surface_free_slot i reg) ! j =
    (if j = i \<and> sf_in_use (slots reg ! i) \<and> \<not> sf_is_screen (slots reg ! i) \<and> i < length (slots reg)
     then (slots reg ! i)\<lparr>sf_pixels := None, sf_in_use := False, sf_owned := False, sf_gen := sf_gen (slots reg ! i) + 1\<rparr>
     else slots reg ! j)"
  by (cases "i < length (slots reg)") (auto simp: blyt_surface_free_slot_def Let_def nth_list_update list_update_beyond not_less)

lemma length_flush_free [simp]:
  "length (slots (blyt_surface_flush_lock M m i reg)) = length (slots reg)"
  "length (slots (blyt_surface_free_slot i reg)) = length (slots reg)"
  by (simp_all add: blyt_surface_flush_lock_def blyt_surface_free_slot_def Let_def)

lemma fold_flush:
  assumes "guest_memory M" "reg_wf reg" "set js \<subseteq> {..<64}"
  shows "reg_wf (fold (blyt_surface_flush_lock M m) js reg) \<and>
    (\<forall>j \<in> set js. \<not> sf_locked (slots (fold (blyt_surface_flush_lock M m) js reg) ! j)) \<and>
    (\<forall>j. \<not> sf_locked (slots reg ! j) \<longrightarrow> \<not> sf_locked (slots (fold (blyt_surface_flush_lock M m) js reg) ! j))"
  using assms(2,3)
proof (induction js arbitrary: reg)
  case (Cons i js)
  let ?reg = "blyt_surface_flush_lock M m i reg"
  have i: "i < 64" "i < length (slots reg)" using Cons.prems reg_wfD(1) by auto
  have u: "\<not> sf_locked (slots ?reg ! i)" using i by (simp add: flush_slots)
  have "\<not> sf_locked (slots reg ! j) \<Longrightarrow> \<not> sf_locked (slots ?reg ! j)" for j by (simp add: flush_slots)
  with Cons.IH [OF reg_wf_flush [OF assms(1) Cons.prems(1) i(1), of m]] Cons.prems(2) u show ?case by simp
qed simp

lemma fold_free:
  assumes "reg_wf reg" "set js \<subseteq> {..<64}" "\<forall>j < 64. \<not> sf_locked (slots reg ! j)"
  shows "reg_wf (fold blyt_surface_free_slot js reg) \<and> (\<forall>j < 64. \<not> sf_locked (slots (fold blyt_surface_free_slot js reg) ! j)) \<and>
    (\<forall>j \<in> set js. j \<noteq> 0 \<longrightarrow> \<not> sf_in_use (slots (fold blyt_surface_free_slot js reg) ! j)) \<and>
    (\<forall>j < 64. \<not> sf_in_use (slots reg ! j) \<longrightarrow> \<not> sf_in_use (slots (fold blyt_surface_free_slot js reg) ! j))"
  using assms
proof (induction js arbitrary: reg)
  case (Cons i js)
  let ?reg = "blyt_surface_free_slot i reg"
  have i: "i < 64" "i < length (slots reg)" using Cons.prems reg_wfD(1) by auto
  have l: "\<forall>j < 64. \<not> sf_locked (slots ?reg ! j)" using Cons.prems(3) i by (simp add: free_slots)
  have s: "sf_is_screen (slots reg ! i) \<longleftrightarrow> i = 0" using reg_wfD(2) [OF Cons.prems(1) i(1)] by (simp add: slot_wf_def)
  have f: "i \<noteq> 0 \<Longrightarrow> \<not> sf_in_use (slots ?reg ! i)" using i s by (auto simp: free_slots)
  have k: "\<not> sf_in_use (slots reg ! j) \<Longrightarrow> \<not> sf_in_use (slots ?reg ! j)" for j by (simp add: free_slots)
  note ih = Cons.IH [OF reg_wf_free [OF Cons.prems(1) i(1)] _ l]
  show ?case using ih Cons.prems i f k by auto
qed simp

lemma no_locks_reset:
  assumes "reg_wf reg" "\<forall>j < 64. \<not> sf_locked (slots reg ! j)"
  shows "reg_wf (reg\<lparr>lock_bump := 0, active_locks := 0\<rparr>)"
proof -
  note wf = reg_wfD [OF assms(1)]
  have "filter sf_locked (slots reg) = []" using assms(2) wf(1) by (auto simp: filter_empty_conv in_set_conv_nth)
  moreover have "lock_wf 0 (slots reg ! j)" if "j < 64" for j
    using wf(6) [OF that] assms(2) that by (intro lock_wf_unlocked) (auto simp: lock_wf_def)
  ultimately show ?thesis using assms(1) by (simp add: reg_wf_def)
qed

lemma publish_keeps:
  "mem_acct_publish_footprint M ctx m = (ctx', m') \<Longrightarrow>
   ctx' = ctx\<lparr>resources := resources ctx'\<rparr> \<and> (resources ctx' = resources ctx \<or>
     (\<exists>room. resources ctx' = snd (blyt_resource_table_evict_to_fit (resources ctx) room)))"
  by (auto simp: mem_acct_publish_footprint_def Let_def split: if_splits prod.splits) (metis snd_conv)+

lemma publish_surfaces: "mem_acct_publish_footprint M ctx m = (ctx', m') \<Longrightarrow> surfaces ctx' = surfaces ctx"
  by (auto simp: mem_acct_publish_footprint_def Let_def split: if_splits prod.splits)

lemma reap_effect:
  assumes mem: "guest_memory M" and reg: "reg_wf (surfaces ctx)" and e: "blyt_surface_reap_all M ctx m = (ctx', m')"
  shows "reg_wf (surfaces ctx')" "\<And>i. 0 < i \<Longrightarrow> i < 64 \<Longrightarrow> \<not> sf_in_use (slots (surfaces ctx') ! i)"
    "\<And>i. i < 64 \<Longrightarrow> \<not> sf_locked (slots (surfaces ctx') ! i)" "surface_bytes (surfaces ctx') = 0"
proof -
  define r1 where "r1 = fold (blyt_surface_flush_lock M m) [0..<64] (surfaces ctx)"
  define r2 where "r2 = fold blyt_surface_free_slot [1..<64] r1"
  have r: "surfaces ctx' = r2\<lparr>lock_bump := 0, active_locks := 0\<rparr>"
    using e publish_surfaces by (fastforce simp: blyt_surface_reap_all_def Let_def r1_def r2_def BLYT_SURFACE_MAX_def)
  have 1: "reg_wf r1" "\<forall>j < 64. \<not> sf_locked (slots r1 ! j)"
    using fold_flush [OF mem reg, of "[0..<64]" m] by (auto simp: r1_def lessThan_atLeast0)
  have 2: "reg_wf r2" "\<forall>j < 64. \<not> sf_locked (slots r2 ! j)" "\<forall>j < 64. j \<noteq> 0 \<longrightarrow> \<not> sf_in_use (slots r2 ! j)"
    using fold_free [OF 1(1) _ 1(2), of "[1..<64]"] by (auto simp: r2_def lessThan_atLeast0 subset_iff)
  show "reg_wf (surfaces ctx')" unfolding r by (rule no_locks_reset) (use 2 in auto)
  show "\<And>i. 0 < i \<Longrightarrow> i < 64 \<Longrightarrow> \<not> sf_in_use (slots (surfaces ctx') ! i)"
    "\<And>i. i < 64 \<Longrightarrow> \<not> sf_locked (slots (surfaces ctx') ! i)" using 2 by (simp_all add: r)
  have "slot_area s = 0" if "s \<in> set (drop 1 (slots r2))" for s
  proof -
    from that obtain j where "j < 63" "s = slots r2 ! (1 + j)" using reg_wfD(1) [OF 2(1)] by (auto simp: in_set_conv_nth)
    then show ?thesis using 2(3) by (simp add: slot_area_def)
  qed
  then have "offscreen_area r2 = 0" by (simp add: offscreen_area_def)
  then show "surface_bytes (surfaces ctx') = 0" using reg_wfD(3) [OF 2(1)] by (simp add: r unat_eq_0)
qed

lemma free_index_spec:
  assumes "free_index reg \<noteq> 0"
  shows "0 < free_index reg \<and> free_index reg < 64 \<and> \<not> sf_in_use (slots reg ! free_index reg)"
proof -
  from assms obtain i where i: "find (\<lambda>i. \<not> sf_in_use (slots reg ! i)) [1..<BLYT_SURFACE_MAX] = Some i" "free_index reg = i"
    by (auto simp: free_index_def split: option.splits)
  then have "i \<in> set [1..<BLYT_SURFACE_MAX]" "\<not> sf_in_use (slots reg ! i)" by (auto simp: find_Some_iff in_set_conv_nth)
  then show ?thesis using i(2) by (auto simp: BLYT_SURFACE_MAX_def)
qed

lemma create_cases:
  assumes "blyt_surface_create_slot M env ctx m w h = (handle, ctx', m')"
  obtains "handle = BLYT_HANDLE_NONE" "ctx' = ctx" "m' = m"
  | i where "0 < w" "w \<le> 8192" "0 < h" "h \<le> 8192"
      "blyt_mem_alloc_fits (mem_acct_guest_heap_used M ctx m) (ctx_non_evictable_footprint ctx) (of_int w * of_int h)"
      "0 < i" "i < 64" "\<not> sf_in_use (slots (surfaces ctx) ! i)"
      "handle = blyt_surface_encode (ucast (sf_gen (slots (surfaces ctx) ! i))) (of_nat i)"
      "surfaces ctx' = (set_slot i ((slots (surfaces ctx) ! i)\<lparr>sf_pixels := Some (replicate (nat (w * h)) 0), sf_w := w, sf_h := h,
         sf_in_use := True, sf_is_screen := False, sf_owned := True\<rparr>) (surfaces ctx))\<lparr>surface_bytes := surface_bytes (surfaces ctx) + of_int w * of_int h\<rparr>"
proof (cases "w \<le> 0 \<or> h \<le> 0 \<or> w > 8192 \<or> h > 8192 \<or>
    \<not> blyt_mem_alloc_fits (mem_acct_guest_heap_used M ctx m) (ctx_non_evictable_footprint ctx) (of_int w * of_int h) \<or>
    free_index (surfaces ctx) = 0 \<or> \<not> alloc_ok env (unat (of_int w * of_int h :: u32))")
  case True
  then have "blyt_surface_create_slot M env ctx m w h = (BLYT_HANDLE_NONE, ctx, m)"
    by (auto simp: blyt_surface_create_slot_def Let_def surface_consts cong: if_cong)
  then show ?thesis using assms that(1) by simp
next
  case False
  then have d: "0 < w" "w \<le> 8192" "0 < h" "h \<le> 8192" by auto
  let ?i = "free_index (surfaces ctx)"
  have i: "0 < ?i" "?i < 64" "\<not> sf_in_use (slots (surfaces ctx) ! ?i)" using False free_index_spec by auto
  show ?thesis
  proof (rule that(2) [OF d _ i])
    show "handle = blyt_surface_encode (ucast (sf_gen (slots (surfaces ctx) ! ?i))) (of_nat ?i)"
      using assms False by (auto simp: blyt_surface_create_slot_def Let_def surface_consts split: prod.splits)
    show "surfaces ctx' = (set_slot ?i ((slots (surfaces ctx) ! ?i)\<lparr>sf_pixels := Some (replicate (nat (w * h)) 0), sf_w := w, sf_h := h,
         sf_in_use := True, sf_is_screen := False, sf_owned := True\<rparr>) (surfaces ctx))\<lparr>surface_bytes := surface_bytes (surfaces ctx) + of_int w * of_int h\<rparr>"
      using assms False unat_area [OF d]
      by (auto simp: blyt_surface_create_slot_def Let_def surface_consts dest!: publish_surfaces split: prod.splits)
  qed (use False in auto)
qed

lemma reg_wf_create:
  assumes reg: "reg_wf (surfaces ctx)" and e: "blyt_surface_create_slot M env ctx m w h = (handle, ctx', m')"
  shows "reg_wf (surfaces ctx')"
  using e
proof (cases rule: create_cases)
  case 1
  then show ?thesis using reg by simp
next
  case (2 i)
  let ?reg = "surfaces ctx" and ?s = "slots (surfaces ctx) ! i"
  define t where "t = ?s\<lparr>sf_pixels := Some (replicate (nat (w * h)) 0), sf_w := w, sf_h := h,
    sf_in_use := True, sf_is_screen := False, sf_owned := True\<rparr>"
  note wf = reg_wfD [OF reg]
  have s: "\<not> sf_locked ?s" using wf(2) [OF 2(7)] 2(8) by (simp add: slot_wf_def)
  have "\<not> sf_lock_direct ?s" using wf(6) [OF 2(7)] s by (simp add: lock_wf_def)
  then have lock: "lock_wf u t" for u by (intro lock_wf_unlocked) (simp_all add: t_def s)
  have t: "slot_wf i t" using 2(1-4,6) by (auto simp: slot_wf_def t_def)
  have area: "offscreen_area (set_slot i t ?reg) = offscreen_area ?reg + nat (w * h)"
    using slot_area_update [of i ?reg t] 2 wf(1) by (simp add: slot_area_def t_def)
  have "length (slots (set_slot i t ?reg)) = 64" "\<forall>j < 64. slot_wf j (slots (set_slot i t ?reg) ! j)"
    using wf(1,2) t 2(7) by (auto simp: nth_list_update)
  then have "offscreen_area (set_slot i t ?reg) \<le> 63 * 67108864" by (rule offscreen_area_bound)
  then have b: "unat (surface_bytes ?reg + of_int w * of_int h) = offscreen_area (set_slot i t ?reg)"
    using area wf(3) unat_area [OF 2(1-4)] by (subst unat_add_small) simp_all
  have "reg_wf ((set_slot i t ?reg)\<lparr>surface_bytes := surface_bytes ?reg + of_int w * of_int h, lock_bump := lock_bump ?reg,
      active_locks := active_locks ?reg\<rparr>)"
    using reg wf 2 s t b lock by (intro reg_wf_update) (auto simp: t_def locks_apart_def guest_locked_def)
  moreover have "surfaces ctx' = (set_slot i t ?reg)\<lparr>surface_bytes := surface_bytes ?reg + of_int w * of_int h, lock_bump := lock_bump ?reg,
      active_locks := active_locks ?reg\<rparr>" using 2(10) by (simp add: t_def set_slot_def)
  ultimately show ?thesis by simp
qed

lemma lock_aligned_bounds:
  assumes "unat len \<le> 67108864"
  shows "unat len \<le> unat (lock_aligned len)" "unat (lock_aligned len) \<le> unat len + 3"
proof -
  have s: "unat (len + 3) = unat len + 3" using assms by (subst unat_add_small) simp_all
  have "(3 :: u32) = mask 2" by (simp add: mask_eq_exp_minus_1)
  then have "unat (lock_aligned len) = (unat len + 3) div 4 * 4"
    unfolding lock_aligned_def by (simp only: and_not_mask_unat s [symmetric]) simp
  then show "unat len \<le> unat (lock_aligned len)" "unat (lock_aligned len) \<le> unat len + 3" by simp_all
qed

text \<open>A successful acquire of the guest, and what it does to the registry and the memory.\<close>

definition acquired :: "nat \<Rightarrow> bool \<Rightarrow> blyt_surface_registry \<Rightarrow> blyt_surface_registry" where
  "acquired i clear_only reg =
     (set_slot i ((slots reg ! i)\<lparr>sf_locked := True, sf_lock_phantom := clear_only,
        sf_lock_vaddr := BLYT_SURFACE_LOCK_ARENA_BASE + lock_bump reg, sf_lock_len := surface_size (slots reg ! i)\<rparr>) reg)
     \<lparr>lock_bump := lock_bump reg + lock_aligned (surface_size (slots reg ! i)), active_locks := active_locks reg + 1\<rparr>"

definition lock_fits :: "nat \<Rightarrow> blyt_surface_registry \<Rightarrow> bool" where
  "lock_fits i reg \<longleftrightarrow> unat (lock_bump reg) + unat (lock_aligned (surface_size (slots reg ! i))) \<le> 33554432"

lemma acquire_cases:
  assumes "blyt_surface_acquire_lock M ctx m handle out_vaddr clear_only = (ok, ctx', m')"
  obtains "\<not> ok" "ctx' = ctx" "m' = memory_write M m out_vaddr (replicate 20 0)"
      "\<And>i. blyt_resolve_surface (surfaces ctx) handle = Some i \<Longrightarrow> sf_locked (slots (surfaces ctx) ! i) \<or> \<not> lock_fits i (surfaces ctx)"
  | i where "ok" "blyt_resolve_surface (surfaces ctx) handle = Some i" "\<not> sf_locked (slots (surfaces ctx) ! i)"
      "lock_fits i (surfaces ctx)" "ctx' = ctx\<lparr>surfaces := acquired i clear_only (surfaces ctx)\<rparr>"
      "m' = memory_write M (if clear_only then guest_memzero M m (BLYT_SURFACE_LOCK_ARENA_BASE + lock_bump (surfaces ctx)) (surface_size (slots (surfaces ctx) ! i))
              else memory_write M m (BLYT_SURFACE_LOCK_ARENA_BASE + lock_bump (surfaces ctx))
                (case sf_pixels (slots (surfaces ctx) ! i) of Some p \<Rightarrow> take (unat (surface_size (slots (surfaces ctx) ! i))) p | None \<Rightarrow> []))
            out_vaddr (write_u32_le (BLYT_SURFACE_LOCK_ARENA_BASE + lock_bump (surfaces ctx)) @ write_u32_le (of_int (sf_w (slots (surfaces ctx) ! i))) @
              write_u32_le (of_int (sf_w (slots (surfaces ctx) ! i))) @ write_u32_le (of_int (sf_h (slots (surfaces ctx) ! i))) @
              write_u32_le (blyt_lockview_encode (ucast (sf_lock_gen (slots (surfaces ctx) ! i))) (blyt_dyn_decode_index handle)))"
proof (cases "blyt_resolve_surface (surfaces ctx) handle")
  case None
  then show ?thesis using assms that(1) by (auto simp: blyt_surface_acquire_lock_def Let_def)
next
  case (Some i)
  have fits: "(ucast (lock_bump (surfaces ctx)) + ucast (lock_aligned (surface_size (slots (surfaces ctx) ! i))) :: u64)
      > ucast BLYT_SURFACE_LOCK_ARENA_SIZE \<longleftrightarrow> \<not> lock_fits i (surfaces ctx)"
    by (simp add: word_less_nat_alt unat_u64_sum2 lock_fits_def not_le BLYT_SURFACE_LOCK_ARENA_SIZE_def)
  show ?thesis
  proof (cases "sf_locked (slots (surfaces ctx) ! i) \<or> \<not> lock_fits i (surfaces ctx)")
    case True
    with fits have "blyt_surface_acquire_lock M ctx m handle out_vaddr clear_only = (False, ctx, memory_write M m out_vaddr (replicate 20 0))"
      using Some by (auto simp: blyt_surface_acquire_lock_def Let_def)
    then show ?thesis using assms that(1) Some True by auto
  next
    case False
    note no = False [folded fits, unfolded de_Morgan_disj]
    show ?thesis
    proof (rule that(2) [OF _ Some])
      show "ok" "ctx' = ctx\<lparr>surfaces := acquired i clear_only (surfaces ctx)\<rparr>"
        using assms no by (auto simp: blyt_surface_acquire_lock_def Let_def Some acquired_def)
      show "\<not> sf_locked (slots (surfaces ctx) ! i)" "lock_fits i (surfaces ctx)" using False by auto
    qed (use assms no in \<open>auto simp: blyt_surface_acquire_lock_def Let_def Some\<close>)
  qed
qed

lemma acquired_region:
  assumes reg: "reg_wf reg" and i: "i < 64" "sf_in_use (slots reg ! i)" and fits: "lock_fits i reg"
  shows "unat (BLYT_SURFACE_LOCK_ARENA_BASE + lock_bump reg) = 33554432 + unat (lock_bump reg)"
    "unat (surface_size (slots reg ! i)) = nat (sf_w (slots reg ! i) * sf_h (slots reg ! i))"
    "unat (lock_bump reg) + unat (surface_size (slots reg ! i)) \<le> unat (lock_bump reg + lock_aligned (surface_size (slots reg ! i)))"
    "unat (lock_bump reg + lock_aligned (surface_size (slots reg ! i))) \<le> 33554432"
    "unat (lock_bump reg) \<le> unat (lock_bump reg + lock_aligned (surface_size (slots reg ! i)))"
proof -
  note wf = reg_wfD [OF reg]
  let ?len = "surface_size (slots reg ! i)"
  show "unat (BLYT_SURFACE_LOCK_ARENA_BASE + lock_bump reg) = 33554432 + unat (lock_bump reg)"
    using wf(5) by (subst unat_add_small) (simp_all add: surface_consts)
  show size: "unat ?len = nat (sf_w (slots reg ! i) * sf_h (slots reg ! i))" using wf(2) i by (intro surface_size_area)
  have b: "unat (lock_bump reg + lock_aligned ?len) = unat (lock_bump reg) + unat (lock_aligned ?len)"
    using fits by (intro unat_add_small) (simp add: lock_fits_def)
  have "unat ?len \<le> 67108864"
    unfolding size using area_bound [OF slot_wfD(1-4) [OF wf(2) [OF i(1)] i(2)]] by simp
  from lock_aligned_bounds(1) [OF this] b
  show "unat (lock_bump reg) + unat ?len \<le> unat (lock_bump reg + lock_aligned ?len)"
    "unat (lock_bump reg) \<le> unat (lock_bump reg + lock_aligned ?len)" by simp_all
  show "unat (lock_bump reg + lock_aligned ?len) \<le> 33554432" using b fits by (simp add: lock_fits_def)
qed

lemma reg_wf_acquired:
  assumes reg: "reg_wf reg" and i: "i < 64" "sf_in_use (slots reg ! i)" "\<not> sf_locked (slots reg ! i)" and fits: "lock_fits i reg"
  shows "reg_wf (acquired i clear_only reg)"
proof -
  note wf = reg_wfD [OF reg] and r = acquired_region [OF reg i(1,2) fits]
  let ?s = "slots reg ! i" and ?bump = "lock_bump reg + lock_aligned (surface_size (slots reg ! i))"
  define t where "t = ?s\<lparr>sf_locked := True, sf_lock_phantom := clear_only,
    sf_lock_vaddr := BLYT_SURFACE_LOCK_ARENA_BASE + lock_bump reg, sf_lock_len := surface_size ?s\<rparr>"
  have nd: "\<not> sf_lock_direct ?s" using wf(6) [OF i(1)] i(3) by (simp add: lock_wf_def)
  have off: "lock_off t = unat (lock_bump reg)" using r(1) by (simp add: lock_off_def t_def)
  have "slot_wf i t" using wf(2) [OF i(1)] i(2) by (auto simp: slot_wf_def t_def)
  moreover have "lock_wf ?bump t" using r(1-3) off by (simp add: lock_wf_def t_def)
  moreover have "lock_wf ?bump (slots reg ! j)" if "j < 64" for j using wf(6) [OF that] r(5) by (rule lock_wf_mono)
  moreover have "locks_apart t (slots reg ! j)" if "j < 64" for j
    using wf(6) [OF that] off by (auto simp: locks_apart_def lock_wf_def)
  moreover have "offscreen_area (set_slot i t reg) = offscreen_area reg"
    using i wf(1) by (intro offscreen_area_same) (simp_all add: slot_area_def t_def)
  ultimately have "reg_wf ((set_slot i t reg)\<lparr>surface_bytes := surface_bytes reg, lock_bump := ?bump, active_locks := active_locks reg + 1\<rparr>)"
    using reg wf i r(4) by (intro reg_wf_update) (auto simp: t_def)
  then show ?thesis by (simp add: acquired_def t_def set_slot_def)
qed

lemma reg_wf_direct:
  assumes reg: "reg_wf (surfaces ctx)" and e: "blyt_session_surface_acquire ctx handle = (r, ctx')"
  shows "reg_wf (surfaces ctx')"
proof (cases r)
  case None
  then show ?thesis using e reg
    by (auto simp: blyt_session_surface_acquire_def Let_def split: option.splits if_splits)
next
  case (Some x)
  then obtain i where i: "blyt_resolve_surface (surfaces ctx) handle = Some i" "\<not> sf_locked (slots (surfaces ctx) ! i)"
    using e by (auto simp: blyt_session_surface_acquire_def Let_def split: option.splits if_splits)
  let ?reg = "surfaces ctx" and ?s = "slots (surfaces ctx) ! i"
  note wf = reg_wfD [OF reg] and res = resolve_surface_Some [OF i(1)]
  define t where "t = ?s\<lparr>sf_locked := True, sf_lock_phantom := False, sf_lock_direct := True, sf_lock_vaddr := 0, sf_lock_len := 0\<rparr>"
  have l: "lock_wf u t" "locks_apart t x" for u x by (simp_all add: t_def lock_wf_def guest_locked_def locks_apart_def)
  have "slot_wf i t" using wf(2) [OF res(1)] res(2) by (auto simp: slot_wf_def t_def)
  moreover have "offscreen_area (set_slot i t ?reg) = offscreen_area ?reg"
    using res(1) wf(1) by (intro offscreen_area_same) (simp_all add: slot_area_def t_def)
  ultimately have "reg_wf ((set_slot i t ?reg)\<lparr>surface_bytes := surface_bytes ?reg, lock_bump := lock_bump ?reg,
      active_locks := active_locks ?reg + 1\<rparr>)"
    using reg wf res i(2) l by (intro reg_wf_update) (auto simp: t_def)
  moreover have "surfaces ctx' = (set_slot i t ?reg)\<lparr>surface_bytes := surface_bytes ?reg, lock_bump := lock_bump ?reg,
      active_locks := active_locks ?reg + 1\<rparr>"
    using e i by (auto simp: blyt_session_surface_acquire_def Let_def t_def set_slot_def)
  ultimately show ?thesis by simp
qed

lemma init_surfaces_wf:
  assumes "length pixels = 76800"
  shows "reg_wf (init_surfaces pixels)"
proof -
  let ?sl = "slots (init_surfaces pixels)"
  have n: "?sl ! i = (if i = 0 then empty_slot\<lparr>sf_pixels := Some pixels, sf_w := 320, sf_h := 240, sf_gen := 0, sf_in_use := True,
      sf_is_screen := True, sf_owned := False\<rparr> else empty_slot)" if "i < 64" for i
    using that by (cases i) (simp_all add: init_surfaces_def surface_consts)
  have l: "length ?sl = 64" by (simp add: init_surfaces_def surface_consts)
  have u: "\<not> sf_locked (?sl ! i)" "\<not> sf_lock_direct (?sl ! i)" if "i < 64" for i using n [OF that] by (simp_all add: empty_slot_def)
  have "slot_wf i (?sl ! i)" if "i < 64" for i
    using n [OF that] assms by (auto simp: slot_wf_def empty_slot_def)
  moreover have "filter sf_locked ?sl = []" using u(1) l by (auto simp: filter_empty_conv in_set_conv_nth)
  moreover have "offscreen_area (init_surfaces pixels) = 0"
  proof -
    have "slot_area s = 0" if "s \<in> set (drop 1 ?sl)" for s
    proof -
      from that obtain j where "j < 63" "s = ?sl ! (1 + j)" using l by (auto simp: in_set_conv_nth)
      then show ?thesis using n [of "1 + j"] by (simp add: slot_area_def empty_slot_def)
    qed
    then show ?thesis by (simp add: offscreen_area_def)
  qed
  ultimately show ?thesis using l u
    by (auto simp: reg_wf_def init_surfaces_def [of pixels] intro!: lock_wf_unlocked unlocked_apart simp: guest_locked_def)
qed

section \<open>Guest memory as flat bytes\<close>

lemma mem_read_cong: "(\<And>x. i \<le> x \<Longrightarrow> x < i + n \<Longrightarrow> f x = g x) \<Longrightarrow> mem_read f i n = mem_read g i n"
  by (simp add: mem_read_def)

lemma guest_read:
  "guest_memory M \<Longrightarrow> unat a + n \<le> 268435456 \<Longrightarrow> memory_read M m a n = mem_read (guest_bytes M m) (unat a) n"
  by (simp add: guest_memory_def)

lemma guest_write:
  assumes "guest_memory M" "unat a + length bs \<le> 268435456" "i + n \<le> 268435456"
  shows "mem_read (guest_bytes M (memory_write M m a bs)) i n = mem_read (mem_write (guest_bytes M m) (unat a) bs) i n"
  by (rule mem_read_cong) (use assms in \<open>simp add: guest_memory_def\<close>)

lemma guest_read_same:
  "guest_memory M \<Longrightarrow> unat a + length bs \<le> 268435456 \<Longrightarrow> n = length bs \<Longrightarrow> memory_read M (memory_write M m a bs) a n = bs"
  by (simp add: guest_read guest_write)

lemma guest_read_other:
  assumes "guest_memory M" "unat a + length bs \<le> 268435456" "unat b + n \<le> 268435456"
    "unat b + n \<le> unat a \<or> unat a + length bs \<le> unat b"
  shows "memory_read M (memory_write M m a bs) b n = memory_read M m b n"
  using assms mem_read_write_other [of "unat b" n "unat a" bs "guest_bytes M m"] by (simp add: guest_read guest_write)

lemma guest_read_slice:
  assumes "guest_memory M" "unat a + length bs \<le> 268435456" "unat b = unat a + k" "k + n \<le> length bs"
  shows "memory_read M (memory_write M m a bs) b n = slice k n bs"
proof -
  have "memory_read M (memory_write M m a bs) b n = mem_read (mem_write (guest_bytes M m) (unat a) bs) (unat a + k) n"
    using assms by (simp add: guest_read guest_write)
  also have "\<dots> = slice k n (mem_read (mem_write (guest_bytes M m) (unat a) bs) (unat a) (length bs))"
    using assms(4) by (rule slice_mem_read [symmetric])
  finally show ?thesis by simp
qed

lemma write_u32_le_bytes: "write_u32_le v = le_bytes 4 v"
  by (simp add: write_u32_le_def eval_nat_numeral)

lemma le_of_four: "length b = 4 \<Longrightarrow>
    ucast (b ! 0) OR push_bit 8 (ucast (b ! 1)) OR push_bit 16 (ucast (b ! 2)) OR push_bit 24 (ucast (b ! 3)) = (le_of b :: u32)"
proof -
  assume "length b = 4"
  then obtain x y z w where "b = [x, y, z, w]" by (auto simp: eval_nat_numeral length_Suc_conv)
  then show ?thesis by (simp add: eval_nat_numeral push_bit_or)
qed

lemma length_guest_read: "guest_memory M \<Longrightarrow> unat a + n \<le> 268435456 \<Longrightarrow> length (memory_read M m a n) = n"
  by (simp add: guest_read)

lemma read_u32_le_of:
  "guest_memory M \<Longrightarrow> unat a + 4 \<le> 268435456 \<Longrightarrow> mem_acct_read_u32 M m a = le_of (memory_read M m a 4)"
  unfolding mem_acct_read_u32_def Let_def by (rule le_of_four) (simp add: length_guest_read)

lemma guest_memzero_loop_effect:
  assumes mem: "guest_memory M" and r: "unat vaddr + unat len \<le> 268435456"
  shows "off \<le> len \<Longrightarrow> (\<And>x. x < 268435456 \<Longrightarrow> guest_bytes M m x = mem_write b (unat vaddr) (replicate (unat off) 0) x) \<Longrightarrow>
      x < 268435456 \<Longrightarrow> guest_bytes M (guest_memzero_loop M vaddr len off m) x = mem_write b (unat vaddr) (replicate (unat len) 0) x"
proof (induction "unat len - unat off" arbitrary: off m rule: less_induct)
  case less
  show ?case
  proof (cases "off < len")
    case True
    define k where "k = (if len - off > 4096 then 4096 else len - off)"
    have k: "k \<le> len - off" "0 < k" using True by (auto simp: k_def word_less_nat_alt word_le_nat_alt unat_sub_small)
    then have kl: "unat off + unat k \<le> unat len" using True
      by (simp add: word_le_nat_alt word_less_nat_alt unat_sub_small)
    then have s: "unat (off + k) = unat off + unat k" using unat_u32_lt [of len] by (intro unat_add_small) simp
    have a: "unat (vaddr + off) = unat vaddr + unat off" using r kl by (intro unat_add_small) simp
    let ?m = "memory_write M m (vaddr + off) (replicate (unat k) 0)"
    have "guest_bytes M ?m y = mem_write b (unat vaddr) (replicate (unat (off + k)) 0) y" if y: "y < 268435456" for y
    proof -
      have "guest_bytes M ?m y = mem_write (guest_bytes M m) (unat vaddr + unat off) (replicate (unat k) 0) y"
        using mem y r kl a by (simp add: guest_memory_def)
      also have "\<dots> = mem_write b (unat vaddr) (replicate (unat (off + k)) 0) y"
        using less.prems(2) [OF y] s by (auto simp: mem_write_def)
      finally show ?thesis .
    qed
    moreover have "unat len - unat (off + k) < unat len - unat off"
      using True k(2) s by (simp add: word_less_nat_alt)
    moreover have "off + k \<le> len" using kl s by (simp add: word_le_nat_alt)
    ultimately have "guest_bytes M (guest_memzero_loop M vaddr len (off + k) ?m) x = mem_write b (unat vaddr) (replicate (unat len) 0) x"
      using less.prems(3) by (intro less.hyps)
    then show ?thesis using True by (subst guest_memzero_loop.simps) (simp add: k_def Let_def)
  next
    case False
    then have "off = len" using less.prems(1) by simp
    then show ?thesis using less.prems False by (subst guest_memzero_loop.simps) simp
  qed
qed

lemma guest_memzero_read:
  assumes "guest_memory M" "unat vaddr + unat len \<le> 268435456" "i + n \<le> 268435456"
  shows "mem_read (guest_bytes M (guest_memzero M m vaddr len)) i n =
    mem_read (mem_write (guest_bytes M m) (unat vaddr) (replicate (unat len) 0)) i n"
  unfolding guest_memzero_def
  by (rule mem_read_cong, rule guest_memzero_loop_effect [OF assms(1,2)]) (use assms(3) in \<open>auto simp: mem_write_def\<close>)

section \<open>Handles of slots\<close>

lemma gen16_field: "ucast ((ucast (g :: u16) :: u32) AND 0x1FFFF) = g"
  by (rule bit_word_eqI) (auto simp: bit_simps handle_masks)

lemma index_field: "(i :: nat) < 64 \<Longrightarrow> unat (of_nat i AND 0xFFF :: u32) = i"
proof -
  assume "i < 64"
  moreover from this have "of_nat i AND 0xFFF = (of_nat i :: u32)"
    by (intro handle_field_small) (simp add: word_less_nat_alt unsigned_of_nat take_bit_nat_eq_self)
  ultimately show ?thesis by (simp add: unsigned_of_nat take_bit_nat_eq_self)
qed

lemma surface_handle:
  assumes "i < 64"
  shows "blyt_handle_is_surface (blyt_surface_encode (ucast (g :: u16)) (of_nat i))"
    "unat (blyt_dyn_decode_index (blyt_surface_encode (ucast g) (of_nat i))) = i"
    "ucast (blyt_dyn_decode_gen (blyt_surface_encode (ucast g) (of_nat i))) = g"
  using assms by (simp_all add: blyt_surface_encode_def handle_is_defs handle_consts gen16_field index_field)

lemma lockview_token:
  assumes "unat ix < 64"
  shows "blyt_handle_is_lockview (blyt_lockview_encode (ucast (g :: u16)) ix)"
    "unat (blyt_dyn_decode_index (blyt_lockview_encode (ucast g) ix)) = unat ix"
    "ucast (blyt_dyn_decode_gen (blyt_lockview_encode (ucast g) ix)) = g"
  using assms index_field [OF assms] by (simp_all add: blyt_lockview_encode_def handle_is_defs handle_consts gen16_field)

section \<open>Coherence of pixel locks\<close>

text \<open>What a successful acquire leaves in guest memory: the lock structure and the pixels it points to.\<close>

lemma acquire_memory:
  assumes mem: "guest_memory M" and reg: "reg_wf (surfaces ctx)"
    and out: "unat out_vaddr + 20 \<le> 268435456" "unat out_vaddr + 20 \<le> 33554432 \<or> 67108864 \<le> unat out_vaddr"
    and acq: "blyt_surface_acquire_lock M ctx m handle out_vaddr clear_only = (True, ctx1, m1)"
  obtains i p where "blyt_resolve_surface (surfaces ctx) handle = Some i" "sf_pixels (slots (surfaces ctx) ! i) = Some p"
    "\<not> sf_locked (slots (surfaces ctx) ! i)" "unat (surface_size (slots (surfaces ctx) ! i)) = length p"
    "surfaces ctx1 = acquired i clear_only (surfaces ctx)"
    "mem_acct_read_u32 M m1 out_vaddr = BLYT_SURFACE_LOCK_ARENA_BASE + lock_bump (surfaces ctx)"
    "mem_acct_read_u32 M m1 (out_vaddr + 16) =
       blyt_lockview_encode (ucast (sf_lock_gen (slots (surfaces ctx) ! i))) (blyt_dyn_decode_index handle)"
    "memory_read M m1 (BLYT_SURFACE_LOCK_ARENA_BASE + lock_bump (surfaces ctx)) (length p) =
       (if clear_only then replicate (length p) 0 else p)"
  using acq
proof (cases rule: acquire_cases)
  case 1
  then show ?thesis by simp
next
  case (2 i)
  let ?s = "slots (surfaces ctx) ! i" and ?v = "BLYT_SURFACE_LOCK_ARENA_BASE + lock_bump (surfaces ctx)"
  note res = resolve_surface_Some [OF 2(2)]
  note rg = acquired_region [OF reg res(1,2) 2(4)]
  obtain p where p: "sf_pixels ?s = Some p" "length p = nat (sf_w ?s * sf_h ?s)"
    using slot_wfD(5) [OF reg_wfD(2) [OF reg res(1)] res(2)] by auto
  have len: "unat (surface_size ?s) = length p" using rg(2) p(2) by simp
  let ?tok = "blyt_lockview_encode (ucast (sf_lock_gen ?s)) (blyt_dyn_decode_index handle)"
  define buf where "buf = write_u32_le ?v @ write_u32_le (of_int (sf_w ?s)) @ write_u32_le (of_int (sf_w ?s)) @
    write_u32_le (of_int (sf_h ?s)) @ write_u32_le ?tok"
  define m0 where "m0 = (if clear_only then guest_memzero M m ?v (surface_size ?s) else memory_write M m ?v p)"
  have m1: "m1 = memory_write M m0 out_vaddr buf" using 2(6) len by (simp add: m0_def buf_def p(1))
  have lb: "length buf = 20" by (simp add: buf_def write_u32_le_bytes)
  have v: "unat ?v + length p \<le> 67108864" using rg(1,3,4) len by simp
  have vaddr: "mem_acct_read_u32 M m1 out_vaddr = ?v"
    unfolding m1 using out lb mem by (simp add: read_u32_le_of guest_read_slice [where k = 0]) (simp add: buf_def write_u32_le_bytes slice_def)
  have a: "unat (out_vaddr + 16) = unat out_vaddr + 16" using out by (subst unat_add_small) simp_all
  have tok: "mem_acct_read_u32 M m1 (out_vaddr + 16) = ?tok"
    unfolding m1 using out lb mem a
    by (simp add: read_u32_le_of guest_read_slice [where k = 16]) (simp add: buf_def write_u32_le_bytes slice_def)
  have "memory_read M m1 ?v (length p) = memory_read M m0 ?v (length p)"
    unfolding m1 using mem out lb v rg(1) by (intro guest_read_other) auto
  also have "\<dots> = (if clear_only then replicate (length p) 0 else p)"
    using mem v len by (simp add: m0_def guest_read guest_memzero_read guest_write)
  finally show ?thesis using that [OF 2(2) p(1) 2(3) len _ vaddr tok] 2(5) by simp
qed

text \<open>
  C5. A pixel lock round trip.  When a surface is acquired, the lock structure that the guest reads gives the address
  of a region that holds exactly the canonical pixels (zeros for a lock taken outside of \<^verbatim>\<open>draw()\<close>).  Whatever the
  guest then does to its memory, releasing with the token of the structure copies that region back as the new canonical
  pixels (a lock taken outside of \<^verbatim>\<open>draw()\<close> leaves them alone), touches no other surface, and the token is dead
  afterwards.
\<close>
theorem surface_lock_roundtrip:
  assumes mem: "guest_memory M" and reg: "reg_wf (surfaces ctx)"
    and out: "unat out_vaddr + 20 \<le> 268435456" "unat out_vaddr + 20 \<le> 33554432 \<or> 67108864 \<le> unat out_vaddr"
    and acq: "blyt_surface_acquire_lock M ctx m handle out_vaddr clear_only = (True, ctx1, m1)"
    and rel: "blyt_surface_release_lock M ctx1 m2 (mem_acct_read_u32 M m1 (out_vaddr + 16)) = (r, ctx2)"
  shows "\<exists>i p. blyt_resolve_surface (surfaces ctx) handle = Some i \<and> sf_pixels (slots (surfaces ctx) ! i) = Some p \<and>
    memory_read M m1 (mem_acct_read_u32 M m1 out_vaddr) (length p) = (if clear_only then replicate (length p) 0 else p) \<and>
    r = Some i \<and>
    sf_pixels (slots (surfaces ctx2) ! i) =
      Some (if clear_only then p else memory_read M m2 (mem_acct_read_u32 M m1 out_vaddr) (length p)) \<and>
    (\<forall>j. j \<noteq> i \<longrightarrow> slots (surfaces ctx2) ! j = slots (surfaces ctx) ! j) \<and>
    blyt_surface_release_lock M ctx2 m2 (mem_acct_read_u32 M m1 (out_vaddr + 16)) = (None, ctx2)"
proof (rule acquire_memory [OF mem reg out acq])
  fix i p
  let ?reg = "surfaces ctx" and ?s = "slots (surfaces ctx) ! i" and ?v = "BLYT_SURFACE_LOCK_ARENA_BASE + lock_bump (surfaces ctx)"
  let ?tok = "blyt_lockview_encode (ucast (sf_lock_gen ?s)) (blyt_dyn_decode_index handle)"
  assume rs: "blyt_resolve_surface ?reg handle = Some i" and p: "sf_pixels ?s = Some p" and ul: "\<not> sf_locked ?s"
    and len: "unat (surface_size ?s) = length p" and reg1: "surfaces ctx1 = acquired i clear_only ?reg"
    and vaddr: "mem_acct_read_u32 M m1 out_vaddr = ?v" and tok: "mem_acct_read_u32 M m1 (out_vaddr + 16) = ?tok"
    and content: "memory_read M m1 ?v (length p) = (if clear_only then replicate (length p) 0 else p)"
  note res = resolve_surface_Some [OF rs]
  have nd: "\<not> sf_lock_direct ?s" using reg_wfD(6) [OF reg res(1)] ul by (simp add: lock_wf_def)
  have i: "i < length (slots ?reg)" using reg_wfD(1) [OF reg] res(1) by simp
  have ix: "unat (blyt_dyn_decode_index handle) = i" "unat (blyt_dyn_decode_index handle) < 64" using res(1,5) by auto
  note t = lockview_token [OF ix(2), of "sf_lock_gen ?s"]
  have lv: "blyt_resolve_lockview (surfaces ctx1) ?tok = Some i"
    unfolding reg1 blyt_resolve_lockview_def using t ix i by (simp add: Let_def surface_consts acquired_def)
  define reg2 where "reg2 = blyt_surface_flush_lock M m2 i (acquired i clear_only ?reg)"
  have r: "r = Some i" "ctx2 = ctx1\<lparr>surfaces := reg2\<rparr>"
    using rel lv tok reg1 by (auto simp: blyt_surface_release_lock_def reg2_def)
  have sl: "slots reg2 ! j = (if j = i then ?s\<lparr>sf_pixels := Some (if clear_only then p else memory_read M m2 ?v (length p)),
      sf_locked := False, sf_lock_phantom := False, sf_lock_direct := False, sf_lock_gen := sf_lock_gen ?s + 1,
      sf_lock_vaddr := ?v, sf_lock_len := surface_size ?s\<rparr> else slots ?reg ! j)" for j
    unfolding reg2_def flush_slots using i nd p len by (simp add: acquired_def)
  have "blyt_resolve_lockview reg2 ?tok = None"
    using t ix sl [of i] by (simp add: blyt_resolve_lockview_def Let_def)
  then have "blyt_surface_release_lock M ctx2 m2 ?tok = (None, ctx2)" using r(2) by (simp add: blyt_surface_release_lock_def)
  then show ?thesis using rs p content r sl vaddr tok by (intro exI [of _ i] exI [of _ p]) auto
qed

section \<open>Example\<close>

text \<open>A flat guest memory, and a session that has only its screen.\<close>

definition flat_ops :: "mem guest_ops" where
  "flat_ops = \<lparr>memory_read = (\<lambda>m a n. mem_read m (unat a) n), memory_write = (\<lambda>m a bs. mem_write m (unat a) bs),
     GUEST_RAM_CONTAINS = (\<lambda>m a n. unat a + n \<le> 268435456)\<rparr>"

lemma flat_bytes: "x < 268435456 \<Longrightarrow> guest_bytes flat_ops m x = m x"
  by (simp add: guest_bytes_def flat_ops_def mem_read_def unsigned_of_nat take_bit_nat_eq_self)

lemma flat_memory: "guest_memory flat_ops"
  unfolding guest_memory_def
  by (intro conjI allI impI)
    (auto simp: flat_bytes mem_write_def mem_read_def flat_ops_def [THEN arg_cong [of _ _ memory_read]]
      flat_ops_def [THEN arg_cong [of _ _ memory_write]])

definition demo_ctx :: blyt_run_ctx where
  "demo_ctx = \<lparr>log_fn = False, logged = [], ecall_trapped = False, ecall_aborted = False, frame_done = False, cart_exited = False,
     fn_return_done = False, state_ctx = None, save_dir = None, cart_name = ''demo'', save_version = 0, resources = demo_table,
     resource_scratch_off = 0, cart_has_drawn = False, palette = replicate 256 0,
     surfaces = init_surfaces (replicate 76800 7), phase = BLYT_PHASE_DRAW, cart_is_debug = False, dev_fault = False,
     mem_acct_vaddr = 0, peer_heap = 0\<rparr>"

lemma demo_ctx_wf: "reg_wf (surfaces demo_ctx)"
  by (simp add: demo_ctx_def init_surfaces_wf)

lemma demo_slot:
  "slots (surfaces demo_ctx) ! 0 = empty_slot\<lparr>sf_pixels := Some (replicate 76800 7), sf_w := 320, sf_h := 240, sf_gen := 0,
     sf_in_use := True, sf_is_screen := True, sf_owned := False\<rparr>"
  "lock_bump (surfaces demo_ctx) = 0"
  by (simp_all add: demo_ctx_def init_surfaces_def surface_consts)

lemma demo_screen: "blyt_resolve_surface (surfaces demo_ctx) BLYT_SCREEN = Some 0"
  using surface_handle [of 0 0] demo_slot(1)
  by (simp add: blyt_resolve_surface_def BLYT_SCREEN_handle(1) empty_slot_def surface_consts)

lemma demo_acquire: "fst (blyt_surface_acquire_lock flat_ops demo_ctx m BLYT_SCREEN out_vaddr clear_only)"
  by (simp add: blyt_surface_acquire_lock_def Let_def demo_screen demo_slot empty_slot_def surface_size_def lock_aligned_def surface_consts)

theorem surface_lock_roundtrip_witness:
  "case blyt_surface_acquire_lock flat_ops demo_ctx (\<lambda>x. 0) BLYT_SCREEN 4096 False of (ok, ctx1, m1) \<Rightarrow>
     ok \<and> (case blyt_surface_release_lock flat_ops ctx1 (\<lambda>x. 9) (mem_acct_read_u32 flat_ops m1 (4096 + 16)) of (r, ctx2) \<Rightarrow>
       r = Some 0 \<and> sf_pixels (slots (surfaces ctx2) ! 0) = Some (replicate 76800 9))"
proof -
  obtain ctx1 m1 where a: "blyt_surface_acquire_lock flat_ops demo_ctx (\<lambda>x. 0) BLYT_SCREEN 4096 False = (True, ctx1, m1)"
    using demo_acquire by (metis prod.collapse)
  obtain r ctx2 where r: "blyt_surface_release_lock flat_ops ctx1 (\<lambda>x. 9) (mem_acct_read_u32 flat_ops m1 (4096 + 16)) = (r, ctx2)"
    by (rule prod.exhaust)
  have "memory_read flat_ops (\<lambda>x. 9) v n = replicate n 9" for v n
    by (simp add: flat_ops_def mem_read_def map_replicate_trivial)
  with surface_lock_roundtrip [OF flat_memory demo_ctx_wf _ _ a r] show ?thesis
    by (auto simp: a r [simplified] demo_screen demo_slot)
qed

end
