(* ===== verification/Ecall.thy ===== *)
theory Ecall
  imports Surfaces
begin

text \<open>
  The ECALL dispatcher of the emulated session (\<^verbatim>\<open>blyt_ecall_handler\<close> in \<^verbatim>\<open>runtime/host/src/libblyt/cart_run.c\<close>,
  numbers in \<^verbatim>\<open>ecall.h\<close>), one definition per case, for a host built without the debugger and Lua bridge options
  (\<^verbatim>\<open>BLYT_DAP\<close>, \<^verbatim>\<open>BLYT_GDB\<close>, \<^verbatim>\<open>BLYT_LUA_BRIDGE\<close>).  The machine is what the handler sees of the emulator: the argument
  registers, the program counter, the floating-point status word, the halt flag and the guest memory.  \<^verbatim>\<open>g_run_ctx\<close> is
  never null while the handler runs (\<^verbatim>\<open>run_frame_impl\<close> sets it).  A case whose loop does not end yields \<open>None\<close>.
\<close>

section \<open>Numbers\<close>

definition BLYT_ECALL_EXIT :: u32 where "BLYT_ECALL_EXIT = 0"
definition BLYT_ECALL_CONSOLE_DEBUG :: u32 where "BLYT_ECALL_CONSOLE_DEBUG = 1"
definition BLYT_ECALL_FRAME_DONE :: u32 where "BLYT_ECALL_FRAME_DONE = 2"
definition BLYT_ECALL_DAP_HOOK :: u32 where "BLYT_ECALL_DAP_HOOK = 3"
definition BLYT_ECALL_HOST_FN_RETURN :: u32 where "BLYT_ECALL_HOST_FN_RETURN = 9"
definition BLYT_ECALL_SAVE_WRITE :: u32 where "BLYT_ECALL_SAVE_WRITE = 11"
definition BLYT_ECALL_SAVE_READ :: u32 where "BLYT_ECALL_SAVE_READ = 12"
definition BLYT_ECALL_PHASE :: u32 where "BLYT_ECALL_PHASE = 13"
definition BLYT_ECALL_BUF_OP :: u32 where "BLYT_ECALL_BUF_OP = 50"
definition BLYT_ECALL_RESOURCE_PIN :: u32 where "BLYT_ECALL_RESOURCE_PIN = 61"
definition BLYT_ECALL_RESOURCE_UNPIN :: u32 where "BLYT_ECALL_RESOURCE_UNPIN = 62"
definition BLYT_ECALL_MEM_RESOURCES :: u32 where "BLYT_ECALL_MEM_RESOURCES = 70"
definition BLYT_ECALL_SURFACE_CLEAR :: u32 where "BLYT_ECALL_SURFACE_CLEAR = 100"
definition BLYT_ECALL_SURFACE_PIXEL :: u32 where "BLYT_ECALL_SURFACE_PIXEL = 101"
definition BLYT_ECALL_SURFACE_RECT_FILL :: u32 where "BLYT_ECALL_SURFACE_RECT_FILL = 102"
definition BLYT_ECALL_SURFACE_LINE :: u32 where "BLYT_ECALL_SURFACE_LINE = 103"
definition BLYT_ECALL_GFX_ACQUIRE :: u32 where "BLYT_ECALL_GFX_ACQUIRE = 104"
definition BLYT_ECALL_GFX_PRESENT :: u32 where "BLYT_ECALL_GFX_PRESENT = 105"
definition BLYT_ECALL_SURFACE_CREATE :: u32 where "BLYT_ECALL_SURFACE_CREATE = 106"
definition BLYT_ECALL_SURFACE_DESTROY :: u32 where "BLYT_ECALL_SURFACE_DESTROY = 107"
definition BLYT_ECALL_SURFACE_BLIT :: u32 where "BLYT_ECALL_SURFACE_BLIT = 108"
definition BLYT_ECALL_SURFACE_ACQUIRE :: u32 where "BLYT_ECALL_SURFACE_ACQUIRE = 109"
definition BLYT_ECALL_SURFACE_RELEASE :: u32 where "BLYT_ECALL_SURFACE_RELEASE = 110"
definition BLYT_ECALL_GFX_PALETTE_SET :: u32 where "BLYT_ECALL_GFX_PALETTE_SET = 111"

lemmas ecall_nums = BLYT_ECALL_EXIT_def BLYT_ECALL_CONSOLE_DEBUG_def BLYT_ECALL_FRAME_DONE_def BLYT_ECALL_DAP_HOOK_def
  BLYT_ECALL_HOST_FN_RETURN_def BLYT_ECALL_SAVE_WRITE_def BLYT_ECALL_SAVE_READ_def BLYT_ECALL_PHASE_def BLYT_ECALL_BUF_OP_def
  BLYT_ECALL_RESOURCE_PIN_def BLYT_ECALL_RESOURCE_UNPIN_def BLYT_ECALL_MEM_RESOURCES_def BLYT_ECALL_SURFACE_CLEAR_def
  BLYT_ECALL_SURFACE_PIXEL_def BLYT_ECALL_SURFACE_RECT_FILL_def BLYT_ECALL_SURFACE_LINE_def BLYT_ECALL_GFX_ACQUIRE_def
  BLYT_ECALL_GFX_PRESENT_def BLYT_ECALL_SURFACE_CREATE_def BLYT_ECALL_SURFACE_DESTROY_def BLYT_ECALL_SURFACE_BLIT_def
  BLYT_ECALL_SURFACE_ACQUIRE_def BLYT_ECALL_SURFACE_RELEASE_def BLYT_ECALL_GFX_PALETTE_SET_def

definition BUF_OP_GET_F32 :: u32 where "BUF_OP_GET_F32 = 1"
definition BUF_OP_SET_F32 :: u32 where "BUF_OP_SET_F32 = 2"
definition BUF_OP_GET_I32 :: u32 where "BUF_OP_GET_I32 = 3"
definition BUF_OP_SET_I32 :: u32 where "BUF_OP_SET_I32 = 4"
definition BUF_OP_GET_U32 :: u32 where "BUF_OP_GET_U32 = 5"
definition BUF_OP_SET_U32 :: u32 where "BUF_OP_SET_U32 = 6"
definition BUF_OP_GET_I16 :: u32 where "BUF_OP_GET_I16 = 7"
definition BUF_OP_SET_I16 :: u32 where "BUF_OP_SET_I16 = 8"
definition BUF_OP_GET_U16 :: u32 where "BUF_OP_GET_U16 = 9"
definition BUF_OP_SET_U16 :: u32 where "BUF_OP_SET_U16 = 10"
definition BUF_OP_GET_I8 :: u32 where "BUF_OP_GET_I8 = 11"
definition BUF_OP_SET_I8 :: u32 where "BUF_OP_SET_I8 = 12"
definition BUF_OP_GET_U8 :: u32 where "BUF_OP_GET_U8 = 13"
definition BUF_OP_SET_U8 :: u32 where "BUF_OP_SET_U8 = 14"
definition BUF_OP_GET_BOOL :: u32 where "BUF_OP_GET_BOOL = 15"
definition BUF_OP_SET_BOOL :: u32 where "BUF_OP_SET_BOOL = 16"
definition BUF_OP_ALLOC_SLOT :: u32 where "BUF_OP_ALLOC_SLOT = 17"
definition BUF_OP_FREE_SLOT :: u32 where "BUF_OP_FREE_SLOT = 18"
definition BUF_OP_REF :: u32 where "BUF_OP_REF = 19"
definition BUF_OP_REF_VALID :: u32 where "BUF_OP_REF_VALID = 20"
definition BUF_OP_GET_F64 :: u32 where "BUF_OP_GET_F64 = 21"
definition BUF_OP_SET_F64 :: u32 where "BUF_OP_SET_F64 = 22"

lemmas buf_op_nums = BUF_OP_GET_F32_def BUF_OP_SET_F32_def BUF_OP_GET_I32_def BUF_OP_SET_I32_def BUF_OP_GET_U32_def
  BUF_OP_SET_U32_def BUF_OP_GET_I16_def BUF_OP_SET_I16_def BUF_OP_GET_U16_def BUF_OP_SET_U16_def BUF_OP_GET_I8_def
  BUF_OP_SET_I8_def BUF_OP_GET_U8_def BUF_OP_SET_U8_def BUF_OP_GET_BOOL_def BUF_OP_SET_BOOL_def BUF_OP_ALLOC_SLOT_def
  BUF_OP_FREE_SLOT_def BUF_OP_REF_def BUF_OP_REF_VALID_def BUF_OP_GET_F64_def BUF_OP_SET_F64_def

section \<open>Machine\<close>

datatype reg = A0 | A1 | A2 | A3 | A4 | A5 | A7

record 'm machine =
  regs :: "reg \<Rightarrow> u32"
  PC :: u32
  csr_fcsr :: u32
  halted :: bool
  gmem :: 'm
  ctx :: blyt_run_ctx
  fs :: host_fs

text \<open>The emulator's memory, the host environment and the \<^verbatim>\<open>NDEBUG\<close> build option.\<close>

record 'm host =
  ops :: "'m guest_ops"
  env :: res_env
  ndebug :: bool

definition set_reg :: "reg \<Rightarrow> u32 \<Rightarrow> 'm machine \<Rightarrow> 'm machine" where
  "set_reg r v st = st\<lparr>regs := (regs st)(r := v)\<rparr>"

definition advance :: "'m machine \<Rightarrow> 'm machine" where
  "advance st = st\<lparr>PC := PC st + 4\<rparr>"

definition rv_halt :: "'m machine \<Rightarrow> 'm machine" where
  "rv_halt st = st\<lparr>halted := True\<rparr>"

definition log_line :: "bytes \<Rightarrow> blyt_run_ctx \<Rightarrow> blyt_run_ctx" where
  "log_line s c = (if log_fn c then c\<lparr>logged := logged c @ [s]\<rparr> else c)"

section \<open>Gates\<close>

text \<open>Result: whether the operation may proceed, whether the emulator was halted, and the machine.\<close>

definition blyt_surface_phase_gate :: "'m machine \<Rightarrow> bool \<times> bool \<times> 'm machine" where
  "blyt_surface_phase_gate st =
     (if phase (ctx st) = BLYT_PHASE_DRAW then (True, False, st)
      else if cart_is_debug (ctx st) then
        (False, True, rv_halt (st\<lparr>ctx := (log_line (ascii ''blyt: surface access outside draw() '' @ [0xE2, 0x80, 0x94] @
            ascii '' debug build trap'' @ [10]) (ctx st))\<lparr>dev_fault := True\<rparr>\<rparr>))
      else (False, False, st))"

definition blyt_surface_lock_gate :: "'m machine \<Rightarrow> nat option \<Rightarrow> bool \<times> bool \<times> 'm machine" where
  "blyt_surface_lock_gate st s =
     (case s of None \<Rightarrow> (True, False, st)
      | Some i \<Rightarrow>
          if \<not> sf_locked (slots (surfaces (ctx st)) ! i) then (True, False, st)
          else if cart_is_debug (ctx st) then
            (False, True, rv_halt (st\<lparr>ctx := (log_line (ascii ''blyt: access to a locked surface outside its lock view '' @
                [0xE2, 0x80, 0x94] @ ascii '' debug build trap'' @ [10]) (ctx st))\<lparr>dev_fault := True\<rparr>\<rparr>))
          else (False, False, st))"

definition gate_return :: "bool \<Rightarrow> 'm machine \<Rightarrow> 'm machine" where
  "gate_return h st = (if h then st else advance st)"

section \<open>Life cycle\<close>

definition ecall_exit :: "'m machine \<Rightarrow> 'm machine" where
  "ecall_exit st =
     (let code = regs st A0; c = (ctx st)\<lparr>cart_exited := True\<rparr>
      in rv_halt (st\<lparr>ctx := (if code \<noteq> 0 then c\<lparr>ecall_aborted := True\<rparr> else c)\<rparr>))"

text \<open>Reads up to \<open>n\<close> bytes, stopping at the end of the guest memory.\<close>

fun read_guest_string :: "'m guest_ops \<Rightarrow> 'm \<Rightarrow> u32 \<Rightarrow> nat \<Rightarrow> bytes" where
  "read_guest_string M m vaddr 0 = []"
| "read_guest_string M m vaddr (Suc n) =
     (if \<not> GUEST_RAM_CONTAINS M m vaddr 1 then []
      else memory_read M m vaddr 1 @ read_guest_string M m (vaddr + 1) n)"

definition ecall_console_debug :: "'m host \<Rightarrow> 'm machine \<Rightarrow> 'm machine" where
  "ecall_console_debug H st =
     (let n = (if regs st A1 \<ge> 4096 then 4095 else regs st A1);
          buf = read_guest_string (ops H) (gmem st) (regs st A0) (unat n)
      in advance (st\<lparr>ctx := log_line (c_string buf) (ctx st)\<rparr>))"

definition ecall_phase :: "'m machine \<Rightarrow> 'm machine" where
  "ecall_phase st = advance (st\<lparr>ctx := (ctx st)\<lparr>phase := regs st A0\<rparr>\<rparr>)"

definition ecall_frame_done :: "'m host \<Rightarrow> 'm machine \<Rightarrow> 'm machine" where
  "ecall_frame_done H st =
     (let st1 = advance st; frm = drop_bit 5 (csr_fcsr st) AND 0x7
      in if frm \<noteq> 0 \<and> ndebug H then rv_halt (st1\<lparr>ctx := (ctx st1)\<lparr>ecall_aborted := True\<rparr>\<rparr>)
         else rv_halt (st1\<lparr>csr_fcsr := 0, ctx := (ctx st1)\<lparr>frame_done := True\<rparr>\<rparr>))"

definition ecall_dap_hook :: "'m machine \<Rightarrow> 'm machine" where
  "ecall_dap_hook st = advance (set_reg A0 0 st)"

definition ecall_host_fn_return :: "'m machine \<Rightarrow> 'm machine" where
  "ecall_host_fn_return st = rv_halt ((advance st)\<lparr>ctx := (ctx st)\<lparr>fn_return_done := True\<rparr>\<rparr>)"

definition ecall_unknown :: "'m machine \<Rightarrow> 'm machine" where
  "ecall_unknown st = rv_halt (st\<lparr>ctx := (ctx st)\<lparr>ecall_trapped := True\<rparr>\<rparr>)"

section \<open>Surfaces\<close>

text \<open>
  What the four drawing cases share: both gates, the drawing primitive on the canonical buffer, and the flag that the
  screen was drawn to.
\<close>

definition mark_drawn :: "nat \<Rightarrow> blyt_run_ctx \<Rightarrow> blyt_run_ctx" where
  "mark_drawn i c = (if sf_is_screen (slots (surfaces c) ! i) then c\<lparr>cart_has_drawn := True\<rparr> else c)"

definition put_pixels :: "nat \<Rightarrow> bytes option \<Rightarrow> blyt_run_ctx \<Rightarrow> blyt_run_ctx" where
  "put_pixels i p c = c\<lparr>surfaces := set_slot i ((slots (surfaces c) ! i)\<lparr>sf_pixels := p\<rparr>) (surfaces c)\<rparr>"

definition surface_draw :: "u32 \<Rightarrow> (blyt_surface_slot \<Rightarrow> bytes option option) \<Rightarrow> 'm machine \<Rightarrow> 'm machine option" where
  "surface_draw dst draw st =
     (let (ok, h, st1) = blyt_surface_phase_gate st
      in if \<not> ok then Some (gate_return h st1)
         else
           let s = blyt_resolve_surface (surfaces (ctx st1)) dst;
               (ok2, h2, st2) = blyt_surface_lock_gate st1 s
           in if \<not> ok2 then Some (gate_return h2 st2)
              else case s of None \<Rightarrow> Some (advance st2)
              | Some i \<Rightarrow>
                  (case draw (slots (surfaces (ctx st2)) ! i) of None \<Rightarrow> None
                   | Some p \<Rightarrow> Some (advance (st2\<lparr>ctx := mark_drawn i (put_pixels i p (ctx st2))\<rparr>))))"

definition ecall_surface_clear :: "'m machine \<Rightarrow> 'm machine option" where
  "ecall_surface_clear st =
     surface_draw (regs st A0) (\<lambda>s. Some (blyt_raster_clear (sf_pixels s) (sf_w s) (sf_w s) (sf_h s) (ucast (regs st A1)))) st"

definition ecall_surface_pixel :: "'m machine \<Rightarrow> 'm machine option" where
  "ecall_surface_pixel st =
     surface_draw (regs st A0)
       (\<lambda>s. Some (blyt_raster_pixel (sf_pixels s) (sf_w s) (sf_w s) (sf_h s) (sint (regs st A1)) (sint (regs st A2))
              (ucast (regs st A3)))) st"

definition ecall_surface_rect_fill :: "'m machine \<Rightarrow> 'm machine option" where
  "ecall_surface_rect_fill st =
     surface_draw (regs st A0)
       (\<lambda>s. Some (blyt_raster_rect_fill (sf_pixels s) (sf_w s) (sf_w s) (sf_h s) (sint (regs st A1)) (sint (regs st A2))
              (sint (regs st A3)) (sint (regs st A4)) (ucast (regs st A5)))) st"

definition ecall_surface_line :: "'m machine \<Rightarrow> 'm machine option" where
  "ecall_surface_line st =
     surface_draw (regs st A0)
       (\<lambda>s. blyt_raster_line (sf_pixels s) (sf_w s) (sf_w s) (sf_h s) (regs st A1) (regs st A2) (regs st A3) (regs st A4)
              (ucast (regs st A5))) st"

definition ecall_surface_create :: "'m host \<Rightarrow> 'm machine \<Rightarrow> 'm machine" where
  "ecall_surface_create H st =
     (let (ok, h, st1) = blyt_surface_phase_gate st
      in if \<not> ok then if h then st1 else advance (set_reg A0 BLYT_HANDLE_NONE st1)
         else
           let (handle, c, m) = blyt_surface_create_slot (ops H) (env H) (ctx st1) (gmem st1) (sint (regs st A0)) (sint (regs st A1))
           in advance (set_reg A0 handle (st1\<lparr>ctx := c, gmem := m\<rparr>)))"

definition ecall_surface_destroy :: "'m host \<Rightarrow> 'm machine \<Rightarrow> 'm machine" where
  "ecall_surface_destroy H st =
     (let s = blyt_resolve_surface (surfaces (ctx st)) (regs st A0);
          (ok, h, st1) = blyt_surface_lock_gate st s
      in if \<not> ok then gate_return h st1
         else case s of None \<Rightarrow> advance st1
         | Some i \<Rightarrow>
             if sf_is_screen (slots (surfaces (ctx st1)) ! i) then advance st1
             else
               let (c, m) = mem_acct_publish_footprint (ops H)
                     ((ctx st1)\<lparr>surfaces := blyt_surface_free_slot i (surfaces (ctx st1))\<rparr>) (gmem st1)
               in advance (st1\<lparr>ctx := c, gmem := m\<rparr>))"

definition ecall_surface_blit :: "'m machine \<Rightarrow> 'm machine" where
  "ecall_surface_blit st =
     (let (ok, h, st1) = blyt_surface_phase_gate st
      in if \<not> ok then gate_return h st1
         else
           let ds = blyt_resolve_surface (surfaces (ctx st1)) (regs st A0);
               ss = blyt_resolve_surface (surfaces (ctx st1)) (regs st A1);
               (ok2, h2, st2) = blyt_surface_lock_gate st1 ds;
               (ok3, h3, st3) = (if ok2 then blyt_surface_lock_gate st2 ss else (False, h2, st2))
           in if \<not> ok3 then gate_return h3 st3
              else case (ds, ss) of
                (Some d, Some s) \<Rightarrow>
                  let dst = slots (surfaces (ctx st3)) ! d; src = slots (surfaces (ctx st3)) ! s;
                      p = blyt_raster_blit (sf_pixels dst) (sf_w dst) (sf_w dst) (sf_h dst) (d = s)
                            (sf_pixels src) (sf_w src) (sf_w src) (sf_h src) (sint (regs st A2)) (sint (regs st A3))
                  in advance (st3\<lparr>ctx := mark_drawn d (put_pixels d p (ctx st3))\<rparr>)
              | _ \<Rightarrow> advance st3)"

definition ecall_surface_acquire :: "'m host \<Rightarrow> 'm machine \<Rightarrow> 'm machine" where
  "ecall_surface_acquire H st =
     (let (ok, h, st1) = blyt_surface_phase_gate st
      in if h then st1
         else
           let (got, c, m) = blyt_surface_acquire_lock (ops H) (ctx st1) (gmem st1) (regs st A0) (regs st A1) (\<not> ok)
           in advance (set_reg A0 (if got then 1 else 0) (st1\<lparr>ctx := c, gmem := m\<rparr>)))"

definition ecall_surface_release :: "'m host \<Rightarrow> 'm machine \<Rightarrow> 'm machine" where
  "ecall_surface_release H st =
     (let (s, c) = blyt_surface_release_lock (ops H) (ctx st) (gmem st) (regs st A0)
      in advance (st\<lparr>ctx := (case s of None \<Rightarrow> c | Some i \<Rightarrow> mark_drawn i c)\<rparr>))"

definition ecall_gfx_acquire :: "'m machine \<Rightarrow> 'm machine" where
  "ecall_gfx_acquire st = advance (set_reg A0 BLYT_GFX_FB_BASE st)"

definition ecall_gfx_present :: "'m host \<Rightarrow> 'm machine \<Rightarrow> 'm machine" where
  "ecall_gfx_present H st =
     (let p = memory_read (ops H) (gmem st) BLYT_GFX_FB_BASE (nat (BLYT_FRAME_W * BLYT_FRAME_H))
      in advance (st\<lparr>ctx := (put_pixels 0 (Some p) (ctx st))\<lparr>cart_has_drawn := True\<rparr>\<rparr>))"

definition ecall_gfx_palette_set :: "'m host \<Rightarrow> 'm machine \<Rightarrow> 'm machine" where
  "ecall_gfx_palette_set H st =
     (let (pal, t) = blyt_resolve_palette (env H) (resources (ctx st)) (regs st A0);
          c = (ctx st)\<lparr>resources := t\<rparr>
      in advance (st\<lparr>ctx := (case pal of None \<Rightarrow> c | Some p \<Rightarrow> c\<lparr>palette := take 256 p\<rparr>)\<rparr>))"

section \<open>Resources\<close>

definition write_out :: "'m guest_ops \<Rightarrow> u32 \<Rightarrow> u32 \<Rightarrow> 'm \<Rightarrow> 'm" where
  "write_out M vaddr v m = (if vaddr \<noteq> 0 then memory_write M m vaddr (le_bytes 4 v) else m)"

definition pin_fail :: "'m guest_ops \<Rightarrow> u32 \<Rightarrow> u32 \<Rightarrow> 'm machine \<Rightarrow> 'm machine" where
  "pin_fail M out_ptr_vaddr code st = advance (set_reg A0 code (st\<lparr>gmem := write_out M out_ptr_vaddr 0 (gmem st)\<rparr>))"

definition ecall_resource_pin :: "'m host \<Rightarrow> 'm machine \<Rightarrow> 'm machine" where
  "ecall_resource_pin H st =
     (let handle = regs st A0; out_ptr_vaddr = regs st A1; out_size_vaddr = regs st A2; M = ops H; c = ctx st
      in case blyt_resolve_resource (resources c) handle of None \<Rightarrow> pin_fail M out_ptr_vaddr 4 st
      | Some i \<Rightarrow>
          let e = entries (resources c) ! i; was_evictable = blyt_rl_is_evictable (re_rl e)
          in if \<not> mem_acct_reference_fits M c (gmem st) e was_evictable then pin_fail M out_ptr_vaddr 2 st
             else
               let (bytes, e1) = blyt_resource_entry_data (env H) e;
                   c1 = c\<lparr>resources := set_entry i e1 (resources c)\<rparr>; st1 = st\<lparr>ctx := c1\<rparr>
               in if bytes = None \<and> re_len e1 \<noteq> 0 then pin_fail M out_ptr_vaddr 3 st1
                  else
                    let need = of_nat (re_len e1)
                    in if need > BLYT_RESOURCE_SCRATCH_SIZE then pin_fail M out_ptr_vaddr 3 st1
                       else
                         let off0 = resource_scratch_off c;
                             off = (if off0 + need > BLYT_RESOURCE_SCRATCH_SIZE then 0 else off0);
                             gptr = BLYT_RESOURCE_SCRATCH_BASE + off;
                             m1 = (if need \<noteq> 0 then memory_write M (gmem st) gptr (take (unat need) (case bytes of Some b \<Rightarrow> b | None \<Rightarrow> []))
                                   else gmem st);
                             e2 = e1\<lparr>re_rl := blyt_rl_pin (re_rl e1)\<rparr>;
                             t = blyt_resource_table_touch i (set_entry i e2 (resources c));
                             (c2, m2) = mem_acct_publish_footprint M (c\<lparr>resources := t, resource_scratch_off := off + need\<rparr>) m1;
                             m3 = write_out M out_ptr_vaddr gptr m2;
                             m4 = write_out M out_size_vaddr need m3
                         in advance (set_reg A0 0 (st\<lparr>ctx := c2, gmem := m4\<rparr>)))"

definition ecall_resource_unpin :: "'m host \<Rightarrow> 'm machine \<Rightarrow> 'm machine" where
  "ecall_resource_unpin H st =
     (let c = ctx st
      in case blyt_resolve_resource (resources c) (regs st A0) of None \<Rightarrow> advance (set_reg A0 4 st)
      | Some i \<Rightarrow>
          let e = entries (resources c) ! i; (ok, rl) = blyt_rl_unpin (re_rl e)
          in if ok then
               let (c1, m1) = mem_acct_publish_footprint (ops H) (c\<lparr>resources := set_entry i (e\<lparr>re_rl := rl\<rparr>) (resources c)\<rparr>) (gmem st)
               in advance (set_reg A0 0 (st\<lparr>ctx := c1, gmem := m1\<rparr>))
             else advance (set_reg A0 1 st))"

definition reported_resident :: "blyt_resource_entry \<Rightarrow> bool" where
  "reported_resident e \<longleftrightarrow>
     re_persistent e \<or> re_owned e \<noteq> None \<or> (re_algo e = BLYT_RES_ALGO_NONE \<and> re_last_access e > 0)"

fun mem_resources_loop :: "'m guest_ops \<Rightarrow> u32 \<Rightarrow> u32 \<Rightarrow> blyt_resource_entry list \<Rightarrow> u32 \<Rightarrow> 'm \<Rightarrow> u32 \<times> 'm" where
  "mem_resources_loop M out_res_vaddr cap_pairs [] loaded m = (loaded, m)"
| "mem_resources_loop M out_res_vaddr cap_pairs (e # es) loaded m =
     (if \<not> reported_resident e then mem_resources_loop M out_res_vaddr cap_pairs es loaded m
      else
        mem_resources_loop M out_res_vaddr cap_pairs es (loaded + 1)
          (if out_res_vaddr \<noteq> 0 \<and> loaded < cap_pairs
           then memory_write M m (out_res_vaddr + loaded * 8)
                  (write_u32_le (blyt_resource_encode (re_id e) BLYT_RESOURCE_PROV_CART) @ write_u32_le (of_nat (re_len e)))
           else m))"

definition ecall_mem_resources :: "'m host \<Rightarrow> 'm machine \<Rightarrow> 'm machine" where
  "ecall_mem_resources H st =
     (let (loaded, m) = mem_resources_loop (ops H) (regs st A0) (regs st A1) (entries (resources (ctx st))) 0 (gmem st)
      in advance (set_reg A0 loaded (st\<lparr>gmem := m\<rparr>)))"

section \<open>State buffers and saves\<close>

definition buf_op_get :: "u32 \<Rightarrow> bool" where
  "buf_op_get op \<longleftrightarrow> op = BUF_OP_GET_F32 \<or> op = BUF_OP_GET_I32 \<or> op = BUF_OP_GET_U32 \<or> op = BUF_OP_GET_I16 \<or>
     op = BUF_OP_GET_U16 \<or> op = BUF_OP_GET_I8 \<or> op = BUF_OP_GET_U8 \<or> op = BUF_OP_GET_BOOL"

definition buf_op_set :: "u32 \<Rightarrow> bool" where
  "buf_op_set op \<longleftrightarrow> op = BUF_OP_SET_F32 \<or> op = BUF_OP_SET_I32 \<or> op = BUF_OP_SET_U32 \<or> op = BUF_OP_SET_I16 \<or>
     op = BUF_OP_SET_U16 \<or> op = BUF_OP_SET_I8 \<or> op = BUF_OP_SET_U8 \<or> op = BUF_OP_SET_BOOL"

definition put_state :: "blyt_state_ctx \<Rightarrow> 'm machine \<Rightarrow> 'm machine" where
  "put_state sc st = st\<lparr>ctx := (ctx st)\<lparr>state_ctx := Some sc\<rparr>\<rparr>"

definition buf_op :: "'m guest_ops \<Rightarrow> blyt_state_ctx \<Rightarrow> 'm machine \<Rightarrow> 'm machine" where
  "buf_op M sc st =
     (let op = regs st A0; buf_id = regs st A1; slot = sint (regs st A2); field = regs st A3 AND 0xFFFF; value_bits = regs st A4
      in if buf_op_get op then
           set_reg A0 (case blyt_state_get sc buf_id slot field of None \<Rightarrow> 0 | Some bits \<Rightarrow> bits) st
         else if buf_op_set op then
           set_reg A0 0 (put_state (case blyt_state_set sc buf_id slot field value_bits of None \<Rightarrow> sc | Some sc' \<Rightarrow> sc') st)
         else if op = BUF_OP_ALLOC_SLOT then
           (case blyt_state_alloc_slot sc buf_id of
              None \<Rightarrow> set_reg A0 (- 1) (st\<lparr>gmem := write_out M (regs st A2) (- 1) (gmem st)\<rparr>)
            | Some (sc', new_slot) \<Rightarrow>
                set_reg A0 0 (put_state sc' (st\<lparr>gmem := write_out M (regs st A2) (of_int new_slot) (gmem st)\<rparr>)))
         else if op = BUF_OP_FREE_SLOT then
           (case blyt_state_free_slot sc buf_id slot of None \<Rightarrow> set_reg A0 (- 1) st
            | Some sc' \<Rightarrow> set_reg A0 0 (put_state sc' st))
         else if op = BUF_OP_REF then set_reg A0 (blyt_state_ref sc buf_id slot) st
         else if op = BUF_OP_REF_VALID then set_reg A0 (if blyt_state_ref_valid sc buf_id (regs st A2) then 1 else 0) st
         else if op = BUF_OP_GET_F64 then
           (let bits = (case blyt_state_get64 sc buf_id slot field of None \<Rightarrow> 0 | Some bits \<Rightarrow> bits)
            in set_reg A1 (ucast (drop_bit 32 bits)) (set_reg A0 (ucast bits) st))
         else if op = BUF_OP_SET_F64 then
           (let bits = ucast value_bits OR push_bit 32 (ucast (regs st A5))
            in set_reg A0 0 (put_state (case blyt_state_set64 sc buf_id slot field bits of None \<Rightarrow> sc | Some sc' \<Rightarrow> sc') st))
         else set_reg A0 (- 1) st)"

definition ecall_buf_op :: "'m host \<Rightarrow> 'm machine \<Rightarrow> 'm machine" where
  "ecall_buf_op H st =
     (case state_ctx (ctx st) of
        None \<Rightarrow> advance (set_reg A0 (if regs st A0 = BUF_OP_REF \<or> regs st A0 = BUF_OP_REF_VALID then 0 else - 1) st)
      | Some sc \<Rightarrow> advance (buf_op (ops H) sc st))"

definition ecall_save_write :: "'m machine \<Rightarrow> 'm machine" where
  "ecall_save_write st =
     (let (r, fs') = (case (state_ctx (ctx st), save_dir (ctx st)) of
            (Some sc, Some dir) \<Rightarrow> blyt_save_write (fs st) sc (Some dir) (Some (cart_name (ctx st))) (regs st A0) (save_version (ctx st))
          | _ \<Rightarrow> (- 1, fs st))
      in advance (set_reg A0 (if r = 0 then 0 else 3) (st\<lparr>fs := fs'\<rparr>)))"

definition ecall_save_read :: "'m machine \<Rightarrow> 'm machine option" where
  "ecall_save_read st =
     (case (state_ctx (ctx st), save_dir (ctx st)) of
        (Some sc, Some dir) \<Rightarrow>
          (case blyt_save_read (fs st) sc (Some dir) (Some (cart_name (ctx st))) (regs st A0) of None \<Rightarrow> None
           | Some (r, saved_version, sc') \<Rightarrow>
               Some (advance (set_reg A1 saved_version
                 (set_reg A0 (if r = 0 then 0 else if r = - 2 then 5 else 3) (put_state sc' st)))))
      | _ \<Rightarrow> Some (advance (set_reg A1 0 (set_reg A0 3 st))))"

section \<open>Dispatch\<close>

definition blyt_ecall_handler :: "'m host \<Rightarrow> 'm machine \<Rightarrow> 'm machine option" where
  "blyt_ecall_handler H st =
     (let num = regs st A7
      in if num = BLYT_ECALL_EXIT then Some (ecall_exit st)
         else if num = BLYT_ECALL_CONSOLE_DEBUG then Some (ecall_console_debug H st)
         else if num = BLYT_ECALL_SURFACE_CLEAR then ecall_surface_clear st
         else if num = BLYT_ECALL_SURFACE_PIXEL then ecall_surface_pixel st
         else if num = BLYT_ECALL_SURFACE_RECT_FILL then ecall_surface_rect_fill st
         else if num = BLYT_ECALL_SURFACE_LINE then ecall_surface_line st
         else if num = BLYT_ECALL_SURFACE_CREATE then Some (ecall_surface_create H st)
         else if num = BLYT_ECALL_SURFACE_DESTROY then Some (ecall_surface_destroy H st)
         else if num = BLYT_ECALL_SURFACE_BLIT then Some (ecall_surface_blit st)
         else if num = BLYT_ECALL_SURFACE_ACQUIRE then Some (ecall_surface_acquire H st)
         else if num = BLYT_ECALL_SURFACE_RELEASE then Some (ecall_surface_release H st)
         else if num = BLYT_ECALL_GFX_ACQUIRE then Some (ecall_gfx_acquire st)
         else if num = BLYT_ECALL_GFX_PRESENT then Some (ecall_gfx_present H st)
         else if num = BLYT_ECALL_GFX_PALETTE_SET then Some (ecall_gfx_palette_set H st)
         else if num = BLYT_ECALL_RESOURCE_PIN then Some (ecall_resource_pin H st)
         else if num = BLYT_ECALL_RESOURCE_UNPIN then Some (ecall_resource_unpin H st)
         else if num = BLYT_ECALL_MEM_RESOURCES then Some (ecall_mem_resources H st)
         else if num = BLYT_ECALL_PHASE then Some (ecall_phase st)
         else if num = BLYT_ECALL_FRAME_DONE then Some (ecall_frame_done H st)
         else if num = BLYT_ECALL_DAP_HOOK then Some (ecall_dap_hook st)
         else if num = BLYT_ECALL_HOST_FN_RETURN then Some (ecall_host_fn_return st)
         else if num = BLYT_ECALL_BUF_OP then Some (ecall_buf_op H st)
         else if num = BLYT_ECALL_SAVE_WRITE then Some (ecall_save_write st)
         else if num = BLYT_ECALL_SAVE_READ then ecall_save_read st
         else if num = 93 \<or> num = 94 then Some (ecall_exit st)
         else Some (ecall_unknown st))"

text \<open>
  The frame entry of \<^verbatim>\<open>run_frame_impl\<close>: pins and surfaces of the previous frame go (surfaces only on a real frame, not
  when a host-initiated call is being driven), and the budget is republished.
\<close>

definition frame_entry :: "'m host \<Rightarrow> bool \<Rightarrow> 'm machine \<Rightarrow> 'm machine" where
  "frame_entry H real_frame st =
     (let c0 = (ctx st)\<lparr>frame_done := False, fn_return_done := False\<rparr>;
          c1 = c0\<lparr>resource_scratch_off := 0, resources := blyt_resource_table_force_release_pins (resources c0)\<rparr>;
          (c2, m2) = (if real_frame then blyt_surface_reap_all (ops H) c1 (gmem st) else (c1, gmem st));
          (c3, m3) = mem_acct_publish_footprint (ops H) c2 m2
      in st\<lparr>ctx := c3, gmem := m3, halted := False\<rparr>)"

section \<open>What each case does to the surfaces\<close>

lemma machine_fields [simp]:
  "ctx (advance st) = ctx st" "ctx (set_reg r v st) = ctx st" "ctx (rv_halt st) = ctx st" "ctx (gate_return h st) = ctx st"
  "gmem (advance st) = gmem st" "gmem (set_reg r v st) = gmem st" "gmem (rv_halt st) = gmem st" "gmem (gate_return h st) = gmem st"
  "PC (advance st) = PC st + 4" "PC (set_reg r v st) = PC st" "PC (rv_halt st) = PC st"
  "halted (advance st) = halted st" "halted (set_reg r v st) = halted st" "halted (rv_halt st)"
  "regs (advance st) = regs st" "regs (set_reg r v st) = (regs st)(r := v)" "regs (rv_halt st) = regs st"
  by (simp_all add: advance_def set_reg_def rv_halt_def gate_return_def)

lemma log_line_fields [simp]:
  "surfaces (log_line s c) = surfaces c" "resources (log_line s c) = resources c" "phase (log_line s c) = phase c"
  "cart_is_debug (log_line s c) = cart_is_debug c" "mem_acct_vaddr (log_line s c) = mem_acct_vaddr c"
  "state_ctx (log_line s c) = state_ctx c"
  by (simp_all add: log_line_def)

lemma mark_drawn_surfaces [simp]: "surfaces (mark_drawn i c) = surfaces c"
  by (simp add: mark_drawn_def)

lemma put_pixels_surfaces [simp]:
  "surfaces (put_pixels i p c) = set_slot i ((slots (surfaces c) ! i)\<lparr>sf_pixels := p\<rparr>) (surfaces c)"
  by (simp add: put_pixels_def)

lemma phase_gate_ok: "blyt_surface_phase_gate st = (ok, h, st1) \<Longrightarrow> (ok \<longleftrightarrow> phase (ctx st) = BLYT_PHASE_DRAW) \<and> (ok \<longrightarrow> st1 = st \<and> \<not> h)"
  by (auto simp: blyt_surface_phase_gate_def split: if_splits)

lemma phase_gate_surfaces: "blyt_surface_phase_gate st = (ok, h, st1) \<Longrightarrow> surfaces (ctx st1) = surfaces (ctx st) \<and> gmem st1 = gmem st \<and> resources (ctx st1) = resources (ctx st)"
  by (auto simp: blyt_surface_phase_gate_def split: if_splits)

lemma lock_gate_ok:
  "blyt_surface_lock_gate st s = (ok, h, st1) \<Longrightarrow>
    (ok \<longleftrightarrow> (\<forall>i. s = Some i \<longrightarrow> \<not> sf_locked (slots (surfaces (ctx st)) ! i))) \<and> (ok \<longrightarrow> st1 = st \<and> \<not> h) \<and>
    surfaces (ctx st1) = surfaces (ctx st) \<and> gmem st1 = gmem st \<and> resources (ctx st1) = resources (ctx st)"
  by (auto simp: blyt_surface_lock_gate_def split: if_splits option.splits)

text \<open>The changes of the registry that one ECALL can make.\<close>

datatype sevent = Quiet | Draw nat | Present | Create nat | Free nat | Acquire nat | Release nat

inductive surface_event :: "'m guest_ops \<Rightarrow> blyt_surface_registry \<Rightarrow> sevent \<Rightarrow> blyt_surface_registry \<Rightarrow> bool" for M reg where
  quiet: "surface_event M reg Quiet reg"
| draw: "i < 64 \<Longrightarrow> sf_in_use (slots reg ! i) \<Longrightarrow> \<not> sf_locked (slots reg ! i) \<Longrightarrow>
    length q = nat (sf_w (slots reg ! i) * sf_h (slots reg ! i)) \<Longrightarrow>
    surface_event M reg (Draw i) (set_slot i ((slots reg ! i)\<lparr>sf_pixels := Some q\<rparr>) reg)"
| present: "length q = 76800 \<Longrightarrow> surface_event M reg Present (set_slot 0 ((slots reg ! 0)\<lparr>sf_pixels := Some q\<rparr>) reg)"
| create: "blyt_surface_create_slot M E c m w h = (handle, c', m') \<Longrightarrow> surfaces c = reg \<Longrightarrow> surfaces c' \<noteq> reg \<Longrightarrow>
    surface_event M reg (Create (unat (blyt_dyn_decode_index handle))) (surfaces c')"
| free: "i < 64 \<Longrightarrow> sf_in_use (slots reg ! i) \<Longrightarrow> \<not> sf_is_screen (slots reg ! i) \<Longrightarrow> \<not> sf_locked (slots reg ! i) \<Longrightarrow>
    surface_event M reg (Free i) (blyt_surface_free_slot i reg)"
| acquire: "i < 64 \<Longrightarrow> sf_in_use (slots reg ! i) \<Longrightarrow> \<not> sf_locked (slots reg ! i) \<Longrightarrow> lock_fits i reg \<Longrightarrow>
    surface_event M reg (Acquire i) (acquired i clear_only reg)"
| release: "i < 64 \<Longrightarrow> sf_locked (slots reg ! i) \<Longrightarrow> surface_event M reg (Release i) (blyt_surface_flush_lock M m i reg)"

inductive_cases surface_eventE: "surface_event M reg e reg'"

lemma surface_event_wf:
  assumes "guest_memory M" "reg_wf reg" "surface_event M reg e reg'"
  shows "reg_wf reg'"
  using assms(3)
proof cases
  case (draw i q)
  then show ?thesis using assms(2) by (auto intro: reg_wf_pixels)
next
  case (present q)
  have "slot_wf 0 (slots reg ! 0)" using reg_wfD(2) [OF assms(2), of 0] by simp
  then show ?thesis using present assms(2) by (auto simp: slot_wf_def intro!: reg_wf_pixels)
next
  case (create E c m w h handle c' m')
  then show ?thesis using reg_wf_create [of c M E m w h handle c' m'] assms(2) by simp
qed (use assms in \<open>auto intro: reg_wf_free reg_wf_acquired reg_wf_flush\<close>)

lemma slot_inside:
  assumes "reg_wf reg" "i < 64" "sf_in_use (slots reg ! i)"
  obtains p where "sf_pixels (slots reg ! i) = Some p" "length p = nat (sf_w (slots reg ! i) * sf_h (slots reg ! i))"
    "inside p (sf_w (slots reg ! i)) (sf_w (slots reg ! i)) (sf_h (slots reg ! i))"
  using slot_wfD [OF reg_wfD(2) [OF assms(1,2)] assms(3)] that
  by (auto simp: inside_def nat_mult_distrib)

text \<open>A drawing primitive that keeps the size of the buffer.\<close>

definition sized :: "(blyt_surface_slot \<Rightarrow> bytes option option) \<Rightarrow> bool" where
  "sized draw \<longleftrightarrow> (\<forall>s p r. sf_pixels s = Some p \<longrightarrow> inside p (sf_w s) (sf_w s) (sf_h s) \<longrightarrow> draw s = Some r \<longrightarrow>
     (\<exists>q. r = Some q \<and> length q = length p))"

lemma surface_draw_event:
  assumes reg: "reg_wf (surfaces (ctx st))" and draw: "sized draw" and e: "surface_draw dst draw st = Some st'"
  shows "surfaces (ctx st') = surfaces (ctx st) \<or>
    (\<exists>i. phase (ctx st) = BLYT_PHASE_DRAW \<and> blyt_resolve_surface (surfaces (ctx st)) dst = Some i \<and>
       surface_event M (surfaces (ctx st)) (Draw i) (surfaces (ctx st')))"
proof -
  obtain ok h st1 where g: "blyt_surface_phase_gate st = (ok, h, st1)" by (cases "blyt_surface_phase_gate st") auto
  obtain ok2 h2 st2 where g2: "blyt_surface_lock_gate st1 (blyt_resolve_surface (surfaces (ctx st1)) dst) = (ok2, h2, st2)"
    by (cases "blyt_surface_lock_gate st1 (blyt_resolve_surface (surfaces (ctx st1)) dst)") auto
  note k = phase_gate_ok [OF g] phase_gate_surfaces [OF g] lock_gate_ok [OF g2]
  consider "\<not> ok" | "ok" "\<not> ok2" | "ok" "ok2" "blyt_resolve_surface (surfaces (ctx st1)) dst = None"
    | i where "ok" "ok2" "blyt_resolve_surface (surfaces (ctx st1)) dst = Some i" by fastforce
  then show ?thesis
  proof cases
    case (4 i)
    then have s: "st1 = st" "st2 = st" "phase (ctx st) = BLYT_PHASE_DRAW" "blyt_resolve_surface (surfaces (ctx st)) dst = Some i"
      "\<not> sf_locked (slots (surfaces (ctx st)) ! i)" using k by auto
    note res = resolve_surface_Some [OF s(4)]
    obtain p where p: "sf_pixels (slots (surfaces (ctx st)) ! i) = Some p"
      "length p = nat (sf_w (slots (surfaces (ctx st)) ! i) * sf_h (slots (surfaces (ctx st)) ! i))"
      "inside p (sf_w (slots (surfaces (ctx st)) ! i)) (sf_w (slots (surfaces (ctx st)) ! i)) (sf_h (slots (surfaces (ctx st)) ! i))"
      using slot_inside [OF reg res(1,2)] by blast
    obtain r where r: "draw (slots (surfaces (ctx st)) ! i) = Some r"
      "surfaces (ctx st') = set_slot i ((slots (surfaces (ctx st)) ! i)\<lparr>sf_pixels := r\<rparr>) (surfaces (ctx st))"
      using e g g2 4 s by (auto simp: surface_draw_def Let_def split: option.splits)
    obtain q where q: "r = Some q" "length q = length p"
      using draw [unfolded sized_def, rule_format, OF p(1) p(3) r(1)] by blast
    have "surface_event M (surfaces (ctx st)) (Draw i) (surfaces (ctx st'))"
      unfolding r(2) q(1) using res s(5) p(2) q(2) by (intro surface_event.draw) simp_all
    then show ?thesis using s by blast
  qed (use e g g2 k in \<open>auto simp: surface_draw_def Let_def\<close>)
qed

lemma draws_sized:
  "sized (\<lambda>s. Some (blyt_raster_clear (sf_pixels s) (sf_w s) (sf_w s) (sf_h s) c))"
  "sized (\<lambda>s. Some (blyt_raster_pixel (sf_pixels s) (sf_w s) (sf_w s) (sf_h s) x y c))"
  "sized (\<lambda>s. Some (blyt_raster_rect_fill (sf_pixels s) (sf_w s) (sf_w s) (sf_h s) x y w h c))"
  "sized (\<lambda>s. blyt_raster_line (sf_pixels s) (sf_w s) (sf_w s) (sf_h s) x0 y0 x1 y1 c)"
  unfolding sized_def
  by (metis option.inject raster_sizes(1)) (metis option.inject raster_sizes(2), metis option.inject raster_sizes(3), metis line_size)

text \<open>When an ECALL may cause an event.\<close>

definition allowed :: "'m machine \<Rightarrow> sevent \<Rightarrow> bool" where
  "allowed st e \<longleftrightarrow>
     (case e of Quiet \<Rightarrow> True
      | Draw i \<Rightarrow> phase (ctx st) = BLYT_PHASE_DRAW \<and> blyt_resolve_surface (surfaces (ctx st)) (regs st A0) = Some i \<and>
          regs st A7 \<in> {BLYT_ECALL_SURFACE_CLEAR, BLYT_ECALL_SURFACE_PIXEL, BLYT_ECALL_SURFACE_RECT_FILL, BLYT_ECALL_SURFACE_LINE,
            BLYT_ECALL_SURFACE_BLIT}
      | Present \<Rightarrow> regs st A7 = BLYT_ECALL_GFX_PRESENT
      | Create i \<Rightarrow> regs st A7 = BLYT_ECALL_SURFACE_CREATE \<and> phase (ctx st) = BLYT_PHASE_DRAW
      | Free i \<Rightarrow> regs st A7 = BLYT_ECALL_SURFACE_DESTROY \<and> blyt_resolve_surface (surfaces (ctx st)) (regs st A0) = Some i
      | Acquire i \<Rightarrow> regs st A7 = BLYT_ECALL_SURFACE_ACQUIRE \<and> blyt_resolve_surface (surfaces (ctx st)) (regs st A0) = Some i
      | Release i \<Rightarrow> regs st A7 = BLYT_ECALL_SURFACE_RELEASE \<and> blyt_resolve_lockview (surfaces (ctx st)) (regs st A0) = Some i)"

definition caused :: "'m host \<Rightarrow> 'm machine \<Rightarrow> 'm machine \<Rightarrow> bool" where
  "caused H st st' \<longleftrightarrow> (\<exists>e. allowed st e \<and> surface_event (ops H) (surfaces (ctx st)) e (surfaces (ctx st')))"

lemma caused_quiet: "surfaces (ctx st') = surfaces (ctx st) \<Longrightarrow> caused H st st'"
  unfolding caused_def by (intro exI [of _ Quiet]) (simp add: allowed_def surface_event.quiet)

lemma caused_draw:
  assumes "reg_wf (surfaces (ctx st))" "sized draw" "surface_draw (regs st A0) draw st = Some st'"
    "regs st A7 \<in> {BLYT_ECALL_SURFACE_CLEAR, BLYT_ECALL_SURFACE_PIXEL, BLYT_ECALL_SURFACE_RECT_FILL, BLYT_ECALL_SURFACE_LINE}"
  shows "caused H st st'"
  using surface_draw_event [OF assms(1-3), of "ops H"]
proof (elim disjE exE conjE)
  fix i assume i: "phase (ctx st) = BLYT_PHASE_DRAW" "blyt_resolve_surface (surfaces (ctx st)) (regs st A0) = Some i"
    "surface_event (ops H) (surfaces (ctx st)) (Draw i) (surfaces (ctx st'))"
  have "allowed st (Draw i)" using i assms(4) by (auto simp: allowed_def)
  then show ?thesis using i(3) unfolding caused_def by blast
qed (rule caused_quiet)

lemma caused_create:
  assumes a7: "regs st A7 = BLYT_ECALL_SURFACE_CREATE" and e: "st' = ecall_surface_create H st"
  shows "caused H st st'"
proof -
  obtain ok h st1 where g: "blyt_surface_phase_gate st = (ok, h, st1)" by (cases "blyt_surface_phase_gate st") auto
  note k = phase_gate_ok [OF g] phase_gate_surfaces [OF g]
  obtain handle c m where cr: "blyt_surface_create_slot (ops H) (env H) (ctx st) (gmem st) (sint (regs st A0)) (sint (regs st A1)) = (handle, c, m)"
    using prod_cases3 by blast
  show ?thesis
  proof (cases "ok \<and> surfaces c \<noteq> surfaces (ctx st)")
    case True
    then have s: "surfaces (ctx st') = surfaces c" "phase (ctx st) = BLYT_PHASE_DRAW" using e g k cr by (auto simp: ecall_surface_create_def)
    have "surface_event (ops H) (surfaces (ctx st)) (Create (unat (blyt_dyn_decode_index handle))) (surfaces c)"
      using surface_event.create [OF cr refl] True by simp
    moreover have "allowed st (Create (unat (blyt_dyn_decode_index handle)))" using a7 s(2) by (simp add: allowed_def)
    ultimately show ?thesis unfolding caused_def s(1) by blast
  next
    case False
    then show ?thesis using e g k cr by (intro caused_quiet) (auto simp: ecall_surface_create_def)
  qed
qed

lemma caused_destroy:
  assumes a7: "regs st A7 = BLYT_ECALL_SURFACE_DESTROY" and e: "st' = ecall_surface_destroy H st"
  shows "caused H st st'"
proof -
  let ?s = "blyt_resolve_surface (surfaces (ctx st)) (regs st A0)"
  obtain ok h st1 where g: "blyt_surface_lock_gate st ?s = (ok, h, st1)" by (cases "blyt_surface_lock_gate st ?s") auto
  note k = lock_gate_ok [OF g]
  show ?thesis
  proof (cases "ok \<and> (\<exists>i. ?s = Some i \<and> \<not> sf_is_screen (slots (surfaces (ctx st)) ! i))")
    case True
    then obtain i where i: "?s = Some i" "\<not> sf_is_screen (slots (surfaces (ctx st)) ! i)" "st1 = st"
      "\<not> sf_locked (slots (surfaces (ctx st)) ! i)" using k by auto
    obtain c m where p: "mem_acct_publish_footprint (ops H) ((ctx st)\<lparr>surfaces := blyt_surface_free_slot i (surfaces (ctx st))\<rparr>) (gmem st) = (c, m)"
      using prod.exhaust by blast
    have s: "surfaces (ctx st') = blyt_surface_free_slot i (surfaces (ctx st))"
      using e g i True p publish_surfaces [OF p] by (simp add: ecall_surface_destroy_def)
    have "surface_event (ops H) (surfaces (ctx st)) (Free i) (blyt_surface_free_slot i (surfaces (ctx st)))"
      using resolve_surface_Some [OF i(1)] i by (intro surface_event.free) simp_all
    moreover have "allowed st (Free i)" using a7 i(1) by (simp add: allowed_def)
    ultimately show ?thesis unfolding caused_def s by blast
  next
    case False
    then show ?thesis using e g k by (intro caused_quiet) (auto simp: ecall_surface_destroy_def Let_def split: option.splits)
  qed
qed

lemma caused_blit:
  assumes reg: "reg_wf (surfaces (ctx st))" and a7: "regs st A7 = BLYT_ECALL_SURFACE_BLIT" and e: "st' = ecall_surface_blit st"
  shows "caused H st st'"
proof -
  let ?d = "blyt_resolve_surface (surfaces (ctx st)) (regs st A0)" and ?s = "blyt_resolve_surface (surfaces (ctx st)) (regs st A1)"
  obtain ok h st1 where g: "blyt_surface_phase_gate st = (ok, h, st1)" by (cases "blyt_surface_phase_gate st") auto
  obtain ok2 h2 st2 where g2: "blyt_surface_lock_gate st1 ?d = (ok2, h2, st2)" by (cases "blyt_surface_lock_gate st1 ?d") auto
  obtain ok3 h3 st3 where g3: "blyt_surface_lock_gate st2 ?s = (ok3, h3, st3)" by (cases "blyt_surface_lock_gate st2 ?s") auto
  note k = phase_gate_ok [OF g] phase_gate_surfaces [OF g] lock_gate_ok [OF g2] lock_gate_ok [OF g3]
  show ?thesis
  proof (cases "ok \<and> ok2 \<and> ok3 \<and> (\<exists>d s. ?d = Some d \<and> ?s = Some s)")
    case True
    then obtain d s where ds: "?d = Some d" "?s = Some s" by blast
    have st: "st1 = st" "st2 = st" "st3 = st" "phase (ctx st) = BLYT_PHASE_DRAW" "\<not> sf_locked (slots (surfaces (ctx st)) ! d)"
      using True k ds by auto
    note res = resolve_surface_Some [OF ds(1)] and res' = resolve_surface_Some [OF ds(2)]
    let ?D = "slots (surfaces (ctx st)) ! d" and ?S = "slots (surfaces (ctx st)) ! s"
    obtain p where p: "sf_pixels ?D = Some p" "length p = nat (sf_w ?D * sf_h ?D)" "inside p (sf_w ?D) (sf_w ?D) (sf_h ?D)"
      using slot_inside [OF reg res(1,2)] by blast
    obtain p' where p': "sf_pixels ?S = Some p'" using slot_inside [OF reg res'(1,2)] by blast
    obtain q where q: "blyt_raster_blit (sf_pixels ?D) (sf_w ?D) (sf_w ?D) (sf_h ?D) (d = s) (sf_pixels ?S) (sf_w ?S) (sf_w ?S) (sf_h ?S)
        (sint (regs st A2)) (sint (regs st A3)) = Some q" "length q = length p"
      unfolding p(1) p' using raster_sizes(4) [OF p(3)] by blast
    have s: "surfaces (ctx st') = set_slot d (?D\<lparr>sf_pixels := Some q\<rparr>) (surfaces (ctx st))"
      using e g g2 g3 True st ds q(1) by (simp add: ecall_surface_blit_def Let_def)
    have "surface_event (ops H) (surfaces (ctx st)) (Draw d) (surfaces (ctx st'))"
      unfolding s using res st(5) p(2) q(2) by (intro surface_event.draw) simp_all
    moreover have "allowed st (Draw d)" using st(4) ds(1) a7 by (simp add: allowed_def)
    ultimately show ?thesis unfolding caused_def by blast
  next
    case False
    then show ?thesis using e g g2 g3 k
      by (intro caused_quiet) (auto simp: ecall_surface_blit_def Let_def split: option.splits)
  qed
qed

lemma caused_acquire:
  assumes a7: "regs st A7 = BLYT_ECALL_SURFACE_ACQUIRE" and e: "st' = ecall_surface_acquire H st"
  shows "caused H st st'"
proof -
  obtain ok h st1 where g: "blyt_surface_phase_gate st = (ok, h, st1)" by (cases "blyt_surface_phase_gate st") auto
  note k = phase_gate_ok [OF g] phase_gate_surfaces [OF g]
  obtain got c m where a: "blyt_surface_acquire_lock (ops H) (ctx st1) (gmem st1) (regs st A0) (regs st A1) (\<not> ok) = (got, c, m)"
    using prod_cases3 by blast
  show ?thesis
  proof (cases h)
    case True
    then show ?thesis using e g k by (intro caused_quiet) (simp add: ecall_surface_acquire_def)
  next
    case False
    then have s: "surfaces (ctx st') = surfaces c" using e g a by (simp add: ecall_surface_acquire_def)
    from a show ?thesis
    proof (cases rule: acquire_cases)
      case 1
      then show ?thesis using s k by (intro caused_quiet) simp
    next
      case (2 i)
      have r: "blyt_resolve_surface (surfaces (ctx st)) (regs st A0) = Some i" using 2(2) k by simp
      have "surface_event (ops H) (surfaces (ctx st)) (Acquire i) (surfaces (ctx st'))"
        unfolding s 2(5) using resolve_surface_Some [OF r] 2(3,4) k
        by (auto intro!: surface_event.acquire)
      moreover have "allowed st (Acquire i)" using a7 r by (simp add: allowed_def)
      ultimately show ?thesis unfolding caused_def by blast
    qed
  qed
qed

lemma caused_release:
  assumes a7: "regs st A7 = BLYT_ECALL_SURFACE_RELEASE" and e: "st' = ecall_surface_release H st"
  shows "caused H st st'"
proof (cases "blyt_resolve_lockview (surfaces (ctx st)) (regs st A0)")
  case None
  then show ?thesis using e by (intro caused_quiet) (simp add: ecall_surface_release_def blyt_surface_release_lock_def)
next
  case (Some i)
  have s: "surfaces (ctx st') = blyt_surface_flush_lock (ops H) (gmem st) i (surfaces (ctx st))"
    using e Some by (simp add: ecall_surface_release_def blyt_surface_release_lock_def)
  have "surface_event (ops H) (surfaces (ctx st)) (Release i) (surfaces (ctx st'))"
    unfolding s using resolve_lockview_Some [OF Some] by (intro surface_event.release) simp_all
  moreover have "allowed st (Release i)" using a7 Some by (simp add: allowed_def)
  ultimately show ?thesis unfolding caused_def by blast
qed

lemma caused_present:
  assumes mem: "guest_memory (ops H)" and a7: "regs st A7 = BLYT_ECALL_GFX_PRESENT" and e: "st' = ecall_gfx_present H st"
  shows "caused H st st'"
proof -
  define q where "q = memory_read (ops H) (gmem st) BLYT_GFX_FB_BASE 76800"
  have "length q = 76800" unfolding q_def using mem by (intro length_guest_read) (simp_all add: surface_consts)
  then have "surface_event (ops H) (surfaces (ctx st)) Present (surfaces (ctx st'))"
    unfolding e ecall_gfx_present_def Let_def by (auto simp: surface_consts q_def intro!: surface_event.present)
  moreover have "allowed st Present" using a7 by (simp add: allowed_def)
  ultimately show ?thesis unfolding caused_def by blast
qed

lemma keeps_surfaces:
  "surfaces (ctx (ecall_exit st)) = surfaces (ctx st)" "surfaces (ctx (ecall_console_debug H st)) = surfaces (ctx st)"
  "surfaces (ctx (ecall_phase st)) = surfaces (ctx st)" "surfaces (ctx (ecall_frame_done H st)) = surfaces (ctx st)"
  "surfaces (ctx (ecall_dap_hook st)) = surfaces (ctx st)" "surfaces (ctx (ecall_host_fn_return st)) = surfaces (ctx st)"
  "surfaces (ctx (ecall_unknown st)) = surfaces (ctx st)" "surfaces (ctx (ecall_gfx_acquire st)) = surfaces (ctx st)"
  "surfaces (ctx (ecall_gfx_palette_set H st)) = surfaces (ctx st)" "surfaces (ctx (ecall_mem_resources H st)) = surfaces (ctx st)"
  "surfaces (ctx (ecall_buf_op H st)) = surfaces (ctx st)" "surfaces (ctx (ecall_save_write st)) = surfaces (ctx st)"
  by (simp_all add: ecall_exit_def ecall_console_debug_def ecall_phase_def ecall_frame_done_def ecall_dap_hook_def
      ecall_host_fn_return_def ecall_unknown_def ecall_gfx_acquire_def ecall_gfx_palette_set_def ecall_mem_resources_def
      ecall_buf_op_def ecall_save_write_def buf_op_def put_state_def Let_def split: prod.splits option.splits)

lemma keeps_surfaces_pin: "surfaces (ctx (ecall_resource_pin H st)) = surfaces (ctx st)"
  by (auto simp: ecall_resource_pin_def pin_fail_def Let_def dest!: publish_surfaces split: prod.splits option.splits)

lemma keeps_surfaces_unpin: "surfaces (ctx (ecall_resource_unpin H st)) = surfaces (ctx st)"
  by (auto simp: ecall_resource_unpin_def Let_def dest!: publish_surfaces split: prod.splits option.splits)

lemma keeps_surfaces_load: "ecall_save_read st = Some st' \<Longrightarrow> surfaces (ctx st') = surfaces (ctx st)"
  by (auto simp: ecall_save_read_def put_state_def split: option.splits prod.splits)

lemma ecall_caused:
  assumes mem: "guest_memory (ops H)" and reg: "reg_wf (surfaces (ctx st))" and e: "blyt_ecall_handler H st = Some st'"
  shows "caused H st st'"
proof -
  note quiet = caused_quiet [OF keeps_surfaces(1)] caused_quiet [OF keeps_surfaces(2)] caused_quiet [OF keeps_surfaces(3)]
    caused_quiet [OF keeps_surfaces(4)] caused_quiet [OF keeps_surfaces(5)] caused_quiet [OF keeps_surfaces(6)]
    caused_quiet [OF keeps_surfaces(7)] caused_quiet [OF keeps_surfaces(8)] caused_quiet [OF keeps_surfaces(9)]
    caused_quiet [OF keeps_surfaces(10)] caused_quiet [OF keeps_surfaces(11)] caused_quiet [OF keeps_surfaces(12)]
    caused_quiet [OF keeps_surfaces_pin] caused_quiet [OF keeps_surfaces_unpin] caused_quiet [OF keeps_surfaces_load]
  note d = caused_draw [OF reg draws_sized(1), of "ucast (regs st A1)" st' H]
    caused_draw [OF reg draws_sized(2), of "sint (regs st A1)" "sint (regs st A2)" "ucast (regs st A3)" st' H]
    caused_draw [OF reg draws_sized(3), of "sint (regs st A1)" "sint (regs st A2)" "sint (regs st A3)" "sint (regs st A4)" "ucast (regs st A5)" st' H]
    caused_draw [OF reg draws_sized(4), of "regs st A1" "regs st A2" "regs st A3" "regs st A4" "ucast (regs st A5)" st' H]
  note s = caused_create caused_destroy caused_blit [OF reg] caused_acquire caused_release caused_present [OF mem]
  show ?thesis using e unfolding blyt_ecall_handler_def Let_def
    by (auto intro: quiet s simp: ecall_surface_clear_def ecall_surface_pixel_def ecall_surface_rect_fill_def ecall_surface_line_def
        dest: d split: if_splits)
qed

section \<open>Sessions\<close>

text \<open>
  The steps of a session: an ECALL, guest instructions (which change registers and guest memory as they like), the entry
  of a frame, and the host-side calls.
\<close>

inductive session_step :: "'m host \<Rightarrow> 'm machine \<Rightarrow> 'm machine \<Rightarrow> bool" for H where
  ecall: "blyt_ecall_handler H st = Some st' \<Longrightarrow> session_step H st st'"
| guest: "session_step H st (st\<lparr>regs := r, PC := p, csr_fcsr := f, gmem := m\<rparr>)"
| frame: "session_step H st (frame_entry H real_frame st)"
| host_create: "blyt_session_surface_create (ops H) (env H) (ctx st) (gmem st) w h = (handle, c, m) \<Longrightarrow>
    session_step H st (st\<lparr>ctx := c, gmem := m\<rparr>)"
| host_destroy: "blyt_session_surface_destroy (ops H) (ctx st) (gmem st) handle = (c, m) \<Longrightarrow>
    session_step H st (st\<lparr>ctx := c, gmem := m\<rparr>)"
| host_draw: "blyt_session_surface_drawable (ctx st) handle = Some i \<Longrightarrow>
    length q = nat (sf_w (slots (surfaces (ctx st)) ! i) * sf_h (slots (surfaces (ctx st)) ! i)) \<Longrightarrow>
    session_step H st (st\<lparr>ctx := put_pixels i (Some q) (ctx st)\<rparr>)"
| host_acquire: "blyt_session_surface_acquire (ctx st) handle = (r, c) \<Longrightarrow> session_step H st (st\<lparr>ctx := c\<rparr>)"
| host_release: "session_step H st (st\<lparr>ctx := blyt_session_surface_release (ops H) (ctx st) (gmem st) token\<rparr>)"
| host_reap: "blyt_session_reap_surfaces (ops H) (ctx st) (gmem st) = (c, m) \<Longrightarrow> session_step H st (st\<lparr>ctx := c, gmem := m\<rparr>)"
| host_peer: "blyt_session_set_peer_heap (ops H) (ctx st) (gmem st) n = (c, m) \<Longrightarrow> session_step H st (st\<lparr>ctx := c, gmem := m\<rparr>)"
| host_evict: "blyt_session_resource_evict_all (ops H) (ctx st) (gmem st) = (n, c, m) \<Longrightarrow>
    session_step H st (st\<lparr>ctx := c, gmem := m\<rparr>)"

inductive session_steps :: "'m host \<Rightarrow> 'm machine \<Rightarrow> 'm machine \<Rightarrow> bool" for H where
  start: "session_steps H st st"
| more: "session_steps H st st1 \<Longrightarrow> session_step H st1 st2 \<Longrightarrow> session_steps H st st2"

text \<open>A slot gives up its surface only by a bump of its generation.\<close>

definition life :: "nat \<Rightarrow> blyt_surface_registry \<Rightarrow> blyt_surface_registry \<Rightarrow> bool" where
  "life i reg reg' \<longleftrightarrow> sf_gen (slots reg' ! i) =
     sf_gen (slots reg ! i) + (if sf_in_use (slots reg ! i) \<and> \<not> sf_in_use (slots reg' ! i) then 1 else 0)"

definition ebb :: "nat \<Rightarrow> blyt_surface_registry \<Rightarrow> blyt_surface_registry \<Rightarrow> bool" where
  "ebb i reg reg' \<longleftrightarrow> life i reg reg' \<and> (sf_in_use (slots reg' ! i) \<longrightarrow> sf_in_use (slots reg ! i))"

lemma ebb_refl: "ebb i reg reg" by (simp add: ebb_def life_def)
lemma ebb_trans: "ebb i reg reg1 \<Longrightarrow> ebb i reg1 reg2 \<Longrightarrow> ebb i reg reg2"
  unfolding ebb_def life_def by (cases "sf_in_use (slots reg ! i)"; cases "sf_in_use (slots reg1 ! i)") simp_all

lemma ebb_flush: "ebb i reg (blyt_surface_flush_lock M m j reg)"
  by (auto simp: ebb_def life_def flush_slots)

lemma ebb_free: "ebb i reg (blyt_surface_free_slot j reg)"
  by (auto simp: ebb_def life_def free_slots)

lemma ebb_life: "ebb i reg reg' \<Longrightarrow> life i reg reg'" by (simp add: ebb_def)

lemma ebb_fold: "(\<And>j reg. ebb i reg (f j reg)) \<Longrightarrow> ebb i reg (fold f js reg)"
  by (induction js arbitrary: reg) (auto intro: ebb_refl ebb_trans)

lemma ebb_reap:
  assumes "blyt_surface_reap_all M c m = (c', m')"
  shows "ebb i (surfaces c) (surfaces c')"
proof -
  define r1 where "r1 = fold (blyt_surface_flush_lock M m) [0..<BLYT_SURFACE_MAX] (surfaces c)"
  define r2 where "r2 = fold blyt_surface_free_slot [1..<BLYT_SURFACE_MAX] r1"
  have "surfaces c' = r2\<lparr>lock_bump := 0, active_locks := 0\<rparr>"
    using publish_surfaces [OF assms [unfolded blyt_surface_reap_all_def Let_def]] by (simp add: r1_def r2_def)
  moreover have "ebb i (surfaces c) r2"
    unfolding r2_def r1_def by (rule ebb_trans [OF ebb_fold [OF ebb_flush] ebb_fold [OF ebb_free]])
  ultimately show ?thesis by (simp add: ebb_def life_def)
qed

lemma life_set_slot:
  assumes "i < length (slots reg)" "slots reg' = (slots reg)[j := s]" "sf_gen s = sf_gen (slots reg ! j)"
    "sf_in_use (slots reg ! j) \<Longrightarrow> sf_in_use s"
  shows "life i reg reg'"
  using assms by (cases "j = i") (auto simp: life_def)

lemma life_create:
  assumes "blyt_surface_create_slot M E c m w h = (handle, c', m')" "i < length (slots (surfaces c))"
  shows "life i (surfaces c) (surfaces c')"
  using assms(1)
proof (cases rule: create_cases)
  case 1
  then show ?thesis by (simp add: life_def)
next
  case (2 j)
  then show ?thesis by (intro life_set_slot [OF assms(2), where j = j], simp, simp_all)
qed

lemma life_event:
  assumes "surface_event M reg e reg'" "i < length (slots reg)"
  shows "life i reg reg'"
  using assms
proof cases
  case (create E c m w h handle c' m')
  then show ?thesis using life_create [of M E c m w h handle c' m' i] assms(2) by simp
next
  case (free j)
  then show ?thesis using ebb_free [of i reg j] by (simp add: ebb_def)
next
  case (release j m)
  then show ?thesis using ebb_flush [of i reg M m j] by (simp add: ebb_def)
next
  case (acquire j clear_only)
  then show ?thesis by (intro life_set_slot [OF assms(2), where j = j], simp add: acquired_def, simp_all)
next
  case (draw j q)
  then show ?thesis by (intro life_set_slot [OF assms(2), where j = j], simp, simp_all)
next
  case (present q)
  then show ?thesis by (intro life_set_slot [OF assms(2), where j = 0], simp, simp_all)
qed (simp add: life_def)

lemma life_direct:
  assumes "blyt_session_surface_acquire c handle = (r, c')" "i < length (slots (surfaces c))"
  shows "life i (surfaces c) (surfaces c')"
proof (cases r)
  case None
  then have "c' = c" using assms(1) by (auto simp: blyt_session_surface_acquire_def Let_def split: option.splits if_splits)
  then show ?thesis by (simp add: life_def)
next
  case (Some x)
  then obtain j s where "slots (surfaces c') = (slots (surfaces c))[j := s]" "sf_gen s = sf_gen (slots (surfaces c) ! j)"
      "sf_in_use (slots (surfaces c) ! j) \<Longrightarrow> sf_in_use s"
    using assms(1) by (fastforce simp: blyt_session_surface_acquire_def Let_def split: option.splits if_splits)
  then show ?thesis by (rule life_set_slot [OF assms(2)])
qed

lemma host_destroy_surfaces:
  assumes "blyt_session_surface_destroy M c m handle = (c', m')"
  shows "surfaces c' = surfaces c \<or> (\<exists>i < 64. surfaces c' = blyt_surface_free_slot i (surfaces c) \<and> \<not> sf_locked (slots (surfaces c) ! i))"
proof (cases "blyt_resolve_surface (surfaces c) handle")
  case (Some i)
  then have "i < 64" by (rule resolve_surface_Some)
  then show ?thesis using assms Some
    by (auto simp: blyt_session_surface_destroy_def Let_def dest!: publish_surfaces split: if_splits)
qed (use assms in \<open>simp add: blyt_session_surface_destroy_def\<close>)

lemma host_release_surfaces:
  "surfaces (blyt_session_surface_release M c m token) = surfaces c \<or>
    (\<exists>i < 64. surfaces (blyt_session_surface_release M c m token) = blyt_surface_flush_lock M m i (surfaces c))"
  using resolve_lockview_Some(1) by (auto simp: blyt_session_surface_release_def split: option.splits)

lemma frame_entry_surfaces:
  obtains "surfaces (ctx (frame_entry H real_frame st)) = surfaces (ctx st)"
  | c m c' m' where "surfaces c = surfaces (ctx st)" "blyt_surface_reap_all (ops H) c m = (c', m')"
      "surfaces (ctx (frame_entry H real_frame st)) = surfaces c'"
proof -
  define c0 where "c0 = (ctx st)\<lparr>frame_done := False, fn_return_done := False\<rparr>"
  define c1 where "c1 = c0\<lparr>resource_scratch_off := 0, resources := blyt_resource_table_force_release_pins (resources c0)\<rparr>"
  obtain c2 m2 where r: "(if real_frame then blyt_surface_reap_all (ops H) c1 (gmem st) else (c1, gmem st)) = (c2, m2)" by (rule prod.exhaust)
  obtain c3 m3 where p: "mem_acct_publish_footprint (ops H) c2 m2 = (c3, m3)" by (rule prod.exhaust)
  have "ctx (frame_entry H real_frame st) = c3"
    unfolding frame_entry_def Let_def c0_def [symmetric] c1_def [symmetric] by (simp add: r p)
  then have s: "surfaces (ctx (frame_entry H real_frame st)) = surfaces c2" using publish_surfaces [OF p] by simp
  have s1: "surfaces c1 = surfaces (ctx st)" by (simp add: c1_def c0_def)
  show thesis using that r s s1 by (cases real_frame) auto
qed

lemma session_step_wf:
  assumes mem: "guest_memory (ops H)" and reg: "reg_wf (surfaces (ctx st))" and step: "session_step H st st'"
  shows "reg_wf (surfaces (ctx st'))"
  using step
proof cases
  case ecall
  from ecall_caused [OF mem reg this] show ?thesis using surface_event_wf [OF mem reg] by (auto simp: caused_def)
next
  case (frame real_frame)
  show ?thesis
  proof (cases rule: frame_entry_surfaces [of H real_frame st])
    case 1
    then show ?thesis using frame reg by simp
  next
    case (2 c m c' m')
    then show ?thesis using frame reg reap_effect(1) [OF mem _ 2(2)] by simp
  qed
next
  case (host_create w h handle c m)
  then show ?thesis using reg_wf_create [OF reg] by (simp add: blyt_session_surface_create_def)
next
  case (host_destroy handle c m)
  then show ?thesis using host_destroy_surfaces [OF host_destroy(2)] reg reg_wf_free [OF reg] by auto
next
  case (host_draw handle i q)
  then have "blyt_resolve_surface (surfaces (ctx st)) handle = Some i"
    by (auto simp: blyt_session_surface_drawable_def split: option.splits if_splits)
  from resolve_surface_Some [OF this] show ?thesis using host_draw reg by (auto intro: reg_wf_pixels)
next
  case (host_acquire handle r c)
  then show ?thesis using reg_wf_direct [OF reg] by auto
next
  case (host_release token)
  then show ?thesis using host_release_surfaces [of "ops H" "ctx st" "gmem st" token] reg reg_wf_flush [OF mem reg] by auto
next
  case (host_reap c m)
  then show ?thesis using reap_effect(1) [OF mem reg] by (auto simp: blyt_session_reap_surfaces_def)
next
  case (host_peer n c m)
  then show ?thesis using reg by (auto simp: blyt_session_set_peer_heap_def dest: publish_surfaces)
next
  case (host_evict n c m)
  then show ?thesis using reg by (auto simp: blyt_session_resource_evict_all_def dest!: publish_surfaces split: prod.splits)
qed (use reg in simp)

lemma session_step_life:
  assumes mem: "guest_memory (ops H)" and reg: "reg_wf (surfaces (ctx st))" and step: "session_step H st st'" and i: "i < 64"
  shows "life i (surfaces (ctx st)) (surfaces (ctx st'))"
proof -
  have l: "i < length (slots (surfaces (ctx st)))" using reg_wfD(1) [OF reg] i by simp
  have same: "life i r r" for r by (simp add: life_def)
  from step show ?thesis
  proof cases
    case ecall
    from ecall_caused [OF mem reg this] show ?thesis using life_event [OF _ l] by (auto simp: caused_def)
  next
    case (frame real_frame)
    show ?thesis
    proof (cases rule: frame_entry_surfaces [of H real_frame st])
      case 1
      then show ?thesis using frame same by simp
    next
      case (2 c m c' m')
      then show ?thesis using frame ebb_reap [OF 2(2), of i] by (simp add: ebb_def)
    qed
  next
    case (host_create w h handle c m)
    then show ?thesis using life_create [OF _ l] by (simp add: blyt_session_surface_create_def)
  next
    case (host_destroy handle c m)
    then show ?thesis using host_destroy_surfaces [OF host_destroy(2)] same ebb_life [OF ebb_free] by auto
  next
    case (host_draw handle j q)
    then show ?thesis by (intro life_set_slot [OF l, where j = j], simp, simp_all)
  next
    case (host_acquire handle r c)
    then show ?thesis using life_direct [OF _ l] by auto
  next
    case (host_release token)
    then show ?thesis using host_release_surfaces [of "ops H" "ctx st" "gmem st" token] same ebb_life [OF ebb_flush] by auto
  next
    case (host_reap c m)
    then show ?thesis using ebb_reap [of "ops H" "ctx st" "gmem st" c m i] by (simp add: blyt_session_reap_surfaces_def ebb_def)
  next
    case (host_peer n c m)
    then show ?thesis using same by (auto simp: blyt_session_set_peer_heap_def dest!: publish_surfaces)
  next
    case (host_evict n c m)
    then show ?thesis using same by (auto simp: blyt_session_resource_evict_all_def dest!: publish_surfaces split: prod.splits)
  qed (simp add: same)
qed


section \<open>Properties of sessions\<close>

lemma session_steps_wf:
  assumes "session_steps H st st'" "guest_memory (ops H)" "reg_wf (surfaces (ctx st))"
  shows "reg_wf (surfaces (ctx st'))"
  using assms by (induction rule: session_steps.induct) (auto intro: session_step_wf)

text \<open>
  C13. The registry of a session is well typed in every reachable state.  Start with a fresh session and let the guest
  run any instructions and any ECALLs, let frames begin and let the host use its surface calls, in any order: every
  surface in use has a buffer of exactly width times height bytes with both sides between 1 and 8192, slot 0 is always
  the 320 by 240 screen, the bytes charged to the budget are exactly the sizes of the off-screen surfaces,
  \<^verbatim>\<open>active_locks\<close> counts the locked slots, and the regions of the guest's pixel locks lie in the used part of the
  32 MiB lock arena and do not overlap.
\<close>
theorem session_surfaces_typed:
  assumes "guest_memory (ops H)" and "surfaces (ctx st0) = init_surfaces pixels" and "length pixels = 76800"
    and "session_steps H st0 st"
  shows "reg_wf (surfaces (ctx st))"
  using session_steps_wf [OF assms(4,1)] assms(2,3) by (simp add: init_surfaces_wf)

text \<open>How often a slot gave up its surface along a run.\<close>

inductive session_run :: "'m host \<Rightarrow> nat \<Rightarrow> 'm machine \<Rightarrow> nat \<Rightarrow> 'm machine \<Rightarrow> bool" for H i where
  start: "session_run H i st 0 st"
| step: "session_run H i st n st1 \<Longrightarrow> session_step H st1 st2 \<Longrightarrow>
    session_run H i st (n + (if sf_in_use (slots (surfaces (ctx st1)) ! i) \<and> \<not> sf_in_use (slots (surfaces (ctx st2)) ! i)
      then 1 else 0)) st2"

lemma session_run_gen:
  assumes "session_run H i st n st'" "guest_memory (ops H)" "reg_wf (surfaces (ctx st))" "i < 64"
  shows "reg_wf (surfaces (ctx st')) \<and> sf_gen (slots (surfaces (ctx st')) ! i) = sf_gen (slots (surfaces (ctx st)) ! i) + of_nat n"
  using assms
proof (induction rule: session_run.induct)
  case (step st n st1 st2)
  then have "reg_wf (surfaces (ctx st1))" "sf_gen (slots (surfaces (ctx st1)) ! i) = sf_gen (slots (surfaces (ctx st)) ! i) + of_nat n" by auto
  then show ?case using session_step_wf [OF step.prems(1) _ step.hyps(2)] session_step_life [OF step.prems(1) _ step.hyps(2) step.prems(3)]
    by (simp add: life_def)
qed simp

lemma of_nat_u16_0: "(of_nat n :: u16) = 0 \<longleftrightarrow> 65536 dvd n"
  by (simp add: word_of_nat_eq_0_iff)

text \<open>
  C14. Stale handles.  The handle that a successful create returned resolves to its slot, at any later point of any
  run, exactly when the slot is in use and the number of surfaces the slot has given up since is a multiple of 65536:
  no handle of a freed surface reaches a later surface of the slot before 65536 surfaces of that slot came and went.
\<close>
theorem stale_surface_handle:
  assumes mem: "guest_memory (ops H)" and reg: "reg_wf (surfaces (ctx st))"
    and create: "blyt_surface_create_slot (ops H) (env H) (ctx st) (gmem st) w h = (handle, c, m)" "handle \<noteq> BLYT_HANDLE_NONE"
    and run: "session_run H (unat (blyt_dyn_decode_index handle)) (st\<lparr>ctx := c, gmem := m\<rparr>) n st'"
  shows "blyt_resolve_surface (surfaces (ctx st')) handle =
    (if sf_in_use (slots (surfaces (ctx st')) ! unat (blyt_dyn_decode_index handle)) \<and> 65536 dvd n
     then Some (unat (blyt_dyn_decode_index handle)) else None)"
  using create(1)
proof (cases rule: create_cases)
  case (2 i)
  note hd = surface_handle [OF 2(7), of "sf_gen (slots (surfaces (ctx st)) ! i)"]
  have ix: "unat (blyt_dyn_decode_index handle) = i" using hd 2(9) by simp
  have l: "i < length (slots (surfaces (ctx st)))" using 2(7) reg_wfD(1) [OF reg] by simp
  have "reg_wf (surfaces c)" by (rule reg_wf_create [OF reg create(1)])
  then have "sf_gen (slots (surfaces (ctx st')) ! i) = sf_gen (slots (surfaces c) ! i) + of_nat n"
    using session_run_gen [OF run [unfolded ix] mem _ 2(7)] by simp
  also have "sf_gen (slots (surfaces c) ! i) = sf_gen (slots (surfaces (ctx st)) ! i)" using 2(10) l by simp
  finally have "ucast (blyt_dyn_decode_gen handle) = sf_gen (slots (surfaces (ctx st')) ! i) \<longleftrightarrow> (of_nat n :: u16) = 0"
    using hd(3) 2(9) by simp
  then show ?thesis using hd(1,2) 2(7,9) by (simp add: blyt_resolve_surface_def Let_def surface_consts of_nat_u16_0)
qed (use create(2) in simp)

text \<open>
  C4. Who may change pixels.  When an ECALL changes the canonical pixels of a surface that is in use before and after
  it, the ECALL is \<^verbatim>\<open>GFX_PRESENT\<close> and the surface is the screen, or it is a \<^verbatim>\<open>SURFACE_RELEASE\<close> with the token of a lock
  that is held on the surface and was taken in \<^verbatim>\<open>draw()\<close>, or it is one of the five drawing calls with a handle of the
  surface, the phase is \<^verbatim>\<open>draw()\<close> and the surface is not locked.
\<close>
theorem pixels_change_only:
  assumes mem: "guest_memory (ops H)" and reg: "reg_wf (surfaces (ctx st))" and e: "blyt_ecall_handler H st = Some st'"
    and i: "i < 64" "sf_in_use (slots (surfaces (ctx st)) ! i)" "sf_in_use (slots (surfaces (ctx st')) ! i)"
    and change: "sf_pixels (slots (surfaces (ctx st')) ! i) \<noteq> sf_pixels (slots (surfaces (ctx st)) ! i)"
  shows "regs st A7 = BLYT_ECALL_GFX_PRESENT \<and> i = 0 \<or>
    regs st A7 = BLYT_ECALL_SURFACE_RELEASE \<and> blyt_resolve_lockview (surfaces (ctx st)) (regs st A0) = Some i \<and>
      \<not> sf_lock_phantom (slots (surfaces (ctx st)) ! i) \<or>
    regs st A7 \<in> {BLYT_ECALL_SURFACE_CLEAR, BLYT_ECALL_SURFACE_PIXEL, BLYT_ECALL_SURFACE_RECT_FILL, BLYT_ECALL_SURFACE_LINE,
      BLYT_ECALL_SURFACE_BLIT} \<and> phase (ctx st) = BLYT_PHASE_DRAW \<and>
      blyt_resolve_surface (surfaces (ctx st)) (regs st A0) = Some i \<and> \<not> sf_locked (slots (surfaces (ctx st)) ! i)"
proof -
  obtain ev where a: "allowed st ev" and s: "surface_event (ops H) (surfaces (ctx st)) ev (surfaces (ctx st'))"
    using ecall_caused [OF mem reg e] by (auto simp: caused_def)
  have l: "i < length (slots (surfaces (ctx st)))" using reg_wfD(1) [OF reg] i(1) by simp
  from s show ?thesis
  proof cases
    case (draw j q)
    then have "j = i" using change by (cases "j = i") auto
    then show ?thesis using draw a by (simp add: allowed_def)
  next
    case (present q)
    then have "i = 0" using change by (cases "i = 0") auto
    then show ?thesis using present a by (simp add: allowed_def)
  next
    case (create E c m w h handle c' m')
    from create(3) show ?thesis
    proof (cases rule: create_cases)
      case 1
      then show ?thesis using create by simp
    next
      case (2 j)
      then have "j \<noteq> i" using create(4) i(2) by auto
      then show ?thesis using 2(10) create(2,4) change by simp
    qed
  next
    case (free j)
    then show ?thesis using i change by (auto simp: free_slots split: if_splits)
  next
    case (acquire j clear_only)
    then show ?thesis using change l by (cases "j = i") (simp_all add: acquired_def)
  next
    case (release j m)
    then have "j = i" "\<not> sf_lock_phantom (slots (surfaces (ctx st)) ! i)" using change by (auto simp: flush_slots split: if_splits)
    then show ?thesis using release a by (simp add: allowed_def)
  qed (use change in simp)
qed

text \<open>The handler returns.\<close>

lemma save_read_total: "\<exists>rc version sc'. blyt_save_read f sc dir name slot = Some (rc, version, sc')"
proof -
  have "\<exists>r. blys_read h vs file_source content = Some r" for h vs content using host_file.blys_read_total by (metis prod_cases4)
  then show ?thesis by (auto simp: blyt_save_read_def split: option.splits)
qed

lemma surface_draw_returns:
  assumes "\<And>s. \<exists>p. draw s = Some p"
  shows "\<exists>st'. surface_draw dst draw st = Some st' \<and> (halted st' \<or> PC st' = PC st + 4)"
proof -
  obtain ok h st1 where g: "blyt_surface_phase_gate st = (ok, h, st1)" by (cases "blyt_surface_phase_gate st") auto
  let ?r = "blyt_resolve_surface (surfaces (ctx st1)) dst"
  obtain ok2 h2 st2 where g2: "blyt_surface_lock_gate st1 ?r = (ok2, h2, st2)" by (cases "blyt_surface_lock_gate st1 ?r") auto
  have pc: "h \<and> halted st1 \<or> \<not> h \<and> PC st1 = PC st" using g by (auto simp: blyt_surface_phase_gate_def split: if_splits)
  have pc2: "h2 \<and> halted st2 \<or> \<not> h2 \<and> PC st2 = PC st1" using g2 by (auto simp: blyt_surface_lock_gate_def split: if_splits option.splits)
  show ?thesis
  proof (cases "ok \<and> ok2")
    case True
    then have "st1 = st" "st2 = st" using phase_gate_ok [OF g] lock_gate_ok [OF g2] by auto
    then show ?thesis using True g g2 assms
      by (cases ?r) (auto simp: surface_draw_def Let_def split: option.splits)
  next
    case False
    then show ?thesis using g g2 pc pc2 phase_gate_ok [OF g] by (auto simp: surface_draw_def Let_def gate_return_def)
  qed
qed

lemma gates_move:
  "blyt_surface_phase_gate st = (ok, h, st1) \<Longrightarrow> h \<and> halted st1 \<or> \<not> h \<and> PC st1 = PC st"
  "blyt_surface_lock_gate st s = (ok, h, st1) \<Longrightarrow> h \<and> halted st1 \<or> \<not> h \<and> PC st1 = PC st"
  by (auto simp: blyt_surface_phase_gate_def blyt_surface_lock_gate_def split: if_splits option.splits)

lemma cases_move:
  "halted (ecall_exit st)" "PC (ecall_console_debug H st) = PC st + 4" "PC (ecall_phase st) = PC st + 4"
  "halted (ecall_frame_done H st)" "PC (ecall_dap_hook st) = PC st + 4" "halted (ecall_host_fn_return st)" "halted (ecall_unknown st)"
  "PC (ecall_gfx_acquire st) = PC st + 4" "PC (ecall_gfx_present H st) = PC st + 4" "PC (ecall_gfx_palette_set H st) = PC st + 4"
  "PC (ecall_mem_resources H st) = PC st + 4" "PC (ecall_buf_op H st) = PC st + 4" "PC (ecall_save_write st) = PC st + 4"
  "PC (ecall_surface_release H st) = PC st + 4" "PC (ecall_resource_pin H st) = PC st + 4" "PC (ecall_resource_unpin H st) = PC st + 4"
  by (simp_all add: ecall_exit_def ecall_console_debug_def ecall_phase_def ecall_frame_done_def ecall_dap_hook_def
      ecall_host_fn_return_def ecall_unknown_def ecall_gfx_acquire_def ecall_gfx_present_def ecall_gfx_palette_set_def
      ecall_mem_resources_def ecall_buf_op_def ecall_save_write_def buf_op_def put_state_def ecall_surface_release_def
      ecall_resource_pin_def ecall_resource_unpin_def pin_fail_def Let_def split: prod.splits option.splits)

lemma create_moves: "halted (ecall_surface_create H st) \<or> PC (ecall_surface_create H st) = PC st + 4"
  using gates_move(1) [of st] by (auto simp: ecall_surface_create_def Let_def split: prod.splits)

lemma destroy_moves: "halted (ecall_surface_destroy H st) \<or> PC (ecall_surface_destroy H st) = PC st + 4"
proof -
  let ?s = "blyt_resolve_surface (surfaces (ctx st)) (regs st A0)"
  obtain ok h st1 where g: "blyt_surface_lock_gate st ?s = (ok, h, st1)" by (cases "blyt_surface_lock_gate st ?s") auto
  then show ?thesis using gates_move(2) [OF g] lock_gate_ok [OF g]
    by (auto simp: ecall_surface_destroy_def gate_return_def Let_def split: prod.splits option.splits)
qed

lemma blit_moves: "halted (ecall_surface_blit st) \<or> PC (ecall_surface_blit st) = PC st + 4"
proof -
  obtain ok h st1 where g: "blyt_surface_phase_gate st = (ok, h, st1)" by (cases "blyt_surface_phase_gate st") auto
  let ?d = "blyt_resolve_surface (surfaces (ctx st1)) (regs st A0)" and ?s = "blyt_resolve_surface (surfaces (ctx st1)) (regs st A1)"
  obtain ok2 h2 st2 where g2: "blyt_surface_lock_gate st1 ?d = (ok2, h2, st2)" by (cases "blyt_surface_lock_gate st1 ?d") auto
  obtain ok3 h3 st3 where g3: "blyt_surface_lock_gate st2 ?s = (ok3, h3, st3)" by (cases "blyt_surface_lock_gate st2 ?s") auto
  note m = gates_move(1) [OF g] gates_move(2) [OF g2] gates_move(2) [OF g3]
  note k = phase_gate_ok [OF g] lock_gate_ok [OF g2, THEN conjunct2, THEN conjunct1] lock_gate_ok [OF g3, THEN conjunct2, THEN conjunct1]
  consider "\<not> ok" | "ok" "\<not> ok2" | "ok" "ok2" "\<not> ok3" | "ok" "ok2" "ok3" by blast
  then show ?thesis
    by cases (use g g2 g3 m k in \<open>auto simp: ecall_surface_blit_def gate_return_def Let_def split: option.splits\<close>)
qed

lemma acquire_moves: "halted (ecall_surface_acquire H st) \<or> PC (ecall_surface_acquire H st) = PC st + 4"
  using gates_move(1) [of st] by (auto simp: ecall_surface_acquire_def Let_def split: prod.splits)

lemma save_read_moves: "\<exists>st'. ecall_save_read st = Some st' \<and> PC st' = PC st + 4"
proof (cases "state_ctx (ctx st)"; cases "save_dir (ctx st)")
  fix sc dir assume "state_ctx (ctx st) = Some sc" "save_dir (ctx st) = Some dir"
  then show ?thesis using save_read_total [of "fs st" sc "Some dir" "Some (cart_name (ctx st))" "regs st A0"]
    by (auto simp: ecall_save_read_def put_state_def)
qed (auto simp: ecall_save_read_def)


section \<open>Pinned bytes\<close>

lemma publish_reads:
  assumes mem: "guest_memory M" and p: "mem_acct_publish_footprint M c m = (c', m')" and a: "unat (mem_acct_vaddr c) + 12 \<le> unat b"
    and b: "unat b + n \<le> 268435456"
  shows "memory_read M m' b n = memory_read M m b n"
proof (cases "mem_acct_vaddr c = 0")
  case True
  then show ?thesis using p by (simp add: mem_acct_publish_footprint_def)
next
  case False
  have off: "unat (mem_acct_vaddr c + 4) = unat (mem_acct_vaddr c) + 4" "unat (mem_acct_vaddr c + 8) = unat (mem_acct_vaddr c) + 8"
    using a b by (simp_all add: unat_add_small)
  obtain x y where m': "m' = memory_write M (memory_write M m (mem_acct_vaddr c + 4) (write_u32_le x)) (mem_acct_vaddr c + 8) (write_u32_le y)"
    using p False by (auto simp: mem_acct_publish_footprint_def Let_def split: prod.splits)
  show ?thesis unfolding m' using off a b mem by (simp add: guest_read_other write_u32_le_bytes)
qed

lemma publish_pins:
  assumes p: "mem_acct_publish_footprint M c m = (c', m')" and i: "i < length (entries (resources c))"
  shows "re_rl (entries (resources c') ! i) = re_rl (entries (resources c) ! i)"
proof -
  have "table_keeps E True (entries (resources c)) (entries (resources c'))" for E
    using publish_keeps [OF p] fit_keeps [OF surjective_pairing]
    by (auto simp: blyt_resource_table_evict_to_fit_def case_prod_unfold Let_def)
  then show ?thesis using i by (auto simp: table_keeps_def list_all2_conv_all_nth)
qed

lemma write_out_reads:
  assumes "guest_memory M" "unat v + 4 \<le> 268435456"
  shows "v \<noteq> 0 \<Longrightarrow> mem_acct_read_u32 M (write_out M v x m) v = x"
    "unat b + n \<le> 268435456 \<Longrightarrow> unat b + n \<le> unat v \<or> unat v + 4 \<le> unat b \<Longrightarrow> memory_read M (write_out M v x m) b n = memory_read M m b n"
  using assms by (simp_all add: write_out_def read_u32_le_of guest_read_same guest_read_other)

lemma find_index_bound: "find_index P es = Some i \<Longrightarrow> i < length es"
  by (induction P es arbitrary: i rule: find_index.induct) (auto split: if_splits option.splits)

lemma resolve_resource_bound: "blyt_resolve_resource t handle = Some i \<Longrightarrow> i < length (entries t)"
  by (auto simp: blyt_resolve_resource_def blyt_resource_table_find_mut_def split: if_splits dest: find_index_bound)

text \<open>The address a pin of \<open>n\<close> bytes gets.\<close>

definition scratch_at :: "blyt_run_ctx \<Rightarrow> nat \<Rightarrow> u32" where
  "scratch_at c n = (if resource_scratch_off c + of_nat n > BLYT_RESOURCE_SCRATCH_SIZE then 0 else resource_scratch_off c)"

lemma scratch_at_bounds:
  assumes "n \<le> 16777216" "resource_scratch_off c \<le> BLYT_RESOURCE_SCRATCH_SIZE"
  shows "unat (scratch_at c n) + n \<le> 16777216" "unat (BLYT_RESOURCE_SCRATCH_BASE + scratch_at c n) = 100663296 + unat (scratch_at c n)"
proof -
  have un: "unat (of_nat n :: u32) = n" using assms(1) by (simp add: unsigned_of_nat take_bit_nat_eq_self)
  have "unat (resource_scratch_off c + of_nat n) = unat (resource_scratch_off c) + n"
    using assms un by (subst unat_add_small) (auto simp: BLYT_RESOURCE_SCRATCH_SIZE_def word_le_nat_alt)
  then show o: "unat (scratch_at c n) + n \<le> 16777216" using assms(1)
    by (auto simp: scratch_at_def BLYT_RESOURCE_SCRATCH_SIZE_def word_less_nat_alt not_less)
  show "unat (BLYT_RESOURCE_SCRATCH_BASE + scratch_at c n) = 100663296 + unat (scratch_at c n)"
    using o by (subst unat_add_small) (simp_all add: BLYT_RESOURCE_SCRATCH_BASE_def)
qed

lemma pin_runs:
  assumes "blyt_resolve_resource (resources (ctx st)) (regs st A0) = Some i" "e = entries (resources (ctx st)) ! i"
    and "mem_acct_reference_fits (ops H) (ctx st) (gmem st) e (blyt_rl_is_evictable (re_rl e))"
    and "blyt_resource_entry_data (env H) e = (Some b, e1)" "re_len e1 = length b" "length b \<le> 16777216"
    and gptr: "gptr = BLYT_RESOURCE_SCRATCH_BASE + scratch_at (ctx st) (length b)"
    and "m1 = (if length b \<noteq> 0 then memory_write (ops H) (gmem st) gptr b else gmem st)"
    and "t = blyt_resource_table_touch i (set_entry i (e1\<lparr>re_rl := blyt_rl_pin (re_rl e1)\<rparr>) (resources (ctx st)))"
    and "mem_acct_publish_footprint (ops H)
      ((ctx st)\<lparr>resources := t, resource_scratch_off := scratch_at (ctx st) (length b) + of_nat (length b)\<rparr>) m1 = (c2, m2)"
  shows "ecall_resource_pin H st =
    advance (set_reg A0 0 (st\<lparr>ctx := c2, gmem := write_out (ops H) (regs st A2) (of_nat (length b)) (write_out (ops H) (regs st A1) gptr m2)\<rparr>))"
proof -
  have un: "unat (of_nat (length b) :: u32) = length b" using assms(6) by (simp add: unsigned_of_nat take_bit_nat_eq_self)
  have z: "(of_nat (length b) :: u32) = 0 \<longleftrightarrow> length b = 0" 
  proof
    assume "(of_nat (length b) :: u32) = 0"
    then show "length b = 0" using un by (simp only: unat_0)
  qed simp
  have "\<not> (of_nat (length b) :: u32) > BLYT_RESOURCE_SCRATCH_SIZE" using un assms(6) by (simp add: BLYT_RESOURCE_SCRATCH_SIZE_def word_less_nat_alt)
  moreover have "(if BLYT_RESOURCE_SCRATCH_SIZE < resource_scratch_off (ctx st) + of_nat (length b) then 0 else resource_scratch_off (ctx st)) =
      scratch_at (ctx st) (length b)" by (simp add: scratch_at_def)
  moreover note assms(4) [unfolded assms(2)] assms(3) [unfolded assms(2)] assms(10) [unfolded assms(8,9) gptr]
  ultimately show ?thesis unfolding ecall_resource_pin_def
    using assms(1,5) un z by (simp add: Let_def gptr split del: if_split cong: if_cong)
qed


section \<open>Example\<close>

definition demo_host :: "mem host" where
  "demo_host = \<lparr>ops = flat_ops, env = demo_env, ndebug = False\<rparr>"

definition demo_machine :: "(reg \<Rightarrow> u32) \<Rightarrow> mem machine" where
  "demo_machine r = \<lparr>regs = r, PC = 0, csr_fcsr = 0, halted = False, gmem = (\<lambda>x. 0), ctx = demo_ctx, fs = demo_fs None\<rparr>"

definition demo_args :: "u32 \<Rightarrow> u32 \<Rightarrow> u32 \<Rightarrow> u32 \<Rightarrow> u32 \<Rightarrow> reg \<Rightarrow> u32" where
  "demo_args num a0 a1 a2 a3 = (\<lambda>r. case r of A0 \<Rightarrow> a0 | A1 \<Rightarrow> a1 | A2 \<Rightarrow> a2 | A3 \<Rightarrow> a3 | A7 \<Rightarrow> num | _ \<Rightarrow> 5)"

lemma demo_fields [simp]:
  "ops demo_host = flat_ops" "env demo_host = demo_env" "ctx (demo_machine r) = demo_ctx" "gmem (demo_machine r) = (\<lambda>x. 0)"
  "regs (demo_machine r) = r" "demo_args num a0 a1 a2 a3 A0 = a0" "demo_args num a0 a1 a2 a3 A1 = a1" "demo_args num a0 a1 a2 a3 A2 = a2"
  "demo_args num a0 a1 a2 a3 A3 = a3" "demo_args num a0 a1 a2 a3 A4 = 5" "demo_args num a0 a1 a2 a3 A7 = num"
  by (simp_all add: demo_host_def demo_machine_def demo_args_def)

theorem session_surfaces_typed_witness:
  "reg_wf (surfaces (ctx (frame_entry demo_host True (ecall_surface_create demo_host (demo_machine (demo_args 106 16 16 0 0))))))"
proof -
  let ?st = "demo_machine (demo_args 106 16 16 0 0)"
  have "blyt_ecall_handler demo_host ?st = Some (ecall_surface_create demo_host ?st)"
    by (simp add: blyt_ecall_handler_def ecall_nums)
  then have steps: "session_steps demo_host ?st (frame_entry demo_host True (ecall_surface_create demo_host ?st))"
    by (blast intro: session_steps.intros session_step.intros)
  have "surfaces (ctx ?st) = init_surfaces (replicate 76800 7)" by (simp add: demo_ctx_def)
  from session_surfaces_typed [OF _ this _ steps] show ?thesis using flat_memory by simp
qed

definition demo_surface :: blyt_surface_slot where
  "demo_surface = empty_slot\<lparr>sf_pixels := Some (replicate 256 0), sf_w := 16, sf_h := 16, sf_in_use := True, sf_owned := True\<rparr>"

definition demo_created :: blyt_run_ctx where
  "demo_created = demo_ctx\<lparr>surfaces := (set_slot 1 demo_surface (surfaces demo_ctx))\<lparr>surface_bytes := 256\<rparr>\<rparr>"

lemma demo_create: "blyt_surface_create_slot flat_ops demo_env demo_ctx m 16 16 = (blyt_surface_encode 0 1, demo_created, m)"
proof -
  have s: "slots (surfaces demo_ctx) ! 1 = empty_slot" "surface_bytes (surfaces demo_ctx) = 0" "mem_acct_vaddr demo_ctx = 0"
      "resources demo_ctx = demo_table" "peer_heap demo_ctx = 0"
    by (simp_all add: demo_ctx_def init_surfaces_def surface_consts)
  have u: "[1..<64] = 1 # [Suc 1..<64]" by (rule upt_conv_Cons) simp
  have f: "free_index (surfaces demo_ctx) = 1"
    unfolding free_index_def BLYT_SURFACE_MAX_def u find.simps s(1) by (simp add: empty_slot_def)
  have "blyt_resource_table_footprint demo_table = 4" by code_simp
  moreover have "blyt_mem_alloc_fits 0 4 256" by code_simp
  ultimately show ?thesis
    by (simp add: blyt_surface_create_slot_def Let_def surface_consts f s mem_acct_guest_heap_used_def ctx_non_evictable_footprint_def
        demo_alloc_ok mem_acct_publish_footprint_def demo_created_def demo_surface_def empty_slot_def
        del: One_nat_def)
qed

lemma demo_created_slot:
  "slots (surfaces demo_created) ! 1 = demo_surface" "mem_acct_vaddr demo_created = 0"
  "slots (blyt_surface_free_slot 1 (surfaces demo_created)) ! 1 =
     demo_surface\<lparr>sf_pixels := None, sf_in_use := False, sf_owned := False, sf_gen := 1\<rparr>"
  by (simp_all add: demo_created_def demo_ctx_def init_surfaces_def surface_consts blyt_surface_free_slot_def demo_surface_def empty_slot_def Let_def)

lemma demo_destroy:
  "blyt_session_surface_destroy flat_ops demo_created m (blyt_surface_encode 0 1) =
     (demo_created\<lparr>surfaces := blyt_surface_free_slot 1 (surfaces demo_created)\<rparr>, m)"
proof -
  have "blyt_resolve_surface (surfaces demo_created) (blyt_surface_encode 0 1) = Some 1"
    using surface_handle [of 1 0] demo_created_slot(1)
    by (simp add: blyt_resolve_surface_def surface_consts demo_surface_def empty_slot_def)
  then show ?thesis using demo_created_slot(1,2)
    by (simp add: blyt_session_surface_destroy_def mem_acct_publish_footprint_def demo_surface_def empty_slot_def)
qed

theorem stale_surface_handle_witness:
  "blyt_resolve_surface (blyt_surface_free_slot 1 (surfaces demo_created)) (blyt_surface_encode 0 1) = None \<and>
   blyt_surface_create_slot flat_ops demo_env demo_ctx (\<lambda>x. 0) 16 16 = (blyt_surface_encode 0 1, demo_created, (\<lambda>x. 0))"
proof -
  let ?st = "demo_machine (\<lambda>r. 0)"
  let ?st1 = "?st\<lparr>ctx := demo_created, gmem := (\<lambda>x. 0)\<rparr>"
  let ?st2 = "?st1\<lparr>ctx := demo_created\<lparr>surfaces := blyt_surface_free_slot 1 (surfaces demo_created)\<rparr>, gmem := (\<lambda>x. 0)\<rparr>"
  have ix: "unat (blyt_dyn_decode_index (blyt_surface_encode 0 1)) = 1" using surface_handle(2) [of 1 0] by simp
  have "session_step demo_host ?st1 ?st2"
    by (rule session_step.host_destroy [where handle = "blyt_surface_encode 0 1"]) (simp add: demo_destroy)
  from session_run.step [OF session_run.start this, of 1]
  have run: "session_run demo_host (unat (blyt_dyn_decode_index (blyt_surface_encode 0 1))) ?st1 1 ?st2"
    unfolding ix by (simp add: demo_created_slot demo_surface_def del: One_nat_def)
  have "blyt_surface_encode 0 1 \<noteq> BLYT_HANDLE_NONE" by code_simp
  from stale_surface_handle [OF _ _ _ this run, of 16 16] show ?thesis
    using flat_memory demo_ctx_wf by (simp add: demo_create demo_created_slot ix del: One_nat_def)
qed

theorem pixels_change_only_witness:
  "sf_pixels (slots (surfaces (ctx (ecall_gfx_present demo_host (demo_machine (demo_args 105 0 0 0 0))))) ! 0) = Some (replicate 76800 0) \<and>
   BLYT_ECALL_GFX_PRESENT = 105"
proof -
  let ?st = "demo_machine (demo_args 105 0 0 0 0)"
  have e: "blyt_ecall_handler demo_host ?st = Some (ecall_gfx_present demo_host ?st)"
    by (simp add: blyt_ecall_handler_def ecall_nums)
  have s: "slots (surfaces (ctx (ecall_gfx_present demo_host ?st))) ! 0 = (slots (surfaces demo_ctx) ! 0)\<lparr>sf_pixels := Some (replicate 76800 0)\<rparr>"
    using reg_wfD(1) [OF demo_ctx_wf] by (simp add: ecall_gfx_present_def Let_def surface_consts flat_ops_def mem_read_def map_replicate_trivial)
  have "(0::nat) < 64" "replicate 76800 (0 :: u8) \<noteq> replicate 76800 7" by (simp_all add: replicate_eq_replicate)
  then show ?thesis using pixels_change_only [OF _ _ e, of 0] flat_memory demo_ctx_wf
    by (simp add: s demo_slot empty_slot_def ecall_nums)
qed



end
