(* ===== verification/Cart_Load.thy ===== *)
theory Cart_Load
  imports Elf_Section
begin

text \<open>
  The cart validator (\<^verbatim>\<open>runtime/host/src/libblyt/cart_load.c\<close>, structures in \<^verbatim>\<open>elf32.h\<close>): the checks that an untrusted
  ELF image must pass before the session maps it.  The image is a byte list; every load is checked, and an outer \<open>None\<close>
  means that the C code would read outside of the mapped file.  The readers that flatcc generates for the FlatBuffers
  sections are parameters (\<open>fb_ops\<close>), as are the outcomes of \<^verbatim>\<open>open\<close>, \<^verbatim>\<open>mmap\<close> and \<^verbatim>\<open>malloc\<close>.
\<close>

section \<open>ELF structures\<close>

record Elf32_Ehdr =
  e_ident :: bytes
  e_type :: u16
  e_machine :: u16
  e_version :: u32
  e_entry :: u32
  e_phoff :: u32
  e_shoff :: u32
  e_flags :: u32
  e_ehsize :: u16
  e_phentsize :: u16
  e_phnum :: u16
  e_shentsize :: u16
  e_shnum :: u16
  e_shstrndx :: u16

record Elf32_Shdr =
  sh_name :: u32
  sh_type :: u32
  sh_flags :: u32
  sh_addr :: u32
  sh_offset :: u32
  sh_size :: u32
  sh_link :: u32
  sh_info :: u32
  sh_addralign :: u32
  sh_entsize :: u32

record Elf32_Dyn =
  d_tag :: u32
  d_val :: u32

record Elf32_Phdr =
  p_type :: u32
  p_offset :: u32
  p_vaddr :: u32
  p_paddr :: u32
  p_filesz :: u32
  p_memsz :: u32
  p_flags :: u32
  p_align :: u32

record Elf32_Sym =
  st_name :: u32
  st_value :: u32
  st_size :: u32
  st_info :: u8
  st_other :: u8
  st_shndx :: u16

definition EM_RISCV :: u16 where "EM_RISCV = 243"
definition BLYT_CART_EF_FLAGS :: u32 where "BLYT_CART_EF_FLAGS = 0x0001 OR 0x0004"
definition PT_LOAD :: u32 where "PT_LOAD = 1"
definition PT_INTERP :: u32 where "PT_INTERP = 3"
definition PT_GNU_STACK :: u32 where "PT_GNU_STACK = 0x6474e551"
definition PT_GNU_RELRO :: u32 where "PT_GNU_RELRO = 0x6474e552"
definition PF_X :: u32 where "PF_X = 1"
definition PF_W :: u32 where "PF_W = 2"
definition STB_LOCAL :: u8 where "STB_LOCAL = 0"
definition STB_GLOBAL :: u8 where "STB_GLOBAL = 1"
definition STT_FUNC :: u8 where "STT_FUNC = 2"
definition SHN_UNDEF :: u16 where "SHN_UNDEF = 0"
definition SHT_STRTAB :: u32 where "SHT_STRTAB = 3"
definition SHT_NOBITS :: u32 where "SHT_NOBITS = 8"
definition SHT_DYNSYM :: u32 where "SHT_DYNSYM = 11"
definition DT_NULL :: u32 where "DT_NULL = 0"
definition DT_NEEDED :: u32 where "DT_NEEDED = 1"
definition DT_STRTAB :: u32 where "DT_STRTAB = 5"
definition DT_STRSZ :: u32 where "DT_STRSZ = 10"

definition ELF32_ST_BIND :: "u8 \<Rightarrow> u8" where "ELF32_ST_BIND i = drop_bit 4 i"
definition ELF32_ST_TYPE :: "u8 \<Rightarrow> u8" where "ELF32_ST_TYPE i = i AND 0xf"

text \<open>Reading a structure through a pointer into the image.\<close>

definition read_ehdr :: "bytes \<Rightarrow> Elf32_Ehdr option" where
  "read_ehdr elf = do {
     ty \<leftarrow> u16_at elf 16; machine \<leftarrow> u16_at elf 18; version \<leftarrow> u32_at elf 20; entry \<leftarrow> u32_at elf 24; phoff \<leftarrow> u32_at elf 28;
     shoff \<leftarrow> u32_at elf 32; flags \<leftarrow> u32_at elf 36; ehsize \<leftarrow> u16_at elf 40; phentsize \<leftarrow> u16_at elf 42; phnum \<leftarrow> u16_at elf 44;
     shentsize \<leftarrow> u16_at elf 46; num \<leftarrow> u16_at elf 48; shstrndx \<leftarrow> u16_at elf 50;
     Some \<lparr>e_ident = take 16 elf, e_type = ty, e_machine = machine, e_version = version, e_entry = entry, e_phoff = phoff,
       e_shoff = shoff, e_flags = flags, e_ehsize = ehsize, e_phentsize = phentsize, e_phnum = phnum, e_shentsize = shentsize,
       e_shnum = num, e_shstrndx = shstrndx\<rparr>
   }"

definition read_phdr :: "bytes \<Rightarrow> nat \<Rightarrow> Elf32_Phdr option" where
  "read_phdr elf a = do {
     ty \<leftarrow> u32_at elf a; offset \<leftarrow> u32_at elf (a + 4); vaddr \<leftarrow> u32_at elf (a + 8); paddr \<leftarrow> u32_at elf (a + 12);
     filesz \<leftarrow> u32_at elf (a + 16); memsz \<leftarrow> u32_at elf (a + 20); flags \<leftarrow> u32_at elf (a + 24); align \<leftarrow> u32_at elf (a + 28);
     Some \<lparr>p_type = ty, p_offset = offset, p_vaddr = vaddr, p_paddr = paddr, p_filesz = filesz, p_memsz = memsz,
       p_flags = flags, p_align = align\<rparr>
   }"

definition read_shdr :: "bytes \<Rightarrow> nat \<Rightarrow> Elf32_Shdr option" where
  "read_shdr elf a = do {
     name \<leftarrow> u32_at elf a; ty \<leftarrow> u32_at elf (a + 4); flags \<leftarrow> u32_at elf (a + 8); addr \<leftarrow> u32_at elf (a + 12);
     offset \<leftarrow> u32_at elf (a + 16); sz \<leftarrow> u32_at elf (a + 20); link \<leftarrow> u32_at elf (a + 24); info \<leftarrow> u32_at elf (a + 28);
     align \<leftarrow> u32_at elf (a + 32); entsize \<leftarrow> u32_at elf (a + 36);
     Some \<lparr>sh_name = name, sh_type = ty, sh_flags = flags, sh_addr = addr, sh_offset = offset, sh_size = sz, sh_link = link,
       sh_info = info, sh_addralign = align, sh_entsize = entsize\<rparr>
   }"

definition read_dyn :: "bytes \<Rightarrow> nat \<Rightarrow> Elf32_Dyn option" where
  "read_dyn elf a = do { tag \<leftarrow> u32_at elf a; v \<leftarrow> u32_at elf (a + 4); Some \<lparr>d_tag = tag, d_val = v\<rparr> }"

definition read_sym :: "bytes \<Rightarrow> nat \<Rightarrow> Elf32_Sym option" where
  "read_sym elf a = do {
     name \<leftarrow> u32_at elf a; val \<leftarrow> u32_at elf (a + 4); sz \<leftarrow> u32_at elf (a + 8); info \<leftarrow> byte_at elf (a + 12);
     other \<leftarrow> byte_at elf (a + 13); shndx \<leftarrow> u16_at elf (a + 14);
     Some \<lparr>st_name = name, st_value = val, st_size = sz, st_info = info, st_other = other, st_shndx = shndx\<rparr>
   }"

definition slice_at :: "bytes \<Rightarrow> nat \<Rightarrow> nat \<Rightarrow> bytes option" where
  "slice_at elf a n = (if a + n \<le> length elf then Some (slice a n elf) else None)"

text \<open>\<^verbatim>\<open>strcmp\<close> and \<^verbatim>\<open>strncmp\<close> of a string in the image with a literal: bytes are read up to the first difference.\<close>

fun c_streq :: "bytes \<Rightarrow> nat \<Rightarrow> bytes \<Rightarrow> bool option" where
  "c_streq elf a [] = do { c \<leftarrow> byte_at elf a; Some (c = 0) }"
| "c_streq elf a (x # xs) = do { c \<leftarrow> byte_at elf a; if c = x then c_streq elf (Suc a) xs else Some False }"

fun c_prefix :: "bytes \<Rightarrow> nat \<Rightarrow> bytes \<Rightarrow> bool option" where
  "c_prefix elf a [] = Some True"
| "c_prefix elf a (x # xs) = do { c \<leftarrow> byte_at elf a; if c = x then c_prefix elf (Suc a) xs else Some False }"

fun any_streq :: "bytes \<Rightarrow> nat \<Rightarrow> string list \<Rightarrow> bool option" where
  "any_streq elf a [] = Some False"
| "any_streq elf a (s # ss) = do { b \<leftarrow> c_streq elf a (ascii s); if b then Some True else any_streq elf a ss }"

section \<open>Name lists\<close>

definition BLYT_INTERP_PATH :: bytes where "BLYT_INTERP_PATH = ascii ''/lib/ld-blyt.so.1'' @ [0]"

definition DENIED_SECTIONS :: "string list" where
  "DENIED_SECTIONS = [''.init_array'', ''.fini_array'', ''.preinit_array'', ''.ctors'', ''.dtors'']"

definition section_name_denied :: "bytes \<Rightarrow> nat \<Rightarrow> bool option" where
  "section_name_denied elf name = any_streq elf name DENIED_SECTIONS"

definition NEEDED_ALLOWLIST :: "string list" where
  "NEEDED_ALLOWLIST = [''libblyt32.so'', ''libblyt32lua.so'']"

definition needed_name_allowed :: "bytes \<Rightarrow> nat \<Rightarrow> bool option" where
  "needed_name_allowed elf name = any_streq elf name NEEDED_ALLOWLIST"

definition ALLOWED_API :: "string list" where
  "ALLOWED_API = [''blyt_main'', ''blyt_exit'', ''blyt_runtime_startup'', ''blyt_console_debug'', ''blyt_quit'', ''blyt_frame_done'',
     ''blyt_buffer_get_f32'', ''blyt_buffer_set_f32'', ''blyt_buffer_get_f64'', ''blyt_buffer_set_f64'',
     ''blyt_buffer_get_i32'', ''blyt_buffer_set_i32'', ''blyt_buffer_get_u32'', ''blyt_buffer_set_u32'',
     ''blyt_buffer_get_i16'', ''blyt_buffer_set_i16'', ''blyt_buffer_get_u16'', ''blyt_buffer_set_u16'',
     ''blyt_buffer_get_i8'', ''blyt_buffer_set_i8'', ''blyt_buffer_get_u8'', ''blyt_buffer_set_u8'',
     ''blyt_buffer_get_bool'', ''blyt_buffer_set_bool'', ''blyt_buffer_alloc_slot'', ''blyt_buffer_free_slot'',
     ''blyt_buffer_ref'', ''blyt_buffer_ref_valid'', ''blyt_save_write'', ''blyt_save_read'', ''blyt_resource_pin'',
     ''blyt_resource_unpin'', ''blyt_resource_text_get'', ''blyt_resource_bytes_get'', ''blyt_surface_create'',
     ''blyt_surface_destroy'', ''blyt_surface_clear'', ''blyt_surface_pixel'', ''blyt_surface_rect_fill'',
     ''blyt_surface_line'', ''blyt_surface_blit'', ''blyt_surface_acquire'', ''blyt_surface_release'',
     ''blyt_gfx_acquire'', ''blyt_gfx_present'', ''blyt_gfx_palette_set'', ''blyt_raster_clear'', ''blyt_raster_pixel'',
     ''blyt_raster_rect_fill'', ''blyt_raster_line'', ''blyt_raster_blit'', ''blyt_mem_stats'', ''blyt_mem_resources'']"

definition ALLOWED_LIBC :: "string list" where
  "ALLOWED_LIBC = [''malloc'', ''free'', ''realloc'', ''calloc'', ''aligned_alloc'', ''posix_memalign'', ''abort'', ''memcpy'',
     ''memmove'', ''memset'', ''memcmp'', ''memchr'', ''strlen'', ''strcmp'', ''strncmp'', ''strcpy'', ''strncpy'',
     ''strcat'', ''strncat'', ''strchr'', ''strrchr'', ''strstr'', ''strtok'', ''strtok_r'', ''strdup'', ''strndup'',
     ''strcasecmp'', ''strncasecmp'', ''mempcpy'', ''stpcpy'', ''stpncpy'', ''explicit_bzero'', ''bcopy'', ''bzero'',
     ''bcmp'', ''strerror'', ''strtol'', ''strtoul'', ''strtoll'', ''strtoull'', ''strtod'', ''strtof'', ''atoi'',
     ''atol'', ''atoll'', ''atof'', ''qsort'', ''bsearch'', ''abs'', ''labs'', ''llabs'', ''snprintf'', ''vsnprintf'',
     ''sscanf'', ''vsscanf'', ''fmemopen'', ''fclose'', ''fread'', ''fwrite'', ''fseek'', ''ftell'', ''rewind'', ''feof'',
     ''ferror'', ''clearerr'', ''setjmp'', ''longjmp'', ''isalpha'', ''isdigit'', ''isalnum'', ''isspace'', ''ispunct'',
     ''islower'', ''isupper'', ''isprint'', ''iscntrl'', ''isxdigit'', ''tolower'', ''toupper'']"

definition ALLOWED_MATH :: "string list" where
  "ALLOWED_MATH = [''sinf'', ''cosf'', ''tanf'', ''asinf'', ''acosf'', ''atanf'', ''atan2f'', ''expf'', ''exp2f'', ''logf'', ''log2f'',
     ''log10f'', ''powf'', ''sqrtf'', ''cbrtf'', ''fabsf'', ''floorf'', ''ceilf'', ''roundf'', ''truncf'', ''nearbyintf'',
     ''rintf'', ''fmodf'', ''remainderf'', ''hypotf'', ''fmaf'', ''ldexpf'', ''frexpf'', ''modff'', ''copysignf'',
     ''fmaxf'', ''fminf'', ''fdimf'', ''scalbnf'', ''scalblnf'', ''logbf'', ''significandf'', ''ilogbf'', ''j0f'',
     ''j1f'', ''lgammaf'', ''tgammaf'', ''erff'', ''erfcf'', ''sinh'', ''cosh'', ''tanh'', ''sinhf'', ''coshf'',
     ''tanhf'', ''asinhf'', ''acoshf'', ''atanhf'', ''expm1f'', ''log1pf'', ''sin'', ''cos'', ''tan'', ''asin'', ''acos'',
     ''atan'', ''atan2'', ''exp'', ''exp2'', ''log'', ''log2'', ''log10'', ''pow'', ''sqrt'', ''cbrt'', ''fabs'',
     ''floor'', ''ceil'', ''round'', ''trunc'', ''nearbyint'', ''rint'', ''fmod'', ''remainder'', ''hypot'', ''fma'',
     ''ldexp'', ''frexp'', ''modf'', ''copysign'', ''fmax'', ''fmin'', ''fdim'', ''scalbn'', ''scalbln'', ''logb'',
     ''ilogb'', ''erf'', ''erfc'', ''expm1'', ''log1p'', ''asinh'', ''acosh'', ''atanh'', ''lgamma'', ''tgamma'', ''j0'',
     ''j1'', ''localeconv'']"

definition ALLOWED_RT :: "string list" where
  "ALLOWED_RT = [''__extendsfdf2'', ''__truncdfsf2'', ''__extendsftf2'', ''__extenddftf2'', ''__trunctfsf2'', ''__trunctfdf2'',
     ''__floatsidf'', ''__floatdidf'', ''__floatdisf'', ''__floatditf'', ''__floatsitf'', ''__floatunsidf'',
     ''__floatunsitf'', ''__fixdfsi'', ''__fixdfdi'', ''__fixsfdi'', ''__fixtfsi'', ''__fixtfdi'', ''__fixunstfsi'',
     ''__adddf3'', ''__subdf3'', ''__muldf3'', ''__divdf3'', ''__addtf3'', ''__subtf3'', ''__multf3'', ''__divtf3'',
     ''__eqdf2'', ''__nedf2'', ''__ltdf2'', ''__ledf2'', ''__gtdf2'', ''__gedf2'', ''__eqtf2'', ''__netf2'', ''__lttf2'',
     ''__letf2'', ''__gttf2'', ''__getf2'', ''__unordtf2'', ''__udivdi3'', ''__umoddi3'', ''__lshrdi3'', ''__ashrdi3'',
     ''__ashldi3'', ''__muldi3'', ''__divdi3'', ''__moddi3'', ''__fpclassify'', ''__fpclassifyf'', ''__fpclassifyl'',
     ''__signbit'', ''__signbitf'', ''__signbitl'', ''__stack_chk_guard'', ''__stack_chk_fail'']"


definition SYMBOL_ALLOWLIST :: "string list" where
  "SYMBOL_ALLOWLIST = ALLOWED_API @ ALLOWED_LIBC @ ALLOWED_MATH @ ALLOWED_RT"

definition REQUIRED_ENTRY_POINTS :: "string list" where
  "REQUIRED_ENTRY_POINTS = [''blyt_cart_init'', ''blyt_cart_update'', ''blyt_cart_draw'']"

definition symbol_name_allowed :: "bytes \<Rightarrow> nat \<Rightarrow> bool option" where
  "symbol_name_allowed elf name = any_streq elf name SYMBOL_ALLOWLIST"

section \<open>Bounds helpers\<close>

definition in_bounds :: "nat \<Rightarrow> nat \<Rightarrow> nat \<Rightarrow> bool" where
  "in_bounds map_size off len \<longleftrightarrow> \<not> len > map_size \<and> \<not> off > map_size - len"

definition u32_add_le :: "u32 \<Rightarrow> u32 \<Rightarrow> nat \<Rightarrow> bool" where
  "u32_add_le a b limit \<longleftrightarrow> unat (ucast a + ucast b :: u64) \<le> limit"

definition ranges_overlap :: "u32 \<Rightarrow> u32 \<Rightarrow> u32 \<Rightarrow> u32 \<Rightarrow> bool" where
  "ranges_overlap a alen b blen =
     (if alen = 0 \<or> blen = 0 then False
      else (ucast a :: u64) < ucast b + ucast blen \<and> (ucast b :: u64) < ucast a + ucast alen)"

section \<open>Errors\<close>

datatype blyt_cart_err =
  BLYT_CART_ERR_IO | BLYT_CART_ERR_TOO_SMALL | BLYT_CART_ERR_NOT_ELF | BLYT_CART_ERR_BAD_CLASS | BLYT_CART_ERR_BAD_ENDIAN
| BLYT_CART_ERR_BAD_OSABI | BLYT_CART_ERR_BAD_MACHINE | BLYT_CART_ERR_BAD_FLAGS | BLYT_CART_ERR_BAD_SHDR
| BLYT_CART_ERR_DENIED_SECT | BLYT_CART_ERR_BAD_NEEDED | BLYT_CART_ERR_NO_CART_INFO | BLYT_CART_ERR_BAD_PREAMBLE
| BLYT_CART_ERR_BAD_CART_INFO | BLYT_CART_ERR_BAD_CART_CONFIG | BLYT_CART_ERR_API_VERSION | BLYT_CART_ERR_BAD_SEGMENT
| BLYT_CART_ERR_BAD_INTERP | BLYT_CART_ERR_NO_RELRO | BLYT_CART_ERR_BAD_OPCODE | BLYT_CART_ERR_BAD_IMPORT
| BLYT_CART_ERR_MISSING_ENTRY | BLYT_CART_ERR_BAD_LAYOUTS | BLYT_CART_ERR_BAD_ID | BLYT_CART_ERR_BAD_TITLE
| BLYT_CART_ERR_BAD_VERSION

text \<open>\<open>None\<close> is a read outside of the image; \<open>Inl\<close> is the error that \<^verbatim>\<open>goto fail\<close> reports.\<close>

type_synonym 'a check = "(blyt_cart_err + 'a) option"

abbreviation fail :: "blyt_cart_err \<Rightarrow> 'a check" where "fail e \<equiv> Some (Inl e)"
abbreviation pass :: "'a \<Rightarrow> 'a check" where "pass x \<equiv> Some (Inr x)"

definition and_then :: "'a check \<Rightarrow> ('a \<Rightarrow> 'b check) \<Rightarrow> 'b check" where
  "and_then c f = (case c of None \<Rightarrow> None | Some (Inl e) \<Rightarrow> Some (Inl e) | Some (Inr x) \<Rightarrow> f x)"

section \<open>Identity\<close>

definition check_ident :: "Elf32_Ehdr \<Rightarrow> unit check" where
  "check_ident eh =
     (if take 4 (e_ident eh) \<noteq> [0x7f, 0x45, 0x4c, 0x46] then fail BLYT_CART_ERR_NOT_ELF
      else if e_ident eh ! 4 \<noteq> 1 then fail BLYT_CART_ERR_BAD_CLASS
      else if e_ident eh ! 5 \<noteq> 1 then fail BLYT_CART_ERR_BAD_ENDIAN
      else if e_ident eh ! 7 \<noteq> 0 then fail BLYT_CART_ERR_BAD_OSABI
      else if e_machine eh \<noteq> EM_RISCV then fail BLYT_CART_ERR_BAD_MACHINE
      else if e_flags eh \<noteq> BLYT_CART_EF_FLAGS then fail BLYT_CART_ERR_BAD_FLAGS
      else pass ())"

section \<open>Segments\<close>

definition MAX_LOAD :: nat where "MAX_LOAD = 64"

record ph_state =
  loads :: "Elf32_Phdr list"
  has_relro :: bool
  has_interp :: bool
  entry_ok :: bool

definition check_interp :: "bytes \<Rightarrow> Elf32_Phdr \<Rightarrow> ph_state \<Rightarrow> ph_state check" where
  "check_interp elf ph s =
     (if p_type ph \<noteq> PT_INTERP then pass s
      else if \<not> u32_add_le (p_offset ph) (p_filesz ph) (length elf) then fail BLYT_CART_ERR_BAD_INTERP
      else if unat (p_filesz ph) \<noteq> length BLYT_INTERP_PATH \<or>
        slice (unat (p_offset ph)) (length BLYT_INTERP_PATH) elf \<noteq> BLYT_INTERP_PATH then fail BLYT_CART_ERR_BAD_INTERP
      else pass (s\<lparr>has_interp := True\<rparr>))"

definition check_load :: "bytes \<Rightarrow> Elf32_Ehdr \<Rightarrow> Elf32_Phdr \<Rightarrow> ph_state \<Rightarrow> ph_state check" where
  "check_load elf eh ph s =
     (if p_type ph \<noteq> PT_LOAD then pass s
      else if p_flags ph AND (PF_W OR PF_X) = PF_W OR PF_X then fail BLYT_CART_ERR_BAD_SEGMENT
      else if \<not> u32_add_le (p_offset ph) (p_filesz ph) (length elf) then fail BLYT_CART_ERR_BAD_SEGMENT
      else
        let s1 = (if p_flags ph AND PF_X \<noteq> 0 \<and> p_filesz ph > 0 \<and> e_entry eh \<ge> p_vaddr ph \<and>
                     e_entry eh < p_vaddr ph + p_filesz ph then s\<lparr>entry_ok := True\<rparr> else s)
        in pass (if length (loads s1) < MAX_LOAD then s1\<lparr>loads := loads s1 @ [ph]\<rparr> else s1))"

definition check_phdr :: "bytes \<Rightarrow> Elf32_Ehdr \<Rightarrow> Elf32_Phdr \<Rightarrow> ph_state \<Rightarrow> ph_state check" where
  "check_phdr elf eh ph s =
     and_then (check_interp elf ph s) (\<lambda>s1.
       let s2 = (if p_type ph = PT_GNU_RELRO then s1\<lparr>has_relro := True\<rparr> else s1)
       in if p_type ph = PT_GNU_STACK \<and> p_flags ph AND PF_X \<noteq> 0 then fail BLYT_CART_ERR_BAD_SEGMENT
          else check_load elf eh ph s2)"

definition phdr_at :: "Elf32_Ehdr \<Rightarrow> nat \<Rightarrow> nat" where
  "phdr_at eh i = unat (e_phoff eh) + i * unat (e_phentsize eh)"

fun phdr_loop :: "bytes \<Rightarrow> Elf32_Ehdr \<Rightarrow> nat list \<Rightarrow> ph_state \<Rightarrow> ph_state check" where
  "phdr_loop elf eh [] s = pass s"
| "phdr_loop elf eh (i # is) s =
     (case read_phdr elf (phdr_at eh i) of None \<Rightarrow> None
      | Some ph \<Rightarrow> and_then (check_phdr elf eh ph s) (phdr_loop elf eh is))"

definition loads_overlap :: "Elf32_Phdr \<Rightarrow> Elf32_Phdr \<Rightarrow> bool" where
  "loads_overlap p q \<longleftrightarrow>
     ranges_overlap (p_offset p) (p_filesz p) (p_offset q) (p_filesz q) \<or>
     ranges_overlap (p_vaddr p) (p_memsz p) (p_vaddr q) (p_memsz q)"

fun any_overlap :: "Elf32_Phdr list \<Rightarrow> bool" where
  "any_overlap [] \<longleftrightarrow> False"
| "any_overlap (p # ps) \<longleftrightarrow> list_ex (loads_overlap p) ps \<or> any_overlap ps"

definition ECALL :: bytes where "ECALL = [0x73, 0, 0, 0]"
definition EBREAK :: bytes where "EBREAK = [0x73, 0, 0x10, 0]"

fun scan_opcodes :: "bytes \<Rightarrow> bool" where
  "scan_opcodes (a # b # c # d # seg) \<longleftrightarrow>
     [a, b, c, d] = ECALL \<or> [a, b, c, d] = EBREAK \<or> scan_opcodes (c # d # seg)"
| "scan_opcodes _ \<longleftrightarrow> False"

definition bad_opcode :: "bytes \<Rightarrow> Elf32_Phdr \<Rightarrow> bool" where
  "bad_opcode elf ph \<longleftrightarrow> p_flags ph AND PF_X \<noteq> 0 \<and> \<not> p_filesz ph < 4 \<and>
     scan_opcodes (slice (unat (p_offset ph)) (unat (p_filesz ph)) elf)"

definition check_segments :: "bytes \<Rightarrow> Elf32_Ehdr \<Rightarrow> unit check" where
  "check_segments elf eh =
     (if \<not> e_phnum eh > 0 then pass ()
      else if e_phentsize eh < 32 then fail BLYT_CART_ERR_BAD_SEGMENT
      else if unat (e_phoff eh) + unat (e_phnum eh) * unat (e_phentsize eh) > length elf then fail BLYT_CART_ERR_BAD_SEGMENT
      else
        and_then (phdr_loop elf eh [0..<unat (e_phnum eh)]
            \<lparr>loads = [], has_relro = False, has_interp = False, entry_ok = (e_entry eh = 0)\<rparr>) (\<lambda>s.
          if \<not> entry_ok s then fail BLYT_CART_ERR_BAD_SEGMENT
          else if \<not> has_interp s then fail BLYT_CART_ERR_BAD_INTERP
          else if \<not> has_relro s then fail BLYT_CART_ERR_NO_RELRO
          else if any_overlap (loads s) then fail BLYT_CART_ERR_BAD_SEGMENT
          else if list_ex (bad_opcode elf) (loads s) then fail BLYT_CART_ERR_BAD_OPCODE
          else pass ()))"

section \<open>Sections\<close>

record sect_state =
  sect_cart_info :: "Elf32_Shdr option"
  sect_cart_config :: "Elf32_Shdr option"
  sect_cart_layouts :: "Elf32_Shdr option"
  sect_cart_lua :: "Elf32_Shdr option"
  sect_dynamic :: "Elf32_Shdr option"
  sect_dynsym :: "Elf32_Shdr option"
  sect_dynstr_sh :: "Elf32_Shdr option"
  has_dwarf :: bool

definition no_sections :: sect_state where
  "no_sections = \<lparr>sect_cart_info = None, sect_cart_config = None, sect_cart_layouts = None, sect_cart_lua = None,
     sect_dynamic = None, sect_dynsym = None, sect_dynstr_sh = None, has_dwarf = False\<rparr>"

text \<open>The section header table, as the array of the C code: its stride is the size of the structure.\<close>

fun read_shdrs :: "bytes \<Rightarrow> nat \<Rightarrow> nat \<Rightarrow> Elf32_Shdr list option" where
  "read_shdrs elf a 0 = Some []"
| "read_shdrs elf a (Suc n) = do { sh \<leftarrow> read_shdr elf a; shs \<leftarrow> read_shdrs elf (a + 40) n; Some (sh # shs) }"

definition shdr_table :: "bytes \<Rightarrow> Elf32_Ehdr \<Rightarrow> Elf32_Shdr list check" where
  "shdr_table elf eh =
     (if e_shentsize eh < 40 \<or> e_shnum eh = 0 \<or> e_shstrndx eh \<ge> e_shnum eh then fail BLYT_CART_ERR_BAD_SHDR
      else if unat (e_shoff eh) + unat (e_shnum eh) * unat (e_shentsize eh) > length elf then fail BLYT_CART_ERR_BAD_SHDR
      else case read_shdrs elf (unat (e_shoff eh)) (unat (e_shnum eh)) of None \<Rightarrow> None
      | Some shs \<Rightarrow>
          let str_sh = shs ! unat (e_shstrndx eh)
          in if \<not> in_bounds (length elf) (unat (sh_offset str_sh)) (unat (sh_size str_sh)) then fail BLYT_CART_ERR_BAD_SHDR
             else pass shs)"

definition note_section :: "bytes \<Rightarrow> nat \<Rightarrow> Elf32_Shdr \<Rightarrow> sect_state \<Rightarrow> sect_state option" where
  "note_section elf name sh s = do {
     debug \<leftarrow> c_prefix elf name (ascii ''.debug_'');
     zdebug \<leftarrow> (if debug then Some True else c_prefix elf name (ascii ''.zdebug_''));
     info \<leftarrow> c_streq elf name (ascii ''.cart.info'');
     config \<leftarrow> c_streq elf name (ascii ''.cart.config'');
     layouts \<leftarrow> c_streq elf name (ascii ''.cart.layouts'');
     lua \<leftarrow> c_streq elf name (ascii ''.cart.lua'');
     dyn \<leftarrow> c_streq elf name (ascii ''.dynamic'');
     dynstr \<leftarrow> c_streq elf name (ascii ''.dynstr'');
     Some \<lparr>sect_cart_info = (if info then Some sh else sect_cart_info s),
       sect_cart_config = (if config then Some sh else sect_cart_config s),
       sect_cart_layouts = (if layouts then Some sh else sect_cart_layouts s),
       sect_cart_lua = (if lua then Some sh else sect_cart_lua s),
       sect_dynamic = (if dyn then Some sh else sect_dynamic s),
       sect_dynsym = (if sh_type sh = SHT_DYNSYM then Some sh else sect_dynsym s),
       sect_dynstr_sh = (if dynstr then Some sh else sect_dynstr_sh s),
       has_dwarf = (has_dwarf s \<or> zdebug)\<rparr>
   }"

definition check_section :: "bytes \<Rightarrow> Elf32_Shdr \<Rightarrow> Elf32_Shdr \<Rightarrow> sect_state \<Rightarrow> sect_state check" where
  "check_section elf str_sh sh s =
     (if sh_name sh \<ge> sh_size str_sh then fail BLYT_CART_ERR_BAD_SHDR
      else
        let name = unat (sh_offset str_sh) + unat (sh_name sh)
        in do {
          denied \<leftarrow> section_name_denied elf name;
          if denied then fail BLYT_CART_ERR_DENIED_SECT
          else if sh_type sh \<noteq> SHT_NOBITS \<and> sh_size sh > 0 \<and>
            \<not> in_bounds (length elf) (unat (sh_offset sh)) (unat (sh_size sh)) then fail BLYT_CART_ERR_BAD_SHDR
          else map_option Inr (note_section elf name sh s)
        })"

fun section_loop :: "bytes \<Rightarrow> Elf32_Shdr \<Rightarrow> Elf32_Shdr list \<Rightarrow> sect_state \<Rightarrow> sect_state check" where
  "section_loop elf str_sh [] s = pass s"
| "section_loop elf str_sh (sh # shs) s = and_then (check_section elf str_sh sh s) (section_loop elf str_sh shs)"

section \<open>Needed libraries\<close>

text \<open>The string table and its size, as far as the entries before the null entry set them.\<close>

fun find_dynstr :: "bytes \<Rightarrow> Elf32_Shdr list \<Rightarrow> Elf32_Shdr \<Rightarrow> nat list \<Rightarrow> nat option \<times> u32 \<Rightarrow> (nat option \<times> u32) option" where
  "find_dynstr elf shs dyn [] acc = Some acc"
| "find_dynstr elf shs dyn (j # js) (dynstr, dynstr_size) = do {
     d \<leftarrow> read_dyn elf (unat (sh_offset dyn) + j * unat (sh_entsize dyn));
     if d_tag d = DT_NULL then Some (dynstr, dynstr_size)
     else
       let dynstr' = (if d_tag d = DT_STRTAB then
             (case find (\<lambda>sh. sh_type sh = SHT_STRTAB \<and> sh_addr sh = d_val d) shs of
                Some sh \<Rightarrow> Some (unat (sh_offset sh)) | None \<Rightarrow> dynstr) else dynstr);
           size' = (if d_tag d = DT_STRSZ then d_val d else dynstr_size)
       in find_dynstr elf shs dyn js (dynstr', size')
   }"

text \<open>Result: whether \<^verbatim>\<open>libblyt32lua.so\<close> is needed.\<close>

fun needed_loop :: "bytes \<Rightarrow> Elf32_Shdr \<Rightarrow> nat option \<times> u32 \<Rightarrow> nat list \<Rightarrow> bool \<Rightarrow> bool check" where
  "needed_loop elf dyn strs [] lua = pass lua"
| "needed_loop elf dyn strs (j # js) lua = do {
     d \<leftarrow> read_dyn elf (unat (sh_offset dyn) + j * unat (sh_entsize dyn));
     if d_tag d = DT_NULL then pass lua
     else if d_tag d \<noteq> DT_NEEDED then needed_loop elf dyn strs js lua
     else case fst strs of None \<Rightarrow> fail BLYT_CART_ERR_BAD_NEEDED
     | Some dynstr \<Rightarrow>
         if d_val d \<ge> snd strs then fail BLYT_CART_ERR_BAD_NEEDED
         else do {
           allowed \<leftarrow> needed_name_allowed elf (dynstr + unat (d_val d));
           if \<not> allowed then fail BLYT_CART_ERR_BAD_NEEDED
           else do {
             l \<leftarrow> c_streq elf (dynstr + unat (d_val d)) (ascii ''libblyt32lua.so'');
             needed_loop elf dyn strs js (lua \<or> l)
           }
         }
   }"

definition check_needed :: "bytes \<Rightarrow> Elf32_Shdr list \<Rightarrow> sect_state \<Rightarrow> bool check" where
  "check_needed elf shs s =
     (case sect_dynamic s of None \<Rightarrow> pass False
      | Some dyn \<Rightarrow>
          if sh_entsize dyn < 8 then fail BLYT_CART_ERR_BAD_SHDR
          else
            let js = [0..<unat (sh_size dyn div sh_entsize dyn)]
            in do {
              strs \<leftarrow> find_dynstr elf shs dyn js (None, 0);
              needed_loop elf dyn strs js False
            })"

section \<open>Imports\<close>

definition is_import :: "Elf32_Sym \<Rightarrow> bool" where
  "is_import sy \<longleftrightarrow> ELF32_ST_BIND (st_info sy) = STB_GLOBAL \<and> st_shndx sy = SHN_UNDEF"

definition import_allowed :: "bytes \<Rightarrow> bool \<Rightarrow> nat \<Rightarrow> bool option" where
  "import_allowed elf has_lua name = do {
     lua_api \<leftarrow> (if \<not> has_lua then Some False
       else do { l \<leftarrow> c_prefix elf name (ascii ''lua_''); if l then Some True else c_prefix elf name (ascii ''luaL_'') });
     if lua_api then Some True else symbol_name_allowed elf name
   }"

fun import_loop :: "bytes \<Rightarrow> bool \<Rightarrow> Elf32_Shdr \<Rightarrow> (nat \<times> u32) option \<Rightarrow> nat list \<Rightarrow> unit check" where
  "import_loop elf has_lua symtab symstr [] = pass ()"
| "import_loop elf has_lua symtab symstr (j # js) = do {
     sy \<leftarrow> read_sym elf (unat (sh_offset symtab) + j * unat (sh_entsize symtab));
     if \<not> is_import sy then import_loop elf has_lua symtab symstr js
     else case symstr of None \<Rightarrow> fail BLYT_CART_ERR_BAD_IMPORT
     | Some (str, sz) \<Rightarrow>
         if st_name sy \<ge> sz then fail BLYT_CART_ERR_BAD_IMPORT
         else do {
           allowed \<leftarrow> import_allowed elf has_lua (str + unat (st_name sy));
           if \<not> allowed then fail BLYT_CART_ERR_BAD_IMPORT else import_loop elf has_lua symtab symstr js
         }
   }"

definition symbol_strings :: "Elf32_Shdr list \<Rightarrow> sect_state \<Rightarrow> Elf32_Shdr \<Rightarrow> (nat \<times> u32) option" where
  "symbol_strings shs s symtab =
     (case sect_dynstr_sh s of Some sh \<Rightarrow> Some (unat (sh_offset sh), sh_size sh)
      | None \<Rightarrow>
          if unat (sh_link symtab) < length shs
          then Some (unat (sh_offset (shs ! unat (sh_link symtab))), sh_size (shs ! unat (sh_link symtab))) else None)"

definition check_imports :: "bytes \<Rightarrow> Elf32_Shdr list \<Rightarrow> sect_state \<Rightarrow> bool \<Rightarrow> unit check" where
  "check_imports elf shs s has_lua =
     (case sect_dynsym s of None \<Rightarrow> pass ()
      | Some symtab \<Rightarrow>
          if sh_entsize symtab < 16 then fail BLYT_CART_ERR_BAD_SHDR
          else import_loop elf has_lua symtab (symbol_strings shs s symtab) [0..<unat (sh_size symtab div sh_entsize symtab)])"

section \<open>FlatBuffers sections\<close>

record cart_info =
  api_version_major :: u16
  ci_debug :: bool
  ci_id :: "bytes option"
  ci_title :: "bytes option"
  ci_version :: "bytes option"

text \<open>The verifiers and readers that flatcc generates; a reader gives \<open>None\<close> for a null table.\<close>

record fb_ops =
  CartInfo_verify :: "bytes \<Rightarrow> bool"
  CartInfo_as_root :: "bytes \<Rightarrow> cart_info option"
  CartConfig_verify :: "bytes \<Rightarrow> bool"
  CartConfig_as_root :: "bytes \<Rightarrow> (u32 \<times> u32) option"
  CartLayouts_verify :: "bytes \<Rightarrow> bool"

definition BLYT_API_VERSION_MAJOR :: u16 where "BLYT_API_VERSION_MAJOR = 0"
definition CART_INFO_TAG :: bytes where "CART_INFO_TAG = ascii ''CINF''"
definition CART_CONFIG_TAG :: bytes where "CART_CONFIG_TAG = ascii ''CCFG''"
definition CART_LAYOUTS_TAG :: bytes where "CART_LAYOUTS_TAG = ascii ''CLAY''"
definition SECT_PREAMBLE_SIZE :: nat where "SECT_PREAMBLE_SIZE = 8"

text \<open>Result: the place and the size of the buffer after a valid preamble.\<close>

definition check_preamble :: "bytes \<Rightarrow> nat \<Rightarrow> nat \<Rightarrow> bytes \<Rightarrow> (nat \<times> nat) option option" where
  "check_preamble elf a sect_size expected_tag =
     (if sect_size < SECT_PREAMBLE_SIZE then Some None
      else do {
        tag \<leftarrow> slice_at elf a 4;
        if tag \<noteq> expected_tag then Some None
        else do {
          major \<leftarrow> u16_at elf (a + 4);
          if major \<noteq> 0 then Some None else Some (Some (a + SECT_PREAMBLE_SIZE, sect_size - SECT_PREAMBLE_SIZE))
        }
      })"

text \<open>The aligned copy that is handed to the verifier.\<close>

definition load_fb :: "bytes \<Rightarrow> (nat \<Rightarrow> bool) \<Rightarrow> Elf32_Shdr \<Rightarrow> bytes \<Rightarrow> bytes check" where
  "load_fb elf alloc sh tag = do {
     fb \<leftarrow> check_preamble elf (unat (sh_offset sh)) (unat (sh_size sh)) tag;
     case fb of None \<Rightarrow> fail BLYT_CART_ERR_BAD_PREAMBLE
     | Some (a, n) \<Rightarrow> if \<not> alloc n then fail BLYT_CART_ERR_IO else map_option Inr (slice_at elf a n)
   }"

definition id_char :: "u8 \<Rightarrow> bool" where
  "id_char c \<longleftrightarrow> 97 \<le> c \<and> c \<le> 122 \<or> 48 \<le> c \<and> c \<le> 57"

definition cart_id_valid :: "bytes option \<Rightarrow> bool" where
  "cart_id_valid s =
     (case s of None \<Rightarrow> False
      | Some cid \<Rightarrow>
          if cid = [] then False
          else if length cid > 63 then False
          else if \<not> id_char (hd cid) then False
          else list_all (\<lambda>c. id_char c \<or> c = 95 \<or> c = 45) cid)"

definition cart_text_valid :: "bytes option \<Rightarrow> bool" where
  "cart_text_valid s =
     (case s of None \<Rightarrow> False | Some t \<Rightarrow> t \<noteq> [] \<and> list_all (\<lambda>c. \<not> (c < 0x20 \<or> c = 0x7f)) t)"

definition strdup_of :: "(nat \<Rightarrow> bool) \<Rightarrow> bytes option \<Rightarrow> bytes option" where
  "strdup_of alloc s = (case s of None \<Rightarrow> None | Some t \<Rightarrow> if alloc (length t + 1) then Some t else None)"

text \<open>Result: debug flag, id, title and version.\<close>

definition check_info ::
    "fb_ops \<Rightarrow> bytes \<Rightarrow> (nat \<Rightarrow> bool) \<Rightarrow> sect_state \<Rightarrow> (bool \<times> bytes \<times> bytes \<times> bytes) check" where
  "check_info F elf alloc s =
     (case sect_cart_info s of None \<Rightarrow> fail BLYT_CART_ERR_NO_CART_INFO
      | Some sh \<Rightarrow>
          and_then (load_fb elf alloc sh CART_INFO_TAG) (\<lambda>fb.
            if \<not> CartInfo_verify F fb then fail BLYT_CART_ERR_BAD_CART_INFO
            else case CartInfo_as_root F fb of None \<Rightarrow> fail BLYT_CART_ERR_BAD_CART_INFO
            | Some info \<Rightarrow>
                let cid = strdup_of alloc (ci_id info); title = strdup_of alloc (ci_title info);
                    version = strdup_of alloc (ci_version info)
                in if api_version_major info \<noteq> BLYT_API_VERSION_MAJOR then fail BLYT_CART_ERR_API_VERSION
                   else if \<not> cart_id_valid cid then fail BLYT_CART_ERR_BAD_ID
                   else if \<not> cart_text_valid title then fail BLYT_CART_ERR_BAD_TITLE
                   else if \<not> cart_text_valid version then fail BLYT_CART_ERR_BAD_VERSION
                   else pass (ci_debug info, the cid, the title, the version)))"

text \<open>Result: save version and default palette.\<close>

definition check_config :: "fb_ops \<Rightarrow> bytes \<Rightarrow> (nat \<Rightarrow> bool) \<Rightarrow> sect_state \<Rightarrow> (u32 \<times> u32) check" where
  "check_config F elf alloc s =
     (case sect_cart_config s of None \<Rightarrow> pass (0, 0)
      | Some sh \<Rightarrow>
          and_then (load_fb elf alloc sh CART_CONFIG_TAG) (\<lambda>fb.
            if \<not> CartConfig_verify F fb then fail BLYT_CART_ERR_BAD_CART_CONFIG
            else pass (case CartConfig_as_root F fb of None \<Rightarrow> (0, 0) | Some c \<Rightarrow> c)))"

definition check_layouts :: "fb_ops \<Rightarrow> bytes \<Rightarrow> (nat \<Rightarrow> bool) \<Rightarrow> sect_state \<Rightarrow> unit check" where
  "check_layouts F elf alloc s =
     (case sect_cart_layouts s of None \<Rightarrow> pass ()
      | Some sh \<Rightarrow>
          and_then (load_fb elf alloc sh CART_LAYOUTS_TAG) (\<lambda>fb.
            if \<not> CartLayouts_verify F fb then fail BLYT_CART_ERR_BAD_LAYOUTS else pass ()))"

section \<open>Required entry points\<close>

fun entry_defined :: "bytes \<Rightarrow> Elf32_Shdr \<Rightarrow> Elf32_Shdr \<Rightarrow> bytes \<Rightarrow> nat list \<Rightarrow> bool option" where
  "entry_defined elf symtab strs name [] = Some False"
| "entry_defined elf symtab strs name (j # js) = do {
     sy \<leftarrow> read_sym elf (unat (sh_offset symtab) + j * unat (sh_entsize symtab));
     if ELF32_ST_BIND (st_info sy) \<noteq> STB_GLOBAL \<or> st_shndx sy = SHN_UNDEF \<or> st_name sy \<ge> sh_size strs
     then entry_defined elf symtab strs name js
     else do {
       b \<leftarrow> c_streq elf (unat (sh_offset strs) + unat (st_name sy)) name;
       if b then Some True else entry_defined elf symtab strs name js
     }
   }"

fun entries_loop :: "bytes \<Rightarrow> Elf32_Shdr \<Rightarrow> Elf32_Shdr \<Rightarrow> string list \<Rightarrow> unit check" where
  "entries_loop elf symtab strs [] = pass ()"
| "entries_loop elf symtab strs (r # rs) = do {
     found \<leftarrow> entry_defined elf symtab strs (ascii r) [0..<unat (sh_size symtab div sh_entsize symtab)];
     if \<not> found then fail BLYT_CART_ERR_MISSING_ENTRY else entries_loop elf symtab strs rs
   }"

definition check_entries :: "bytes \<Rightarrow> sect_state \<Rightarrow> bool \<Rightarrow> unit check" where
  "check_entries elf s has_lua =
     (if sect_cart_lua s \<noteq> None \<and> has_lua then pass ()
      else case (sect_dynsym s, sect_dynstr_sh s) of
        (Some symtab, Some strs) \<Rightarrow> entries_loop elf symtab strs REQUIRED_ENTRY_POINTS
      | _ \<Rightarrow> pass ())"

section \<open>Opening a cart\<close>

record blyt_cart =
  cart_map :: bytes
  cart_path :: string
  cart_id :: bytes
  cart_title :: bytes
  cart_version :: bytes
  cart_debug :: bool
  cart_dwarf :: bool
  cart_save_version :: u32
  cart_default_palette :: u32

text \<open>The outcome of the system calls: the contents if the file can be opened, and whether it can be mapped.\<close>

record cart_file =
  opened :: "bytes option"
  mapped :: bool

definition validate :: "fb_ops \<Rightarrow> (nat \<Rightarrow> bool) \<Rightarrow> string \<Rightarrow> bytes \<Rightarrow> blyt_cart check" where
  "validate F alloc path elf =
     (case read_ehdr elf of None \<Rightarrow> None
      | Some eh \<Rightarrow>
          and_then (check_ident eh) (\<lambda>_.
          and_then (check_segments elf eh) (\<lambda>_.
          and_then (shdr_table elf eh) (\<lambda>shs.
          and_then (section_loop elf (shs ! unat (e_shstrndx eh)) shs no_sections) (\<lambda>s.
          and_then (check_needed elf shs s) (\<lambda>has_lua.
          and_then (check_imports elf shs s has_lua) (\<lambda>_.
          and_then (check_info F elf alloc s) (\<lambda>(debug, cid, title, version).
          and_then (check_config F elf alloc s) (\<lambda>(save_version, default_palette).
          and_then (check_layouts F elf alloc s) (\<lambda>_.
          and_then (check_entries elf s has_lua) (\<lambda>_.
            if \<not> alloc 72 \<or> \<not> alloc (length path + 1) then fail BLYT_CART_ERR_IO
            else pass \<lparr>cart_map = elf, cart_path = path, cart_id = cid, cart_title = title, cart_version = version,
              cart_debug = debug, cart_dwarf = has_dwarf s, cart_save_version = save_version,
              cart_default_palette = default_palette\<rparr>)))))))))))"

definition blyt_cart_open :: "fb_ops \<Rightarrow> (nat \<Rightarrow> bool) \<Rightarrow> cart_file \<Rightarrow> string \<Rightarrow> blyt_cart check" where
  "blyt_cart_open F alloc file path =
     (case opened file of None \<Rightarrow> fail BLYT_CART_ERR_IO
      | Some elf \<Rightarrow>
          if length elf < 52 then fail BLYT_CART_ERR_TOO_SMALL
          else if \<not> mapped file then fail BLYT_CART_ERR_IO
          else validate F alloc path elf)"

section \<open>Queries on an opened cart\<close>

definition blyt_cart_find_section :: "blyt_cart \<Rightarrow> bytes \<Rightarrow> (u32 \<times> u32) option option" where
  "blyt_cart_find_section cart name = blyt_elf32_find_section (cart_map cart) name"

definition blyt_cart_has_layouts :: "blyt_cart \<Rightarrow> bool option" where
  "blyt_cart_has_layouts cart = map_option (\<lambda>r. r \<noteq> None) (blyt_cart_find_section cart (ascii ''.cart.layouts''))"

text \<open>The first dynamic symbol table and its string table.\<close>

definition first_dynsym :: "Elf32_Shdr list \<Rightarrow> (Elf32_Shdr \<times> Elf32_Shdr) option" where
  "first_dynsym shs =
     (case find (\<lambda>sh. sh_type sh = SHT_DYNSYM) shs of None \<Rightarrow> None
      | Some sh \<Rightarrow> if unat (sh_link sh) \<ge> length shs then None else Some (sh, shs ! unat (sh_link sh)))"

definition cart_dynsym :: "blyt_cart \<Rightarrow> (Elf32_Shdr \<times> Elf32_Shdr) option option" where
  "cart_dynsym cart = do {
     eh \<leftarrow> read_ehdr (cart_map cart);
     shs \<leftarrow> read_shdrs (cart_map cart) (unat (e_shoff eh)) (unat (e_shnum eh));
     Some (first_dynsym shs)
   }"

definition NATIVE_LIFECYCLE :: "string list" where
  "NATIVE_LIFECYCLE = [''blyt_cart_init'', ''blyt_cart_on_new_state'', ''blyt_cart_update'', ''blyt_cart_draw'',
     ''blyt_cart_on_quit'', ''blyt_cart_cleanup'']"

fun native_lifecycle_loop :: "bytes \<Rightarrow> Elf32_Shdr \<Rightarrow> Elf32_Shdr \<Rightarrow> nat list \<Rightarrow> bool option" where
  "native_lifecycle_loop elf symtab strs [] = Some False"
| "native_lifecycle_loop elf symtab strs (j # js) = do {
     sy \<leftarrow> read_sym elf (unat (sh_offset symtab) + j * 16);
     if st_shndx sy = SHN_UNDEF \<or> ELF32_ST_BIND (st_info sy) = STB_LOCAL then native_lifecycle_loop elf symtab strs js
     else do {
       b \<leftarrow> any_streq elf (unat (sh_offset strs) + unat (st_name sy)) NATIVE_LIFECYCLE;
       if b then Some True else native_lifecycle_loop elf symtab strs js
     }
   }"

definition blyt_cart_has_native_lifecycle :: "blyt_cart \<Rightarrow> bool option" where
  "blyt_cart_has_native_lifecycle cart = do {
     d \<leftarrow> cart_dynsym cart;
     case d of None \<Rightarrow> Some False
     | Some (symtab, strs) \<Rightarrow> native_lifecycle_loop (cart_map cart) symtab strs [0..<unat (sh_size symtab div 16)]
   }"

fun native_code_loop :: "bytes \<Rightarrow> Elf32_Shdr \<Rightarrow> Elf32_Shdr \<Rightarrow> nat list \<Rightarrow> bool option" where
  "native_code_loop elf symtab strs [] = Some False"
| "native_code_loop elf symtab strs (j # js) = do {
     sy \<leftarrow> read_sym elf (unat (sh_offset symtab) + j * 16);
     if st_shndx sy = SHN_UNDEF \<or> ELF32_ST_TYPE (st_info sy) \<noteq> STT_FUNC \<or> ELF32_ST_BIND (st_info sy) = STB_LOCAL
     then native_code_loop elf symtab strs js
     else do {
       b \<leftarrow> any_streq elf (unat (sh_offset strs) + unat (st_name sy)) [''_blyt_entry'', ''cart_lua_modules''];
       if \<not> b then Some True else native_code_loop elf symtab strs js
     }
   }"

definition blyt_cart_has_native_code :: "blyt_cart \<Rightarrow> bool option" where
  "blyt_cart_has_native_code cart = do {
     d \<leftarrow> cart_dynsym cart;
     case d of None \<Rightarrow> Some False
     | Some (symtab, strs) \<Rightarrow> native_code_loop (cart_map cart) symtab strs [0..<unat (sh_size symtab div 16)]
   }"

definition lifecycle_map :: "string list" where
  "lifecycle_map = [''blyt_cart_init'', ''blyt_cart_update'', ''blyt_cart_draw'', ''blyt_cart_on_new_state'',
     ''blyt_cart_on_save_state'', ''blyt_cart_on_load_state'', ''blyt_cart_on_quit'', ''blyt_cart_cleanup'',
     ''blyt_cart_on_assets_reloaded'']"

fun name_mask :: "bytes \<Rightarrow> nat \<Rightarrow> string list \<Rightarrow> nat \<Rightarrow> u32 option" where
  "name_mask elf a [] k = Some 0"
| "name_mask elf a (s # ss) k = do {
     b \<leftarrow> c_streq elf a (ascii s);
     m \<leftarrow> name_mask elf a ss (Suc k);
     Some ((if b then push_bit k 1 else 0) OR m)
   }"

fun mask_loop :: "bytes \<Rightarrow> Elf32_Shdr \<Rightarrow> Elf32_Shdr \<Rightarrow> nat list \<Rightarrow> u32 \<Rightarrow> u32 option" where
  "mask_loop elf symtab strs [] acc = Some acc"
| "mask_loop elf symtab strs (j # js) acc = do {
     sy \<leftarrow> read_sym elf (unat (sh_offset symtab) + j * 16);
     if st_shndx sy = SHN_UNDEF \<or> ELF32_ST_BIND (st_info sy) = STB_LOCAL then mask_loop elf symtab strs js acc
     else do {
       m \<leftarrow> name_mask elf (unat (sh_offset strs) + unat (st_name sy)) lifecycle_map 0;
       mask_loop elf symtab strs js (acc OR m)
     }
   }"

definition blyt_cart_native_lifecycle_mask :: "blyt_cart \<Rightarrow> u32 option" where
  "blyt_cart_native_lifecycle_mask cart = do {
     d \<leftarrow> cart_dynsym cart;
     case d of None \<Rightarrow> Some 0
     | Some (symtab, strs) \<Rightarrow> mask_loop (cart_map cart) symtab strs [0..<unat (sh_size symtab div 16)] 0
   }"

section \<open>What the segment checks establish\<close>

lemma and_then_pass: "and_then c f = Some (Inr y) \<longleftrightarrow> (\<exists>x. c = Some (Inr x) \<and> f x = Some (Inr y))"
  by (cases c; simp add: and_then_def; cases "the c"; simp)

lemma unat_ucast_add: "unat (ucast (a :: u32) + ucast (b :: u32) :: u64) = unat a + unat b"
proof -
  have "unat (ucast a :: u64) = unat a" "unat (ucast b :: u64) = unat b"
    using unat_u32_lt [of a] unat_u32_lt [of b] by (simp_all add: unsigned_ucast_eq take_bit_nat_eq_self)
  then show ?thesis using unat_u32_lt [of a] unat_u32_lt [of b] by (subst unat_add_small) simp_all
qed

lemma u32_add_le_iff: "u32_add_le a b limit \<longleftrightarrow> unat a + unat b \<le> limit"
  by (simp add: u32_add_le_def unat_ucast_add)

lemma ranges_overlap_iff:
  "ranges_overlap a alen b blen \<longleftrightarrow> {unat a..<unat a + unat alen} \<inter> {unat b..<unat b + unat blen} \<noteq> {}"
proof -
  have u: "unat (ucast x :: u64) = unat x" for x :: u32
    using unat_u32_lt [of x] by (simp add: unsigned_ucast_eq take_bit_nat_eq_self)
  have z: "x = 0 \<longleftrightarrow> unat x = 0" for x :: u32 by (simp add: unat_eq_zero)
  have "ranges_overlap a alen b blen \<longleftrightarrow>
      unat alen \<noteq> 0 \<and> unat blen \<noteq> 0 \<and> unat a < unat b + unat blen \<and> unat b < unat a + unat alen"
    by (auto simp: ranges_overlap_def word_less_nat_alt unat_ucast_add u z)
  also have "\<dots> \<longleftrightarrow> {unat a..<unat a + unat alen} \<inter> {unat b..<unat b + unat blen} \<noteq> {}"
    by (auto simp: Int_atLeastLessThan max_def min_def)
  finally show ?thesis .
qed

lemma scan_opcodes_iff:
  "scan_opcodes seg \<longleftrightarrow> (\<exists>off. even off \<and> off + 4 \<le> length seg \<and> slice off 4 seg \<in> {ECALL, EBREAK})"
proof (induction seg rule: scan_opcodes.induct)
  case (1 a b c d seg)
  let ?seg = "a # b # c # d # seg"
  have step: "(\<exists>off. even off \<and> off + 4 \<le> length ?seg \<and> slice off 4 ?seg \<in> {ECALL, EBREAK}) \<longleftrightarrow>
      slice 0 4 ?seg \<in> {ECALL, EBREAK} \<or> (\<exists>off. even off \<and> off + 4 \<le> length (c # d # seg) \<and> slice off 4 (c # d # seg) \<in> {ECALL, EBREAK})"
    (is "?L \<longleftrightarrow> ?R")
  proof
    assume ?L
    then obtain off where o: "even off" "off + 4 \<le> length ?seg" "slice off 4 ?seg \<in> {ECALL, EBREAK}" by blast
    show ?R
    proof (cases "off = 0")
      case False
      then obtain k where "off = Suc (Suc k)" "even k" using o(1) by (cases off rule: nat.exhaust; cases "off - 1" rule: nat.exhaust) auto
      then show ?thesis using o by (auto simp: slice_def intro!: exI [of _ k])
    qed (use o in auto)
  next
    assume ?R
    then show ?L
    proof (elim disjE exE conjE)
      fix off assume "even off" "off + 4 \<le> length (c # d # seg)" "slice off 4 (c # d # seg) \<in> {ECALL, EBREAK}"
      then show ?L by (intro exI [of _ "Suc (Suc off)"]) (simp add: slice_def)
    qed (auto intro!: exI [of _ 0])
  qed
  show ?case unfolding step 1 [symmetric] by (auto simp: slice_def)
qed auto

lemma slice_slice: "i + k \<le> n \<Longrightarrow> slice i k (slice j n xs) = slice (j + i) k xs"
  by (simp add: slice_def drop_take min_def add.commute)

definition program_headers :: "bytes \<Rightarrow> Elf32_Ehdr \<Rightarrow> Elf32_Phdr list" where
  "program_headers elf eh = map (\<lambda>i. the (read_phdr elf (phdr_at eh i))) [0..<unat (e_phnum eh)]"

definition is_load :: "Elf32_Phdr \<Rightarrow> bool" where "is_load p \<longleftrightarrow> p_type p = PT_LOAD"

definition load_ok :: "bytes \<Rightarrow> Elf32_Phdr \<Rightarrow> bool" where
  "load_ok elf p \<longleftrightarrow> (is_load p \<longrightarrow> p_flags p AND (PF_W OR PF_X) \<noteq> PF_W OR PF_X \<and> unat (p_offset p) + unat (p_filesz p) \<le> length elf)"

lemma check_phdr_spec:
  assumes "check_phdr elf eh ph s = Some (Inr s')"
  shows "load_ok elf ph" "loads s' = (if is_load ph \<and> length (loads s) < 64 then loads s @ [ph] else loads s)"
  using assms
  by (auto simp: check_phdr_def and_then_pass check_interp_def check_load_def load_ok_def is_load_def u32_add_le_iff Let_def MAX_LOAD_def
      split: if_splits)

lemma phdr_loop_spec:
  assumes "phdr_loop elf eh is s = Some (Inr s')"
  shows "(\<forall>i \<in> set is. load_ok elf (the (read_phdr elf (phdr_at eh i)))) \<and>
    loads s' = loads s @ take (64 - length (loads s)) (filter is_load (map (\<lambda>i. the (read_phdr elf (phdr_at eh i))) is))"
  using assms
proof (induction "is" arbitrary: s)
  case (Cons i "is")
  then obtain ph s1 where ph: "read_phdr elf (phdr_at eh i) = Some ph" and c: "check_phdr elf eh ph s = Some (Inr s1)"
    and l: "phdr_loop elf eh is s1 = Some (Inr s')" by (auto simp: and_then_pass split: option.splits)
  note sp = check_phdr_spec [OF c]
  show ?case
  proof (cases "is_load ph \<and> length (loads s) < 64")
    case True
    then have "64 - length (loads s) = Suc (63 - length (loads s))" by linarith
    then show ?thesis using Cons.IH [OF l] sp ph True by auto
  next
    case False
    then show ?thesis using Cons.IH [OF l] sp ph by auto
  qed
qed simp

lemma any_overlap_sorted: "\<not> any_overlap ps \<longleftrightarrow> sorted_wrt (\<lambda>p q. \<not> loads_overlap p q) ps"
  by (induction ps) (auto simp: list_ex_iff)

lemma sorted_wrt_filter_iff: "sorted_wrt R (filter P xs) \<longleftrightarrow> sorted_wrt (\<lambda>x y. P x \<longrightarrow> P y \<longrightarrow> R x y) xs"
  by (induction xs) auto

lemma check_segments_spec:
  assumes "check_segments elf eh = Some (Inr ())"
  defines "ls \<equiv> take 64 (filter is_load (program_headers elf eh))"
  shows "\<forall>p \<in> set (program_headers elf eh). load_ok elf p" "\<not> any_overlap ls" "\<forall>p \<in> set ls. \<not> bad_opcode elf p"
proof -
  have "(\<forall>p \<in> set (program_headers elf eh). load_ok elf p) \<and> \<not> any_overlap ls \<and> (\<forall>p \<in> set ls. \<not> bad_opcode elf p)"
  proof (cases "e_phnum eh > 0")
    case True
    then obtain s where l: "phdr_loop elf eh [0..<unat (e_phnum eh)]
        \<lparr>loads = [], has_relro = False, has_interp = False, entry_ok = (e_entry eh = 0)\<rparr> = Some (Inr s)"
      and ok: "\<not> any_overlap (loads s)" "\<not> list_ex (bad_opcode elf) (loads s)"
      using assms(1) by (auto simp: check_segments_def and_then_pass split: if_splits)
    show ?thesis using phdr_loop_spec [OF l] ok by (auto simp: ls_def program_headers_def list_ex_iff)
  next
    case False
    then have "unat (e_phnum eh) = 0" by (simp add: word_less_nat_alt)
    then show ?thesis by (simp add: ls_def program_headers_def)
  qed
  then show "\<forall>p \<in> set (program_headers elf eh). load_ok elf p" "\<not> any_overlap ls" "\<forall>p \<in> set ls. \<not> bad_opcode elf p" by auto
qed

lemma flags_bits: "(f :: u32) AND PF_X \<noteq> 0 \<Longrightarrow> f AND PF_W \<noteq> 0 \<Longrightarrow> f AND (PF_W OR PF_X) = PF_W OR PF_X"
proof (rule bit_word_eqI)
  assume f: "f AND PF_X \<noteq> 0" "f AND PF_W \<noteq> 0"
  have "bit f 0" using f(1) by (auto simp: PF_X_def and_one_eq odd_iff_mod_2_eq_one bit_0)
  moreover have "bit f 1" using f(2) by (auto simp: PF_W_def bit_eq_iff [of _ 0] bit_simps)
  ultimately show "bit (f AND (PF_W OR PF_X)) n = bit (PF_W OR PF_X) n" for n
    by (cases n; cases "n - 1") (auto simp: PF_W_def PF_X_def bit_simps)
qed

lemma open_validates:
  assumes "blyt_cart_open F alloc file path = Some (Inr cart)"
  shows "validate F alloc path (cart_map cart) = Some (Inr cart)" "52 \<le> length (cart_map cart)"
proof -
  obtain elf where elf: "opened file = Some elf" "\<not> length elf < 52" "validate F alloc path elf = Some (Inr cart)"
    using assms by (auto simp: blyt_cart_open_def split: option.splits if_splits)
  have "cart_map cart = elf"
    using elf(3) by (auto simp: validate_def and_then_pass split: option.splits prod.splits if_splits)
  then show "validate F alloc path (cart_map cart) = Some (Inr cart)" "52 \<le> length (cart_map cart)" using elf by auto
qed

lemma validate_parts:
  assumes "validate F alloc path elf = Some (Inr cart)"
  obtains eh shs s has_lua where "read_ehdr elf = Some eh" "check_ident eh = Some (Inr ())" "check_segments elf eh = Some (Inr ())"
    "shdr_table elf eh = Some (Inr shs)" "section_loop elf (shs ! unat (e_shstrndx eh)) shs no_sections = Some (Inr s)"
    "check_needed elf shs s = Some (Inr has_lua)" "check_imports elf shs s has_lua = Some (Inr ())"
    "\<exists>debug. check_info F elf alloc s = Some (Inr (debug, cart_id cart, cart_title cart, cart_version cart))"
    "check_entries elf s has_lua = Some (Inr ())"
  using assms unfolding validate_def
  by (auto simp: and_then_pass split: option.splits prod.splits if_splits)


section \<open>What the section checks establish\<close>

definition last_opt :: "'a list \<Rightarrow> 'a option" where
  "last_opt xs = (if xs = [] then None else Some (last xs))"

lemma last_opt_Cons: "last_opt (x # xs) = (case last_opt xs of None \<Rightarrow> Some x | Some y \<Rightarrow> Some y)"
  by (simp add: last_opt_def)

text \<open>The name of a section, and the place of the name of a dynamic symbol.\<close>

definition section_name :: "Elf32_Shdr \<Rightarrow> Elf32_Shdr \<Rightarrow> nat" where
  "section_name str_sh sh = unat (sh_offset str_sh) + unat (sh_name sh)"

definition dynstr_of :: "bytes \<Rightarrow> Elf32_Shdr \<Rightarrow> Elf32_Shdr list \<Rightarrow> Elf32_Shdr \<Rightarrow> Elf32_Shdr option" where
  "dynstr_of elf str_sh shs symtab =
     (case last_opt (filter (\<lambda>sh. c_streq elf (section_name str_sh sh) (ascii ''.dynstr'') = Some True) shs) of Some sh \<Rightarrow> Some sh
      | None \<Rightarrow> if unat (sh_link symtab) < length shs then Some (shs ! unat (sh_link symtab)) else None)"

lemma note_section_spec:
  assumes "note_section elf name sh s = Some s'"
  shows "sect_dynsym s' = (if sh_type sh = SHT_DYNSYM then Some sh else sect_dynsym s) \<and>
    sect_dynstr_sh s' = (if c_streq elf name (ascii ''.dynstr'') = Some True then Some sh else sect_dynstr_sh s)"
proof -
  from assms obtain info config layouts lua dyn dynstr dwarf where "c_streq elf name (ascii ''.dynstr'') = Some dynstr"
    "s' = \<lparr>sect_cart_info = info, sect_cart_config = config, sect_cart_layouts = layouts, sect_cart_lua = lua, sect_dynamic = dyn,
       sect_dynsym = (if sh_type sh = SHT_DYNSYM then Some sh else sect_dynsym s),
       sect_dynstr_sh = (if dynstr then Some sh else sect_dynstr_sh s), has_dwarf = dwarf\<rparr>"
    unfolding note_section_def bind_eq_Some_conv option.inject by (elim exE conjE) blast
  then show ?thesis by simp
qed

lemma check_section_spec:
  assumes "check_section elf str_sh sh s = Some (Inr s')"
  shows "section_name_denied elf (section_name str_sh sh) = Some False"
    "note_section elf (section_name str_sh sh) sh s = Some s'"
  using assms by (auto simp: check_section_def section_name_def Let_def bind_eq_Some_conv split: if_splits)

lemma section_loop_spec:
  assumes "section_loop elf str_sh shs s = Some (Inr s')"
  shows "(\<forall>sh \<in> set shs. section_name_denied elf (section_name str_sh sh) = Some False) \<and>
    sect_dynsym s' = (case last_opt (filter (\<lambda>sh. sh_type sh = SHT_DYNSYM) shs) of None \<Rightarrow> sect_dynsym s | Some sh \<Rightarrow> Some sh) \<and>
    sect_dynstr_sh s' = (case last_opt (filter (\<lambda>sh. c_streq elf (section_name str_sh sh) (ascii ''.dynstr'') = Some True) shs) of
      None \<Rightarrow> sect_dynstr_sh s | Some sh \<Rightarrow> Some sh)"
  using assms
proof (induction shs arbitrary: s)
  case Nil
  then show ?case by (simp add: last_opt_def)
next
  case (Cons sh shs)
  then obtain s1 where c: "check_section elf str_sh sh s = Some (Inr s1)" and l: "section_loop elf str_sh shs s1 = Some (Inr s')"
    by (auto simp: and_then_pass)
  show ?case using Cons.IH [OF l] check_section_spec(1) [OF c] note_section_spec [OF check_section_spec(2) [OF c]]
    by (auto simp: last_opt_Cons split: option.splits)
qed

lemma any_streq_False:
  "any_streq elf a ss = Some False \<Longrightarrow> \<forall>s \<in> set ss. c_streq elf a (ascii s) = Some False"
  by (induction ss) (auto simp: bind_eq_Some_conv split: if_splits)

lemma import_loop_spec:
  assumes "import_loop elf has_lua symtab symstr js = Some (Inr ())" "j \<in> set js"
    "read_sym elf (unat (sh_offset symtab) + j * unat (sh_entsize symtab)) = Some sy" "is_import sy"
  shows "\<exists>str sz. symstr = Some (str, sz) \<and> st_name sy < sz \<and> import_allowed elf has_lua (str + unat (st_name sy)) = Some True"
  using assms
proof (induction js)
  case (Cons k js)
  then show ?case
    by (cases "k = j") (auto simp: bind_eq_Some_conv split: if_splits option.splits)
qed simp

lemma check_info_id:
  assumes "check_info F elf alloc s = Some (Inr (debug, cid, title, version))"
  shows "cart_id_valid (Some cid)"
proof -
  obtain sh fb where sh: "sect_cart_info s = Some sh" "load_fb elf alloc sh CART_INFO_TAG = Some (Inr fb)"
    using assms by (auto simp: check_info_def and_then_pass split: option.split_asm)
  obtain info where info: "CartInfo_verify F fb" "CartInfo_as_root F fb = Some info"
    using assms sh by (auto simp: check_info_def and_then_pass split: option.split_asm if_split_asm)
  have "cart_id_valid (strdup_of alloc (ci_id info))" "cid = the (strdup_of alloc (ci_id info))"
    using assms sh info by (simp_all add: check_info_def and_then_pass Let_def split: if_split_asm)
  moreover from this(1) have "strdup_of alloc (ci_id info) \<noteq> None" by (auto simp: cart_id_valid_def split: option.splits)
  ultimately show ?thesis by simp
qed

lemma import_allowed_cases:
  assumes "import_allowed elf has_lua name = Some True"
  shows "any_streq elf name SYMBOL_ALLOWLIST = Some True \<or>
    has_lua \<and> (c_prefix elf name (ascii ''lua_'') = Some True \<or> c_prefix elf name (ascii ''luaL_'') = Some True)"
  using assms by (auto simp: import_allowed_def symbol_name_allowed_def bind_eq_Some_conv split: if_splits)


section \<open>Writing the structures\<close>

text \<open>The bytes of a structure, so that reading them back gives the structure.\<close>

definition put_ehdr :: "Elf32_Ehdr \<Rightarrow> bytes" where
  "put_ehdr eh = e_ident eh @ le_bytes 2 (e_type eh) @ le_bytes 2 (e_machine eh) @ le_bytes 4 (e_version eh) @
     le_bytes 4 (e_entry eh) @ le_bytes 4 (e_phoff eh) @ le_bytes 4 (e_shoff eh) @ le_bytes 4 (e_flags eh) @
     le_bytes 2 (e_ehsize eh) @ le_bytes 2 (e_phentsize eh) @ le_bytes 2 (e_phnum eh) @ le_bytes 2 (e_shentsize eh) @
     le_bytes 2 (e_shnum eh) @ le_bytes 2 (e_shstrndx eh)"

definition put_phdr :: "Elf32_Phdr \<Rightarrow> bytes" where
  "put_phdr ph = le_bytes 4 (p_type ph) @ le_bytes 4 (p_offset ph) @ le_bytes 4 (p_vaddr ph) @ le_bytes 4 (p_paddr ph) @
     le_bytes 4 (p_filesz ph) @ le_bytes 4 (p_memsz ph) @ le_bytes 4 (p_flags ph) @ le_bytes 4 (p_align ph)"

definition put_shdr :: "Elf32_Shdr \<Rightarrow> bytes" where
  "put_shdr sh = le_bytes 4 (sh_name sh) @ le_bytes 4 (sh_type sh) @ le_bytes 4 (sh_flags sh) @ le_bytes 4 (sh_addr sh) @
     le_bytes 4 (sh_offset sh) @ le_bytes 4 (sh_size sh) @ le_bytes 4 (sh_link sh) @ le_bytes 4 (sh_info sh) @
     le_bytes 4 (sh_addralign sh) @ le_bytes 4 (sh_entsize sh)"

definition put_sym :: "Elf32_Sym \<Rightarrow> bytes" where
  "put_sym sy = le_bytes 4 (st_name sy) @ le_bytes 4 (st_value sy) @ le_bytes 4 (st_size sy) @ [st_info sy, st_other sy] @
     le_bytes 2 (st_shndx sy)"

lemma at_drop:
  "u32_at elf (a + k) = u32_at (drop a elf) k" "u16_at elf (a + k) = u16_at (drop a elf) k"
  "byte_at elf (a + k) = byte_at (drop a elf) k"
  by (auto simp: u32_at_def u16_at_def byte_at_def slice_def add.commute)

lemmas at_drop0 = at_drop [where k = 0, simplified]

lemma at_skip:
  "length xs \<le> k \<Longrightarrow> u32_at (xs @ ys) k = u32_at ys (k - length xs)"
  "length xs \<le> k \<Longrightarrow> u16_at (xs @ ys) k = u16_at ys (k - length xs)"
  "length xs \<le> k \<Longrightarrow> byte_at (xs @ ys) k = byte_at ys (k - length xs)"
  by (auto simp: u32_at_def u16_at_def byte_at_def slice_def nth_append)

lemma at_put:
  "u32_at (le_bytes 4 w @ ys) 0 = Some w" "u16_at (le_bytes 2 h @ ys) 0 = Some h"
  "u32_at (le_bytes 4 w) 0 = Some w" "u16_at (le_bytes 2 h) 0 = Some h"
  by (simp_all add: u32_at_def u16_at_def slice_def)

lemma length_put [simp]:
  "length (put_phdr ph) = 32" "length (put_shdr sh) = 40" "length (put_sym sy) = 16"
  "length (e_ident eh) = 16 \<Longrightarrow> length (put_ehdr eh) = 52"
  by (simp_all add: put_phdr_def put_shdr_def put_sym_def put_ehdr_def)

lemma read_phdr_put: "drop a elf = put_phdr ph @ post \<Longrightarrow> read_phdr elf a = Some ph"
  by (simp add: read_phdr_def at_drop0 [where a = a] at_drop [where a = a] put_phdr_def at_put at_skip)

lemma read_shdr_put: "drop a elf = put_shdr sh @ post \<Longrightarrow> read_shdr elf a = Some sh"
  by (simp add: read_shdr_def at_drop0 [where a = a] at_drop [where a = a] put_shdr_def at_put at_skip)

lemma read_sym_put: "drop a elf = put_sym sy @ post \<Longrightarrow> read_sym elf a = Some sy"
  by (simp add: read_sym_def at_drop0 [where a = a] at_drop [where a = a] put_sym_def at_put at_skip)
    (simp add: byte_at_def u16_at_def slice_def)

lemma read_ehdr_put: "elf = put_ehdr eh @ post \<Longrightarrow> length (e_ident eh) = 16 \<Longrightarrow> read_ehdr elf = Some eh"
  by (simp add: read_ehdr_def put_ehdr_def at_put at_skip)

lemma read_shdrs_put: "drop a elf = concat (map put_shdr shs) @ post \<Longrightarrow> read_shdrs elf a (length shs) = Some shs"
proof (induction shs arbitrary: a)
  case (Cons sh shs)
  then have d: "drop a elf = put_shdr sh @ concat (map put_shdr shs) @ post" by simp
  then have "drop (a + 40) elf = concat (map put_shdr shs) @ post"
    by (metis add.commute append_eq_conv_conj drop_drop length_put(2))
  then show ?case using Cons.IH read_shdr_put [OF d] by simp
qed simp

section \<open>A small cart\<close>

text \<open>
  An image with an interpreter path, one segment of code (a \<^verbatim>\<open>nop\<close> at 0x10000), one of data, the three entry points, one
  import and an empty \<^verbatim>\<open>.cart.info\<close> buffer; the readers of that buffer give a fixed id, title and version.
\<close>

definition tiny_ehdr :: Elf32_Ehdr where
  "tiny_ehdr = \<lparr>e_ident = [0x7f, 0x45, 0x4c, 0x46, 1, 1, 1, 0, 0, 0, 0, 0, 0, 0, 0, 0], e_type = 3, e_machine = 243,
     e_version = 1, e_entry = 0x10000, e_phoff = 52, e_shoff = 396, e_flags = 5, e_ehsize = 52, e_phentsize = 32,
     e_phnum = 4, e_shentsize = 40, e_shnum = 6, e_shstrndx = 5\<rparr>"

definition tiny_phdr :: "u32 \<Rightarrow> u32 \<Rightarrow> u32 \<Rightarrow> u32 \<Rightarrow> u32 \<Rightarrow> u32 \<Rightarrow> Elf32_Phdr" where
  "tiny_phdr ty ofs v fsz msz fl = \<lparr>p_type = ty, p_offset = ofs, p_vaddr = v, p_paddr = v, p_filesz = fsz, p_memsz = msz,
     p_flags = fl, p_align = 4\<rparr>"

definition tiny_phdrs :: "Elf32_Phdr list" where
  "tiny_phdrs = [tiny_phdr PT_INTERP 180 0 18 18 4, tiny_phdr PT_GNU_RELRO 0 0 0 0 4, tiny_phdr PT_LOAD 198 0x10000 4 4 5,
     tiny_phdr PT_LOAD 202 0x20000 4 16 6]"

definition tiny_shdr :: "u32 \<Rightarrow> u32 \<Rightarrow> u32 \<Rightarrow> u32 \<Rightarrow> u32 \<Rightarrow> u32 \<Rightarrow> Elf32_Shdr" where
  "tiny_shdr name ty ofs sz link entsize = \<lparr>sh_name = name, sh_type = ty, sh_flags = 0, sh_addr = 0, sh_offset = ofs,
     sh_size = sz, sh_link = link, sh_info = 0, sh_addralign = 4, sh_entsize = entsize\<rparr>"

definition tiny_shdrs :: "Elf32_Shdr list" where
  "tiny_shdrs = [tiny_shdr 0 0 0 0 0 0, tiny_shdr 1 1 198 4 0 0, tiny_shdr 7 SHT_STRTAB 214 58 0 0,
     tiny_shdr 15 SHT_DYNSYM 272 80 2 16, tiny_shdr 23 1 206 8 0 0, tiny_shdr 34 SHT_STRTAB 352 44 0 0]"

definition tiny_sym :: "u32 \<Rightarrow> u8 \<Rightarrow> u16 \<Rightarrow> Elf32_Sym" where
  "tiny_sym name info shndx = \<lparr>st_name = name, st_value = 0, st_size = 0, st_info = info, st_other = 0, st_shndx = shndx\<rparr>"

definition tiny_syms :: "Elf32_Sym list" where
  "tiny_syms = [tiny_sym 0 0 0, tiny_sym 1 0x12 0, tiny_sym 11 0x12 1, tiny_sym 26 0x12 1, tiny_sym 43 0x12 1]"

definition tiny_names :: "string list \<Rightarrow> bytes" where
  "tiny_names ns = 0 # concat (map (\<lambda>n. ascii n @ [0]) ns)"

definition tiny_body :: bytes where
  "tiny_body = BLYT_INTERP_PATH @ [0x13, 0, 0, 0] @ [1, 2, 3, 4] @ CART_INFO_TAG @ [0, 0, 0, 0] @
     tiny_names [''blyt_main'', ''blyt_cart_init'', ''blyt_cart_update'', ''blyt_cart_draw''] @ concat (map put_sym tiny_syms) @
     tiny_names [''.text'', ''.dynstr'', ''.dynsym'', ''.cart.info'', ''.shstrtab'']"

definition tiny_elf :: bytes where
  "tiny_elf = put_ehdr tiny_ehdr @ concat (map put_phdr tiny_phdrs) @ tiny_body @ concat (map put_shdr tiny_shdrs)"

definition tiny_fb :: fb_ops where
  "tiny_fb = \<lparr>CartInfo_verify = (\<lambda>b. b = []),
     CartInfo_as_root = (\<lambda>b. Some \<lparr>api_version_major = 0, ci_debug = False, ci_id = Some (ascii ''tiny''),
       ci_title = Some (ascii ''Tiny''), ci_version = Some (ascii ''1'')\<rparr>),
     CartConfig_verify = (\<lambda>b. False), CartConfig_as_root = (\<lambda>b. None), CartLayouts_verify = (\<lambda>b. False)\<rparr>"

definition tiny_cart :: blyt_cart where
  "tiny_cart = \<lparr>cart_map = tiny_elf, cart_path = ''tiny.blyt'', cart_id = ascii ''tiny'', cart_title = ascii ''Tiny'',
     cart_version = ascii ''1'', cart_debug = False, cart_dwarf = False, cart_save_version = 0, cart_default_palette = 0\<rparr>"

text \<open>Comparing strings on the suffix that begins there.\<close>

fun streq :: "bytes \<Rightarrow> bytes \<Rightarrow> bool option" where
  "streq [] s = None"
| "streq (c # cs) [] = Some (c = 0)"
| "streq (c # cs) (x # xs) = (if c = x then streq cs xs else Some False)"

fun strpre :: "bytes \<Rightarrow> bytes \<Rightarrow> bool option" where
  "strpre cs [] = Some True"
| "strpre [] (x # xs) = None"
| "strpre (c # cs) (x # xs) = (if c = x then strpre cs xs else Some False)"

lemma drop_cases: "drop a xs = (if a < length xs then xs ! a # drop (Suc a) xs else [])"
  by (simp add: Cons_nth_drop_Suc)

lemma c_streq_drop: "c_streq elf a s = streq (drop a elf) s"
proof (induction s arbitrary: a)
  case Nil
  show ?case by (subst drop_cases) (simp add: byte_at_def)
next
  case (Cons x s)
  show ?case by (subst drop_cases) (simp add: byte_at_def Cons)
qed

lemma c_prefix_drop: "c_prefix elf a s = strpre (drop a elf) s"
proof (induction s arbitrary: a)
  case (Cons x s)
  show ?case by (subst drop_cases) (simp add: byte_at_def Cons)
qed simp

lemma tiny_body_bytes: "tiny_body = BLYT_INTERP_PATH @ [0x13, 0, 0, 0, 1, 2, 3, 4, 67, 73, 78, 70, 0, 0, 0, 0] @
    tiny_names [''blyt_main'', ''blyt_cart_init'', ''blyt_cart_update'', ''blyt_cart_draw''] @ concat (map put_sym tiny_syms) @
    tiny_names [''.text'', ''.dynstr'', ''.dynsym'', ''.cart.info'', ''.shstrtab'']"
  by (simp add: tiny_body_def CART_INFO_TAG_def ascii_def of_char_def)

lemma tiny_lengths [simp]:
  "length BLYT_INTERP_PATH = 18" "length (put_ehdr tiny_ehdr) = 52" "length (concat (map put_phdr tiny_phdrs)) = 128"
  "length tiny_body = 216" "length tiny_elf = 636"
proof -
  show h: "length BLYT_INTERP_PATH = 18" "length (put_ehdr tiny_ehdr) = 52" "length (concat (map put_phdr tiny_phdrs)) = 128"
    by (simp_all add: BLYT_INTERP_PATH_def ascii_def tiny_ehdr_def tiny_phdrs_def)
  show b: "length tiny_body = 216" using h(1) by (simp add: tiny_body_bytes tiny_names_def ascii_def tiny_syms_def)
  show "length tiny_elf = 636" using h b by (simp add: tiny_elf_def tiny_shdrs_def)
qed

lemma tiny_read_ehdr: "read_ehdr tiny_elf = Some tiny_ehdr"
  by (rule read_ehdr_put [OF tiny_elf_def]) (simp add: tiny_ehdr_def)

lemma tiny_read_phdr:
  "read_phdr tiny_elf 52 = Some (tiny_phdr PT_INTERP 180 0 18 18 4)" "read_phdr tiny_elf 84 = Some (tiny_phdr PT_GNU_RELRO 0 0 0 0 4)"
  "read_phdr tiny_elf 116 = Some (tiny_phdr PT_LOAD 198 0x10000 4 4 5)" "read_phdr tiny_elf 148 = Some (tiny_phdr PT_LOAD 202 0x20000 4 16 6)"
proof -
  have d: "drop (52 + k) tiny_elf = drop k (concat (map put_phdr tiny_phdrs) @ tiny_body @ concat (map put_shdr tiny_shdrs))" for k
    by (simp add: tiny_elf_def)
  show "read_phdr tiny_elf 52 = Some (tiny_phdr PT_INTERP 180 0 18 18 4)"
    by (rule read_phdr_put) (use d [of 0] in \<open>simp add: tiny_phdrs_def; rule refl\<close>)
  show "read_phdr tiny_elf 84 = Some (tiny_phdr PT_GNU_RELRO 0 0 0 0 4)"
    by (rule read_phdr_put) (use d [of 32] in \<open>simp add: tiny_phdrs_def; rule refl\<close>)
  show "read_phdr tiny_elf 116 = Some (tiny_phdr PT_LOAD 198 0x10000 4 4 5)"
    by (rule read_phdr_put) (use d [of 64] in \<open>simp add: tiny_phdrs_def; rule refl\<close>)
  show "read_phdr tiny_elf 148 = Some (tiny_phdr PT_LOAD 202 0x20000 4 16 6)"
    by (rule read_phdr_put) (use d [of 96] in \<open>simp add: tiny_phdrs_def; rule refl\<close>)
qed

lemma tiny_read_shdrs: "read_shdrs tiny_elf 396 6 = Some tiny_shdrs"
proof -
  have "drop 396 tiny_elf = concat (map put_shdr tiny_shdrs) @ []" by (simp add: tiny_elf_def)
  moreover have "length tiny_shdrs = 6" by (simp add: tiny_shdrs_def)
  ultimately show ?thesis using read_shdrs_put by metis
qed

lemma tiny_drop: "k < 216 \<Longrightarrow> drop (180 + k) tiny_elf = drop k tiny_body @ concat (map put_shdr tiny_shdrs)"
  by (simp add: tiny_elf_def)

lemma tiny_slice: "k + n \<le> 216 \<Longrightarrow> slice (180 + k) n tiny_elf = slice k n tiny_body"
  by (cases "k < 216") (simp_all add: slice_def tiny_drop)

lemma tiny_segments: "check_segments tiny_elf tiny_ehdr = pass ()"
proof -
  have i: "slice 180 18 tiny_elf = BLYT_INTERP_PATH" using tiny_slice [of 0 18] by (simp add: slice_def tiny_body_bytes)
  have c: "slice 198 4 tiny_elf = [0x13, 0, 0, 0]" using tiny_slice [of 18 4] by (simp add: slice_def tiny_body_bytes)
  have o: "\<not> list_ex (bad_opcode tiny_elf) [tiny_phdr PT_LOAD 198 0x10000 4 4 5, tiny_phdr PT_LOAD 202 0x20000 4 16 6]"
    by (simp add: bad_opcode_def tiny_phdr_def PF_X_def c ECALL_def EBREAK_def)
  have v: "\<not> any_overlap [tiny_phdr PT_LOAD 198 0x10000 4 4 5, tiny_phdr PT_LOAD 202 0x20000 4 16 6]"
    by (simp add: loads_overlap_def ranges_overlap_def tiny_phdr_def)
  have l: "phdr_loop tiny_elf tiny_ehdr [0, 1, 2, 3] \<lparr>loads = [], has_relro = False, has_interp = False, entry_ok = False\<rparr> =
      pass \<lparr>loads = [tiny_phdr PT_LOAD 198 0x10000 4 4 5, tiny_phdr PT_LOAD 202 0x20000 4 16 6], has_relro = True,
        has_interp = True, entry_ok = True\<rparr>"
    by (simp add: phdr_at_def tiny_ehdr_def tiny_read_phdr check_phdr_def check_interp_def check_load_def and_then_def i
        u32_add_le_iff PT_INTERP_def PT_GNU_RELRO_def PT_GNU_STACK_def PT_LOAD_def PF_X_def PF_W_def tiny_phdr_def MAX_LOAD_def Let_def)
  have u: "[0..<unat (e_phnum tiny_ehdr)] = [0, 1, 2, 3]" by (simp add: tiny_ehdr_def upt_conv_Cons)
  have e: "e_phnum tiny_ehdr = 4" "e_phentsize tiny_ehdr = 32" "e_phoff tiny_ehdr = 52" "e_entry tiny_ehdr = 0x10000"
    by (simp_all add: tiny_ehdr_def)
  show ?thesis unfolding check_segments_def u using l o v by (simp add: e and_then_def)
qed

lemma tiny_name: 
  "drop 352 tiny_elf = 0 # drop 353 tiny_elf" 
  "drop 353 tiny_elf = ascii ''.text'' @ 0 # drop 359 tiny_elf" "drop 359 tiny_elf = ascii ''.dynstr'' @ 0 # drop 367 tiny_elf"
  "drop 367 tiny_elf = ascii ''.dynsym'' @ 0 # drop 375 tiny_elf" "drop 375 tiny_elf = ascii ''.cart.info'' @ 0 # drop 386 tiny_elf"
  "drop 386 tiny_elf = ascii ''.shstrtab'' @ 0 # concat (map put_shdr tiny_shdrs)"
  "drop 215 tiny_elf = ascii ''blyt_main'' @ 0 # drop 225 tiny_elf" "drop 225 tiny_elf = ascii ''blyt_cart_init'' @ 0 # drop 240 tiny_elf"
  "drop 240 tiny_elf = ascii ''blyt_cart_update'' @ 0 # drop 257 tiny_elf"
  "drop 257 tiny_elf = ascii ''blyt_cart_draw'' @ 0 # drop 272 tiny_elf"
  using tiny_drop [of 172] tiny_drop [of 173] tiny_drop [of 179] tiny_drop [of 187] tiny_drop [of 195] tiny_drop [of 206]
    tiny_drop [of 35] tiny_drop [of 45] tiny_drop [of 60] tiny_drop [of 77] tiny_drop [of 92]
  by (simp_all add: tiny_body_bytes tiny_names_def ascii_def tiny_syms_def)

lemma tiny_ascii:
  "ascii ''.debug_'' = [46, 100, 101, 98, 117, 103, 95]" "ascii ''.zdebug_'' = [46, 122, 100, 101, 98, 117, 103, 95]"
  "ascii ''.init_array'' = 46 # 105 # ascii ''nit_array''" "ascii ''.fini_array'' = 46 # 102 # ascii ''ini_array''"
  "ascii ''.preinit_array'' = 46 # 112 # ascii ''reinit_array''" "ascii ''.ctors'' = 46 # 99 # 116 # ascii ''ors''"
  "ascii ''.dtors'' = 46 # 100 # 116 # ascii ''ors''" "ascii ''.cart.info'' = [46, 99, 97, 114, 116, 46, 105, 110, 102, 111]"
  "ascii ''.cart.config'' = 46 # 99 # 97 # 114 # 116 # 46 # 99 # ascii ''onfig''"
  "ascii ''.cart.layouts'' = 46 # 99 # 97 # 114 # 116 # 46 # 108 # ascii ''ayouts''"
  "ascii ''.cart.lua'' = 46 # 99 # 97 # 114 # 116 # 46 # 108 # ascii ''ua''"
  "ascii ''.dynamic'' = [46, 100, 121, 110, 97, 109, 105, 99]" "ascii ''.dynstr'' = [46, 100, 121, 110, 115, 116, 114]"
  "ascii ''.dynsym'' = [46, 100, 121, 110, 115, 121, 109]" "ascii ''.text'' = [46, 116, 101, 120, 116]"
  "ascii ''.shstrtab'' = [46, 115, 104, 115, 116, 114, 116, 97, 98]"
  by (simp_all add: ascii_def of_char_def)

lemma tiny_table: "shdr_table tiny_elf tiny_ehdr = pass tiny_shdrs"
  using tiny_read_shdrs by (simp add: shdr_table_def tiny_ehdr_def in_bounds_def) (simp add: tiny_shdrs_def tiny_shdr_def)

definition tiny_sections :: sect_state where
  "tiny_sections = no_sections\<lparr>sect_cart_info := Some (tiny_shdr 23 1 206 8 0 0),
     sect_dynsym := Some (tiny_shdr 15 SHT_DYNSYM 272 80 2 16), sect_dynstr_sh := Some (tiny_shdr 7 SHT_STRTAB 214 58 0 0)\<rparr>"

lemma tiny_section:
  "check_section tiny_elf (tiny_shdr 34 SHT_STRTAB 352 44 0 0) (tiny_shdr 0 0 0 0 0 0) s = pass s"
  "check_section tiny_elf (tiny_shdr 34 SHT_STRTAB 352 44 0 0) (tiny_shdr 1 1 198 4 0 0) s = pass s"
  "check_section tiny_elf (tiny_shdr 34 SHT_STRTAB 352 44 0 0) (tiny_shdr 7 SHT_STRTAB 214 58 0 0) s =
     pass (s\<lparr>sect_dynstr_sh := Some (tiny_shdr 7 SHT_STRTAB 214 58 0 0)\<rparr>)"
  "check_section tiny_elf (tiny_shdr 34 SHT_STRTAB 352 44 0 0) (tiny_shdr 15 SHT_DYNSYM 272 80 2 16) s =
     pass (s\<lparr>sect_dynsym := Some (tiny_shdr 15 SHT_DYNSYM 272 80 2 16)\<rparr>)"
  "check_section tiny_elf (tiny_shdr 34 SHT_STRTAB 352 44 0 0) (tiny_shdr 23 1 206 8 0 0) s =
     pass (s\<lparr>sect_cart_info := Some (tiny_shdr 23 1 206 8 0 0)\<rparr>)"
  "check_section tiny_elf (tiny_shdr 34 SHT_STRTAB 352 44 0 0) (tiny_shdr 34 SHT_STRTAB 352 44 0 0) s = pass s"
  by (simp_all add: check_section_def tiny_shdr_def section_name_denied_def DENIED_SECTIONS_def note_section_def c_streq_drop c_prefix_drop
      tiny_name tiny_ascii SHT_STRTAB_def SHT_DYNSYM_def SHT_NOBITS_def in_bounds_def word_le_nat_alt)

lemma tiny_section_loop: "section_loop tiny_elf (tiny_shdrs ! 5) tiny_shdrs no_sections = pass tiny_sections"
  by (simp add: tiny_shdrs_def and_then_def tiny_section tiny_sections_def no_sections_def)

lemma tiny_read_sym:
  "read_sym tiny_elf 272 = Some (tiny_sym 0 0 0)" "read_sym tiny_elf 288 = Some (tiny_sym 1 0x12 0)"
  "read_sym tiny_elf 304 = Some (tiny_sym 11 0x12 1)" "read_sym tiny_elf 320 = Some (tiny_sym 26 0x12 1)"
  "read_sym tiny_elf 336 = Some (tiny_sym 43 0x12 1)"
proof -
  have "drop 272 tiny_elf = concat (map put_sym tiny_syms) @ drop 352 tiny_elf"
    using tiny_drop [of 92] tiny_drop [of 172] by (simp add: tiny_body_bytes tiny_names_def ascii_def tiny_syms_def)
  then have d: "drop (272 + k) tiny_elf = drop k (concat (map put_sym tiny_syms) @ drop 352 tiny_elf)" for k
    by (metis add.commute drop_drop)
  show "read_sym tiny_elf 272 = Some (tiny_sym 0 0 0)"
    by (rule read_sym_put) (use d [of 0] in \<open>simp add: tiny_syms_def; rule refl\<close>)
  show "read_sym tiny_elf 288 = Some (tiny_sym 1 0x12 0)"
    by (rule read_sym_put) (use d [of 16] in \<open>simp add: tiny_syms_def; rule refl\<close>)
  show "read_sym tiny_elf 304 = Some (tiny_sym 11 0x12 1)"
    by (rule read_sym_put) (use d [of 32] in \<open>simp add: tiny_syms_def; rule refl\<close>)
  show "read_sym tiny_elf 320 = Some (tiny_sym 26 0x12 1)"
    by (rule read_sym_put) (use d [of 48] in \<open>simp add: tiny_syms_def; rule refl\<close>)
  show "read_sym tiny_elf 336 = Some (tiny_sym 43 0x12 1)"
    by (rule read_sym_put) (use d [of 64] in \<open>simp add: tiny_syms_def; rule refl\<close>)
qed

lemma streq_self: "0 \<notin> set s \<Longrightarrow> streq (s @ 0 # post) s = Some True"
  by (induction s) auto

lemma tiny_streq:
  "c_streq tiny_elf 215 (ascii ''blyt_main'') = Some True" "c_streq tiny_elf 225 (ascii ''blyt_cart_init'') = Some True"
  "c_streq tiny_elf 225 (ascii ''blyt_cart_update'') = Some False" "c_streq tiny_elf 225 (ascii ''blyt_cart_draw'') = Some False"
  "c_streq tiny_elf 240 (ascii ''blyt_cart_update'') = Some True" "c_streq tiny_elf 240 (ascii ''blyt_cart_draw'') = Some False"
  "c_streq tiny_elf 257 (ascii ''blyt_cart_draw'') = Some True"
  by (simp_all add: c_streq_drop tiny_name ascii_def of_char_def)

lemma tiny_allowed: "any_streq tiny_elf 215 SYMBOL_ALLOWLIST = Some True"
  by (simp add: SYMBOL_ALLOWLIST_def ALLOWED_API_def tiny_streq)

lemma tiny_sym_list: "[0..<unat (sh_size (tiny_shdr 15 SHT_DYNSYM 272 80 2 16) div sh_entsize (tiny_shdr 15 SHT_DYNSYM 272 80 2 16))] = [0, 1, 2, 3, 4]"
  by (simp add: tiny_shdr_def upt_conv_Cons)

lemma tiny_imports: "check_imports tiny_elf tiny_shdrs tiny_sections False = pass ()"
  unfolding check_imports_def tiny_sections_def
  by (simp add: tiny_sym_list)
    (simp add: tiny_shdr_def tiny_read_sym is_import_def tiny_sym_def ELF32_ST_BIND_def STB_GLOBAL_def SHN_UNDEF_def symbol_strings_def
      import_allowed_def symbol_name_allowed_def tiny_allowed word_le_nat_alt)

lemma tiny_entries: "check_entries tiny_elf tiny_sections False = pass ()"
  unfolding check_entries_def tiny_sections_def no_sections_def REQUIRED_ENTRY_POINTS_def
  by (simp add: tiny_sym_list)
    (simp add: tiny_shdr_def tiny_read_sym tiny_sym_def ELF32_ST_BIND_def STB_GLOBAL_def SHN_UNDEF_def tiny_streq word_le_nat_alt upt_conv_Cons)

lemma tiny_info: "check_info tiny_fb tiny_elf (\<lambda>n. True) tiny_sections = pass (False, ascii ''tiny'', ascii ''Tiny'', ascii ''1'')"
proof -
  have t: "slice 206 4 tiny_elf = CART_INFO_TAG" "slice 210 2 tiny_elf = [0, 0]"
    using tiny_slice [of 26 4] tiny_slice [of 30 2] by (simp_all add: slice_def tiny_body_bytes CART_INFO_TAG_def ascii_def of_char_def)
  have "load_fb tiny_elf (\<lambda>n. True) (tiny_shdr 23 1 206 8 0 0) CART_INFO_TAG = pass []"
    by (simp add: load_fb_def check_preamble_def tiny_shdr_def SECT_PREAMBLE_SIZE_def slice_at_def t u16_at_def)
  then show ?thesis
    by (simp add: check_info_def tiny_sections_def and_then_def tiny_fb_def strdup_of_def BLYT_API_VERSION_MAJOR_def cart_id_valid_def cart_text_valid_def
        id_char_def ascii_def of_char_def)
qed

lemma tiny_open: "blyt_cart_open tiny_fb (\<lambda>n. True) \<lparr>opened = Some tiny_elf, mapped = True\<rparr> ''tiny.blyt'' = Some (Inr tiny_cart)"
proof -
  have "check_ident tiny_ehdr = pass ()" "unat (e_shstrndx tiny_ehdr) = 5"
    by (simp_all add: check_ident_def tiny_ehdr_def EM_RISCV_def BLYT_CART_EF_FLAGS_def)
  moreover have "check_needed tiny_elf tiny_shdrs tiny_sections = pass False" "check_config tiny_fb tiny_elf (\<lambda>n. True) tiny_sections = pass (0, 0)"
    "check_layouts tiny_fb tiny_elf (\<lambda>n. True) tiny_sections = pass ()" "\<not> has_dwarf tiny_sections"
    by (simp_all add: check_needed_def check_config_def check_layouts_def tiny_sections_def no_sections_def)
  ultimately show ?thesis
    by (simp add: blyt_cart_open_def validate_def and_then_def tiny_read_ehdr tiny_segments tiny_table tiny_section_loop tiny_imports tiny_info
        tiny_entries tiny_cart_def)
qed

lemma tiny_program_headers: "program_headers tiny_elf tiny_ehdr = tiny_phdrs"
proof -
  have "[0..<unat (e_phnum tiny_ehdr)] = [0, 1, 2, 3]" "e_phoff tiny_ehdr = 52" "e_phentsize tiny_ehdr = 32"
    by (simp_all add: tiny_ehdr_def upt_conv_Cons)
  then show ?thesis by (simp add: program_headers_def phdr_at_def tiny_read_phdr tiny_phdrs_def)
qed

section \<open>What an accepted cart satisfies\<close>





end
