(* ===== verification/Spec2Isabelle.thy ===== *)
theory Spec2Isabelle
  imports Handles Arena_Contract Save Resources Raster Palettes Ecall Cart_Load
begin

text \<open>
  \<^bold>\<open>Verification of the blyt fantasy-console runtime.\<close>

  blyt runs a cart (a RISC-V ELF image, possibly with Lua code) in one of three ways: emulated by rv32emu inside the host
  library, as a native process, or on a host Lua machine.  All of them share a small core under \<^verbatim>\<open>runtime/shared\<close>
  (handles, heap allocator, memory budget, save format, ELF section walk, resource codec, rasteriser, palettes), and the
  emulated path adds the host library \<^verbatim>\<open>runtime/host/src/libblyt\<close>, which owns the state buffers, the resource
  table, the surfaces and the ECALL dispatcher through which a cart reaches them.  This development models the shared core
  completely and the host side of the emulated path up to the dispatcher.

  \<^bold>\<open>Theories and sources.\<close>
  \<^item> \<open>Blyt_Prelude\<close>: machine words, byte strings (\<open>slice\<close>, \<open>splice\<close>, little-endian \<open>le_bytes\<close>/\<open>le_of\<close>), flat memories, and
    the lemma collections \<open>byte_simps\<close> and \<open>word_arith\<close>.
  \<^item> \<open>Handles\<close>: \<^verbatim>\<open>blyt_handle.h\<close>, \<^verbatim>\<open>blyt_gen.h\<close>, \<^verbatim>\<open>blyt_phase.h\<close>, \<^verbatim>\<open>blyt_fp_canon.c\<close>.
  \<^item> \<open>Mem_Budget\<close>: the 16 MiB admission predicate of \<^verbatim>\<open>blyt_mem_budget.h\<close>.
  \<^item> \<open>Arena\<close>, \<open>Arena_Contract\<close>: the free-list allocator \<^verbatim>\<open>blyt_arena.c\<close> over a flat memory, and the guest's malloc
    family \<^verbatim>\<open>blytc_arena.c\<close> on top of it.  The region heap that clients rely on is a locale; the arena is its
    interpretation.
  \<^item> \<open>Blys\<close>: the BLYS save format \<^verbatim>\<open>blyt_blys.c\<close>, over an abstract byte source and sink (a locale for the source laws,
    interpreted on host files in \<open>Save\<close>).
  \<^item> \<open>State_Buffer\<close>: \<^verbatim>\<open>state_buffer.c\<close>, the typed slot buffers of a cart.
  \<^item> \<open>Save\<close>: \<^verbatim>\<open>save.c\<close>, saving and loading of a state context through the format.
  \<^item> \<open>Elf_Section\<close>: the section walk \<^verbatim>\<open>blyt_elf_section.c\<close> on arbitrary bytes.
  \<^item> \<open>Cart_Load\<close>: \<^verbatim>\<open>cart_load.c\<close> and \<^verbatim>\<open>elf32.h\<close>, the checks that an untrusted cart image passes before it is used, in the
    order of the code, and the queries on an opened cart.
  \<^item> \<open>Resources\<close>: \<^verbatim>\<open>resource.c\<close>, \<^verbatim>\<open>blyt_resource_codec.c\<close>, \<^verbatim>\<open>blyt_resource_lifecycle.h\<close>: the table of a cart's
    resources, lazy decompression, pinning, LRU eviction.  A cached object is a locale, interpreted on table entries.
  \<^item> \<open>Raster\<close>, \<open>Palettes\<close>: the integer rasteriser \<^verbatim>\<open>blyt_raster.c\<close>, \<^verbatim>\<open>blyt_frame_hash.c\<close>, \<^verbatim>\<open>blyt_palettes.c\<close>.
  \<^item> \<open>Surfaces\<close>: the run context of \<^verbatim>\<open>cart_run.c\<close> with its surface registry, pixel locks, handle resolvers, the bridge of
    the unified budget and the host-side surface calls.
  \<^item> \<open>Ecall\<close>: \<^verbatim>\<open>blyt_ecall_handler\<close> and the frame entry of \<^verbatim>\<open>run_frame_impl\<close> in \<^verbatim>\<open>cart_run.c\<close>, and sessions as sequences of
    guest steps, ECALLs, frames and host calls.

  \<^bold>\<open>How state and operations correspond.\<close>  A struct is a record whose fields keep the source's names (with a prefix
  where two structs share a name); an operation is a function of the same name that returns the new state.  A C function
  that reports an error returns \<open>None\<close> or the C code, as the text of its theory says.  Fixed-width integers are words of
  that width wherever the code's arithmetic can wrap; \<^verbatim>\<open>int\<close> parameters that are only compared are integers.  Memory
  that several parts share (the arena, the emulator's RAM) is an explicit byte memory.  Loops are recursive functions with
  termination proofs; the two loops that can run forever on some inputs (the line walk, whose 32-bit error term can
  overflow, and reading from an adversarial byte source) are \<open>partial_function\<close>s, and the theorems state when they return.

  \<^bold>\<open>What the lemmas show.\<close>
  \<^item> Handles: encode/decode round trips, kinds never confused, period of the generation counter, NaN canonicalisation.
  \<^item> Heap: every sequence of heap operations keeps the arena well formed, live blocks aligned, in bounds, disjoint and with
    their contents kept; malloc, free, realloc and calloc on every branch; the budget is never exceeded; the guest's entry
    points refine the region heap.
  \<^item> State: set/get round trips, slot references are valid exactly until the slot is freed (up to the generation period),
    snapshot and restore, save and load round trip, loading is total and safe on every file, truncation is detected.
  \<^item> Cart images: the section walk never reads outside the image and finds exactly the sections the table describes; the
    resource table holds exactly the resources of the image.  An accepted cart has only segments inside of the file that
    do not overlap, are not both writable and executable and contain no system-call instruction, and it names only
    allowed sections and imports.
  \<^item> Resources: contents are stable under caching, the budget does not depend on the cache, eviction is LRU and terminates,
    persistent resources stay resident.
  \<^item> Graphics: every primitive writes exactly the pixels it should and none outside; the nearest colour is exact.
  \<^item> Sessions: the surface registry is well typed in every reachable state, handles of freed surfaces do not resolve,
    pixels change only through the gated operations, pixel locks are coherent, a pinned resource shows the guest exactly
    its bytes, and every ECALL returns.

  \<^bold>\<open>Parameters.\<close>  The emulator rv32emu is not part of the repository: its memory is a parameter (\<open>guest_ops\<close>) with the
  hypothesis \<open>guest_memory\<close> that it is a flat memory of 256 MiB; \<open>flat_ops\<close> is an instance.  The zstd decoder, the file
  system and the outcome of allocations are parameters (\<open>res_env\<close>, \<open>host_fs\<close>, \<open>cart_file\<close>), as are the FlatBuffers
  verifiers and readers that the build generates (\<open>fb_ops\<close>).

  \<^bold>\<open>Bounds.\<close>  No fuel is used.  The line theorem and the ECALL theorem ask for end points at most 2 to the 28 apart, which
  keeps the error term of the walk inside 32 bits; surfaces have sides up to 8192, so coordinates of visible pixels are
  far below that.  The theorem on the segments of a cart asks for at most 64 loadable ones: the validator does not look at
  the overlaps and instructions of further ones.

  \<^bold>\<open>Not modelled.\<close>  Of \<^verbatim>\<open>cart_run.c\<close>: mapping and dynamic linking of ELF images (they write into emulator internals), the
  debugger entry points, the Lua bridge, hot reload and the test card.  Of \<^verbatim>\<open>cart_load.c\<close>: the Lua
  lifecycle mask, which runs a Lua machine, and the error strings.  The debug adapters, the Lua runtimes, the
  native, browser and libretro front ends and the developer tool are drivers around operating-system, emulator and Lua
  interfaces whose code is not in the repository; the parts of them that are pure (handles, heap, raster, format, codec)
  are the shared core modelled here.
\<close>

end
